(* ===== verification/Qs_Prelude.thy ===== *)
theory Qs_Prelude
  imports Main "HOL-Library.Word"
begin

text \<open>
  Shared vocabulary of the development: the machine integer types of \<^verbatim>\<open>shared/util/util.h\<close>,
  the ways a C call can fail to return (faults) with the sequencing of fallible calls, and byte
  sequences with little-endian encodings and in-place updates, which the packet layout, the
  queues and the I/O buffers are built on.
\<close>

section \<open>Machine integers\<close>

type_synonym u8 = "8 word"
type_synonym u32 = "32 word"
type_synonym u64 = "64 word"
type_synonym bytes = "u8 list"

section \<open>Faults and sequencing\<close>

text \<open>
  A call either returns, or ends the process (a failed \<^verbatim>\<open>assert\<close>, a call of \<^verbatim>\<open>die\<close>), or leaves
  the defined behaviour of C (a write outside an object). \<open>Out_Of_Fuel\<close> is no behaviour of the
  program: loops whose exit depends on a library outside the repository carry a fuel argument,
  and every statement that a loop returns is proved with an explicit amount of fuel.
\<close>

datatype fault = Assert_Failed | Died | Undefined | Out_Of_Fuel

definition bindE :: "fault + 'a \<Rightarrow> ('a \<Rightarrow> fault + 'b) \<Rightarrow> fault + 'b" where
  "bindE m f = (case m of Inl e \<Rightarrow> Inl e | Inr x \<Rightarrow> f x)"

lemma bindE_simps [simp]:
  "bindE (Inr x) f = f x"
  "bindE (Inl e) f = Inl e"
  by (simp_all add: bindE_def)

lemma bindE_Inr_iff: "bindE m f = Inr y \<longleftrightarrow> (\<exists>x. m = Inr x \<and> f x = Inr y)"
  by (cases m) simp_all

lemma bindE_Inr_elim [elim!]:
  assumes "bindE m f = Inr y"
  obtains x where "m = Inr x" "f x = Inr y"
  using assms by (cases m) auto

text \<open>\<open>assertE b\<close> is C's \<^verbatim>\<open>assert(b)\<close>: the server is built without \<^verbatim>\<open>NDEBUG\<close>.\<close>

definition assertE :: "bool \<Rightarrow> fault + unit" where
  "assertE b = (if b then Inr () else Inl Assert_Failed)"

lemma assertE_simps [simp]:
  "assertE True = Inr ()" "assertE False = Inl Assert_Failed"
  "assertE b = Inr u \<longleftrightarrow> b"
  by (simp_all add: assertE_def)

text \<open>
  \<open>keepsE df P m\<close>: whenever the computation \<open>m\<close> returns, its value satisfies \<open>P\<close>, and if \<open>df\<close>
  holds, \<open>m\<close> stays within the defined behaviour of C. Preservation lemmas of the components are
  stated with it, for every \<open>df\<close>, and chained by \<open>keepsE_bind\<close>.
\<close>

definition keepsE :: "bool \<Rightarrow> ('a \<Rightarrow> bool) \<Rightarrow> fault + 'a \<Rightarrow> bool" where
  "keepsE df P m \<longleftrightarrow> (\<forall>x. m = Inr x \<longrightarrow> P x) \<and> (df \<longrightarrow> m \<noteq> Inl Undefined)"

lemma keepsE_simps [simp]:
  "keepsE df P (Inr x) = P x" "keepsE df P (Inl e) = (df \<longrightarrow> e \<noteq> Undefined)"
  by (auto simp: keepsE_def)

lemma keepsE_D: "keepsE df P m \<Longrightarrow> m = Inr x \<Longrightarrow> P x"
  by (simp add: keepsE_def)

lemma keepsE_defined: "keepsE True P m \<Longrightarrow> m \<noteq> Inl Undefined"
  by (simp add: keepsE_def)

lemma keepsE_bind:
  "keepsE df P m \<Longrightarrow> (\<And>x. P x \<Longrightarrow> keepsE df Q (f x)) \<Longrightarrow> keepsE df Q (bindE m f)"
  by (cases m) simp_all

lemma keepsE_mono: "keepsE df P m \<Longrightarrow> (\<And>x. P x \<Longrightarrow> Q x) \<Longrightarrow> keepsE df Q m"
  by (simp add: keepsE_def)

text \<open>\<open>returnsE d P m\<close>: a result of \<open>m\<close> has the property \<open>P\<close>, and under \<open>d\<close> there is one.\<close>

definition returnsE :: "bool \<Rightarrow> ('a \<Rightarrow> bool) \<Rightarrow> fault + 'a \<Rightarrow> bool" where
  "returnsE d P m \<longleftrightarrow> (\<forall>x. m = Inr x \<longrightarrow> P x) \<and> (d \<longrightarrow> (\<exists>x. m = Inr x))"

lemma returnsE_simps [simp]:
  "returnsE d P (Inr x) = P x" "returnsE d P (Inl e) = (\<not> d)"
  by (auto simp: returnsE_def)

lemma returnsE_D: "returnsE d P m \<Longrightarrow> m = Inr x \<Longrightarrow> P x"
  by (simp add: returnsE_def)

lemma returnsE_ex: "returnsE d P m \<Longrightarrow> d \<Longrightarrow> \<exists>x. m = Inr x \<and> P x"
  by (auto simp: returnsE_def)

lemma returnsE_bind:
  "returnsE d P m \<Longrightarrow> (\<And>x. P x \<Longrightarrow> returnsE d Q (f x)) \<Longrightarrow> returnsE d Q (bindE m f)"
  by (cases m) simp_all

lemma returnsE_mono: "returnsE d P m \<Longrightarrow> (\<And>x. P x \<Longrightarrow> Q x) \<Longrightarrow> returnsE d Q m"
  by (auto simp: returnsE_def)

lemma returnsE_keepsE: "returnsE d P m \<Longrightarrow> keepsE d P m"
  by (auto simp: returnsE_def keepsE_def)

lemma keepsE_bind_assert: "(b \<Longrightarrow> keepsE df Q (f ())) \<Longrightarrow> keepsE df Q (bindE (assertE b) f)"
  by (cases b) simp_all

section \<open>Byte sequences\<close>

definition get_bytes :: "nat \<Rightarrow> nat \<Rightarrow> bytes \<Rightarrow> bytes" where
  "get_bytes off n p = take n (drop off p)"

definition put_bytes :: "nat \<Rightarrow> bytes \<Rightarrow> bytes \<Rightarrow> bytes" where
  "put_bytes off bs p = take off p @ bs @ drop (off + length bs) p"

named_theorems byte_simps

lemma length_put_bytes [byte_simps]:
  "off + length bs \<le> length p \<Longrightarrow> length (put_bytes off bs p) = length p"
  by (simp add: put_bytes_def)

lemma length_get_bytes [byte_simps]:
  "off + n \<le> length p \<Longrightarrow> length (get_bytes off n p) = n"
  by (simp add: get_bytes_def)

lemma get_put_same [byte_simps]:
  "off + length bs \<le> length p \<Longrightarrow> n = length bs \<Longrightarrow> get_bytes off n (put_bytes off bs p) = bs"
  by (simp add: get_bytes_def put_bytes_def)

lemma get_put_below:
  "off' + n \<le> off \<Longrightarrow> off + length bs \<le> length p \<Longrightarrow>
   get_bytes off' n (put_bytes off bs p) = get_bytes off' n p"
  by (auto simp: get_bytes_def put_bytes_def intro!: nth_equalityI)

lemma get_put_above:
  "off + length bs \<le> off' \<Longrightarrow> off + length bs \<le> length p \<Longrightarrow>
   get_bytes off' n (put_bytes off bs p) = get_bytes off' n p"
  by (simp add: get_bytes_def put_bytes_def)

lemma get_put_other [byte_simps]:
  "off' + n \<le> off \<or> off + length bs \<le> off' \<Longrightarrow> off + length bs \<le> length p \<Longrightarrow>
   get_bytes off' n (put_bytes off bs p) = get_bytes off' n p"
  using get_put_below get_put_above by blast

lemma get_bytes_replicate [byte_simps]:
  "off + n \<le> m \<Longrightarrow> get_bytes off n (replicate m b) = replicate n b"
  by (simp add: get_bytes_def min_def)

section \<open>Little-endian integers\<close>

fun le_bytes :: "nat \<Rightarrow> nat \<Rightarrow> bytes" where
  "le_bytes 0 v = []"
| "le_bytes (Suc n) v = word_of_nat (v mod 256) # le_bytes n (v div 256)"

fun le_val :: "bytes \<Rightarrow> nat" where
  "le_val [] = 0"
| "le_val (b # bs) = unat b + 256 * le_val bs"

lemma length_le_bytes [simp]: "length (le_bytes n v) = n"
  by (induction n arbitrary: v) simp_all

lemma le_val_le_bytes: "le_val (le_bytes n v) = v mod 256 ^ n"
proof (induction n arbitrary: v)
  case 0
  then show ?case by simp
next
  case (Suc n)
  have "v mod 256 ^ Suc n = v mod 256 + 256 * (v div 256 mod 256 ^ n)"
    by (simp add: mod_mult2_eq)
  then show ?case
    using Suc.IH [of "v div 256"] by (simp add: unat_of_nat take_bit_eq_mod)
qed

lemma unat_bounds:
  "unat (b :: u8) < 256" "unat (v :: u32) < 4294967296" "unat (w :: u64) < 18446744073709551616"
proof -
  have "unat b < 2 ^ LENGTH(8)" "unat v < 2 ^ LENGTH(32)" "unat w < 2 ^ LENGTH(64)"
    by (rule unsigned_less)+
  then show "unat b < 256" "unat v < 4294967296" "unat w < 18446744073709551616"
    by simp_all
qed

lemma le_val_less: "le_val bs < 256 ^ length bs"
proof (induction bs)
  case Nil
  then show ?case by simp
next
  case (Cons b bs)
  have "unat b < 256" by (rule unat_bounds)
  with Cons show ?case by simp
qed

lemma le_val_replicate_0 [simp]: "le_val (replicate n 0) = 0"
  by (induction n) simp_all

text \<open>The decoder is injective on byte strings of one length: the encoder inverts it.\<close>

lemma le_bytes_le_val: "le_bytes (length bs) (le_val bs) = bs"
proof (induction bs)
  case Nil
  then show ?case by simp
next
  case (Cons b bs)
  have b: "unat b < 256" by (rule unat_bounds)
  then show ?case using Cons.IH by simp
qed

definition get_u32 :: "nat \<Rightarrow> bytes \<Rightarrow> u32" where
  "get_u32 off p = word_of_nat (le_val (get_bytes off 4 p))"

definition put_u32 :: "nat \<Rightarrow> u32 \<Rightarrow> bytes \<Rightarrow> bytes" where
  "put_u32 off v p = put_bytes off (le_bytes 4 (unat v)) p"

definition get_u64 :: "nat \<Rightarrow> bytes \<Rightarrow> u64" where
  "get_u64 off p = word_of_nat (le_val (get_bytes off 8 p))"

definition put_u64 :: "nat \<Rightarrow> u64 \<Rightarrow> bytes \<Rightarrow> bytes" where
  "put_u64 off v p = put_bytes off (le_bytes 8 (unat v)) p"

definition get_u8 :: "nat \<Rightarrow> bytes \<Rightarrow> u8" where
  "get_u8 off p = word_of_nat (le_val (get_bytes off 1 p))"

definition put_u8 :: "nat \<Rightarrow> u8 \<Rightarrow> bytes \<Rightarrow> bytes" where
  "put_u8 off v p = put_bytes off (le_bytes 1 (unat v)) p"

lemma length_put_u32 [byte_simps]: "off + 4 \<le> length p \<Longrightarrow> length (put_u32 off v p) = length p"
  and length_put_u64 [byte_simps]: "off + 8 \<le> length p \<Longrightarrow> length (put_u64 off w p) = length p"
  and length_put_u8 [byte_simps]: "off + 1 \<le> length p \<Longrightarrow> length (put_u8 off b p) = length p"
  by (simp_all add: put_u32_def put_u64_def put_u8_def length_put_bytes)

lemma word_of_unat_mod [simp]:
  "word_of_nat (unat (v :: 32 word) mod 4294967296) = v"
  "word_of_nat (unat (w :: 64 word) mod 18446744073709551616) = w"
  "word_of_nat (unat (b :: 8 word) mod 256) = b"
  using unat_bounds by simp_all

lemma get_put_u32 [byte_simps]: "off + 4 \<le> length p \<Longrightarrow> get_u32 off (put_u32 off v p) = v"
  and get_put_u64 [byte_simps]: "off + 8 \<le> length p \<Longrightarrow> get_u64 off (put_u64 off w p) = w"
  and get_put_u8 [byte_simps]: "off + 1 \<le> length p \<Longrightarrow> get_u8 off (put_u8 off b p) = b"
  by (simp_all add: get_u32_def put_u32_def get_u64_def put_u64_def get_u8_def put_u8_def
      get_put_same le_val_le_bytes del: le_bytes.simps)

lemma get_bytes_put_u32 [byte_simps]:
  "off' + n \<le> off \<or> off + 4 \<le> off' \<Longrightarrow> off + 4 \<le> length p \<Longrightarrow>
   get_bytes off' n (put_u32 off v p) = get_bytes off' n p"
  and get_bytes_put_u64 [byte_simps]:
  "off' + n \<le> off \<or> off + 8 \<le> off' \<Longrightarrow> off + 8 \<le> length p \<Longrightarrow>
   get_bytes off' n (put_u64 off w p) = get_bytes off' n p"
  and get_bytes_put_u8 [byte_simps]:
  "off' + n \<le> off \<or> off + 1 \<le> off' \<Longrightarrow> off + 1 \<le> length p \<Longrightarrow>
   get_bytes off' n (put_u8 off b p) = get_bytes off' n p"
  by (simp_all add: put_u32_def put_u64_def put_u8_def get_put_other)

lemma get_u32_put_other [byte_simps]:
  "off' + 4 \<le> off \<or> off + length bs \<le> off' \<Longrightarrow> off + length bs \<le> length p \<Longrightarrow>
   get_u32 off' (put_bytes off bs p) = get_u32 off' p"
  "off' + 4 \<le> off \<or> off + 4 \<le> off' \<Longrightarrow> off + 4 \<le> length p \<Longrightarrow>
   get_u32 off' (put_u32 off v p) = get_u32 off' p"
  "off' + 4 \<le> off \<or> off + 8 \<le> off' \<Longrightarrow> off + 8 \<le> length p \<Longrightarrow>
   get_u32 off' (put_u64 off w p) = get_u32 off' p"
  "off' + 4 \<le> off \<or> off + 1 \<le> off' \<Longrightarrow> off + 1 \<le> length p \<Longrightarrow>
   get_u32 off' (put_u8 off b p) = get_u32 off' p"
  by (simp_all add: get_u32_def get_put_other get_bytes_put_u32 get_bytes_put_u64 get_bytes_put_u8)

lemma get_u64_put_other [byte_simps]:
  "off' + 8 \<le> off \<or> off + length bs \<le> off' \<Longrightarrow> off + length bs \<le> length p \<Longrightarrow>
   get_u64 off' (put_bytes off bs p) = get_u64 off' p"
  "off' + 8 \<le> off \<or> off + 4 \<le> off' \<Longrightarrow> off + 4 \<le> length p \<Longrightarrow>
   get_u64 off' (put_u32 off v p) = get_u64 off' p"
  "off' + 8 \<le> off \<or> off + 8 \<le> off' \<Longrightarrow> off + 8 \<le> length p \<Longrightarrow>
   get_u64 off' (put_u64 off w p) = get_u64 off' p"
  "off' + 8 \<le> off \<or> off + 1 \<le> off' \<Longrightarrow> off + 1 \<le> length p \<Longrightarrow>
   get_u64 off' (put_u8 off b p) = get_u64 off' p"
  by (simp_all add: get_u64_def get_put_other get_bytes_put_u32 get_bytes_put_u64 get_bytes_put_u8)

lemma get_u8_put_other [byte_simps]:
  "off' + 1 \<le> off \<or> off + length bs \<le> off' \<Longrightarrow> off + length bs \<le> length p \<Longrightarrow>
   get_u8 off' (put_bytes off bs p) = get_u8 off' p"
  "off' + 1 \<le> off \<or> off + 4 \<le> off' \<Longrightarrow> off + 4 \<le> length p \<Longrightarrow>
   get_u8 off' (put_u32 off v p) = get_u8 off' p"
  "off' + 1 \<le> off \<or> off + 8 \<le> off' \<Longrightarrow> off + 8 \<le> length p \<Longrightarrow>
   get_u8 off' (put_u64 off w p) = get_u8 off' p"
  "off' + 1 \<le> off \<or> off + 1 \<le> off' \<Longrightarrow> off + 1 \<le> length p \<Longrightarrow>
   get_u8 off' (put_u8 off b p) = get_u8 off' p"
  by (simp_all add: get_u8_def get_put_other get_bytes_put_u32 get_bytes_put_u64 get_bytes_put_u8)

lemma get_zero [byte_simps]:
  "off + 4 \<le> m \<Longrightarrow> get_u32 off (replicate m 0) = 0"
  "off + 8 \<le> m \<Longrightarrow> get_u64 off (replicate m 0) = 0"
  "off + 1 \<le> m \<Longrightarrow> get_u8 off (replicate m 0) = 0"
  by (simp_all add: get_u32_def get_u64_def get_u8_def get_bytes_replicate)

end
