(* ===== verification/Mem_Pool.thy ===== *)
theory Mem_Pool
  imports Qs_Prelude
begin

text \<open>
  The bump allocator of \<^verbatim>\<open>shared/mem_pool/mem.c\<close>. Addresses and sizes are 64-bit words
  (\<^verbatim>\<open>char*\<close> and \<^verbatim>\<open>size_t\<close> on x86-64), NULL is 0. \<^verbatim>\<open>malloc\<close> is an argument: the
  address it returns. The lemmas show that the blocks handed out are aligned, inside the pool
  and disjoint, and where the bound check of \<^verbatim>\<open>alloc\<close> wraps around.
\<close>

section \<open>State and operations\<close>

record block =
  blk_next :: u64
  blk_mem :: u64
  blk_free :: u64
  blk_end :: u64

record memory_pool =
  root :: block
  block_size :: u64
  mem_used :: u64

definition init_block :: "(u64 \<Rightarrow> u64) \<Rightarrow> memory_pool \<Rightarrow> block \<Rightarrow> bool \<times> block" where
  "init_block malloc pool b =
     (let b1 = b\<lparr>blk_mem := malloc (block_size pool)\<rparr> in
      if blk_mem b1 = 0 then (False, b1)
      else (True, b1\<lparr>blk_free := blk_mem b1, blk_next := 0,
                     blk_end := blk_mem b1 + block_size pool\<rparr>))"

definition mem_pool_init :: "(u64 \<Rightarrow> u64) \<Rightarrow> u64 \<Rightarrow> memory_pool \<Rightarrow> bool \<times> memory_pool" where
  "mem_pool_init malloc sz pool =
     (let p1 = pool\<lparr>mem_used := 0, block_size := sz\<rparr>;
          (ok, b) = init_block malloc p1 (root p1)
      in (ok, p1\<lparr>root := b\<rparr>))"

lemma unat_mod_8: "unat (sz mod 8 :: u64) = unat sz mod 8"
  by (simp add: unat_mod_distrib)

lemma unat_inc_mod_8: "unat (sz + 1 :: u64) mod 8 = (unat sz + 1) mod 8"
proof -
  have "unat (sz + 1) = (unat sz + 1) mod 2 ^ 64"
    by (simp add: unat_word_ariths)
  then show ?thesis
    by (simp add: mod_mod_cancel)
qed

lemma mod_8_zero_iff: "sz mod 8 = (0 :: u64) \<longleftrightarrow> unat sz mod 8 = 0"
proof -
  have "sz mod 8 = 0 \<longleftrightarrow> unat (sz mod 8) = 0" by (simp add: unat_eq_zero)
  then show ?thesis by (simp add: unat_mod_8)
qed

lemma padding_decreases:
  assumes "n mod 8 \<noteq> (0 :: nat)"
  shows "(8 - (n + 1) mod 8) mod 8 < (8 - n mod 8) mod 8"
proof -
  have "n mod 8 < 8" by simp
  with assms show ?thesis by (cases "n mod 8 = 7") (simp_all add: mod_Suc)
qed

text \<open>The padding loop of \<^verbatim>\<open>alloc\<close>: at most seven increments, wrap-around included.\<close>

function pad8 :: "u64 \<Rightarrow> u64" where
  "pad8 sz = (if sz mod 8 \<noteq> 0 then pad8 (sz + 1) else sz)"
  by pat_completeness auto

termination
proof (relation "measure (\<lambda>s. (8 - unat s mod 8) mod 8)")
  fix sz :: u64
  assume "sz mod 8 \<noteq> 0"
  then have "unat sz mod 8 \<noteq> 0" by (simp add: mod_8_zero_iff)
  then have "(8 - (unat sz + 1) mod 8) mod 8 < (8 - unat sz mod 8) mod 8"
    by (rule padding_decreases)
  then show "(sz + 1, sz) \<in> measure (\<lambda>s. (8 - unat s mod 8) mod 8)"
    by (simp add: unat_inc_mod_8)
qed simp

declare pad8.simps [simp del]

definition alloc :: "u64 \<Rightarrow> memory_pool \<Rightarrow> u64 \<times> memory_pool" where
  "alloc sz pool =
     (let ptr = blk_free (root pool); n = pad8 sz in
      if blk_end (root pool) < blk_free (root pool) + n then (0, pool)
      else (ptr, pool\<lparr>root := (root pool)\<lparr>blk_free := blk_free (root pool) + n\<rparr>,
                      mem_used := mem_used pool + n\<rparr>))"

text \<open>A sequence of calls of \<^verbatim>\<open>alloc\<close>, with the addresses it returns.\<close>

fun alloc_all :: "u64 list \<Rightarrow> memory_pool \<Rightarrow> u64 list \<times> memory_pool" where
  "alloc_all [] pool = ([], pool)"
| "alloc_all (n # ns) pool =
     (let (p, pool1) = alloc n pool; (ps, pool2) = alloc_all ns pool1 in (p # ps, pool2))"

section \<open>The invariant of the pool\<close>

definition pool_ok :: "memory_pool \<Rightarrow> bool" where
  "pool_ok p \<longleftrightarrow>
     unat (blk_mem (root p)) + unat (block_size p) < 2 ^ 64 \<and>
     unat (blk_end (root p)) = unat (blk_mem (root p)) + unat (block_size p) \<and>
     unat (blk_free (root p)) = unat (blk_mem (root p)) + unat (mem_used p) \<and>
     unat (mem_used p) \<le> unat (block_size p) \<and>
     unat (blk_mem (root p)) mod 8 = 0 \<and> unat (mem_used p) mod 8 = 0 \<and>
     blk_mem (root p) \<noteq> 0"

text \<open>\<open>round8 n\<close> is the least multiple of 8 that is at least \<open>n\<close>.\<close>

definition round8 :: "nat \<Rightarrow> nat" where
  "round8 n = 8 * ((n + 7) div 8)"

lemma round8_props: "n \<le> round8 n" "round8 n < n + 8" "round8 n mod 8 = 0"
  by (simp_all add: round8_def)

lemma round8_multiple: "n mod 8 = 0 \<Longrightarrow> round8 n = n"
  by (auto simp: round8_def mod_eq_0_iff_dvd elim!: dvdE)

lemma round8_Suc: "n mod 8 \<noteq> 0 \<Longrightarrow> round8 (Suc n) = round8 n"
proof -
  assume "n mod 8 \<noteq> 0"
  moreover have "Suc (n + 7) mod 8 = n mod 8"
    using mod_add_self2 [of n 8] by simp
  ultimately have "Suc (n + 7) div 8 = (n + 7) div 8"
    by (subst div_Suc) simp
  then show ?thesis by (simp add: round8_def)
qed

lemma unat_pad8: "unat sz + 7 < 2 ^ 64 \<Longrightarrow> unat (pad8 sz) = round8 (unat sz)"
proof (induction sz rule: pad8.induct)
  case (1 sz)
  show ?case
  proof (cases "sz mod 8 = 0")
    case True
    then have "unat sz mod 8 = 0" by (simp add: mod_8_zero_iff)
    with True show ?thesis by (simp add: pad8.simps [of sz] round8_multiple)
  next
    case False
    then have nz: "unat sz mod 8 \<noteq> 0" by (simp add: mod_8_zero_iff)
    have inc: "unat (sz + 1) = Suc (unat sz)"
      using "1.prems" by (simp add: unat_word_ariths)
    have "unat sz + 8 \<noteq> 2 ^ 64"
    proof
      assume "unat sz + 8 = 2 ^ 64"
      then have "(unat sz + 8) mod 8 = 0" by simp
      with nz show False by simp
    qed
    with inc "1.prems" have bound: "unat (sz + 1) + 7 < 2 ^ 64" by simp
    have "pad8 sz = pad8 (sz + 1)"
      using False by (simp add: pad8.simps [of sz])
    with "1.IH" [OF False bound] inc nz show ?thesis by (simp add: round8_Suc)
  qed
qed

lemma mem_pool_init_ok:
  assumes "malloc sz = a" "a \<noteq> 0" "unat a + unat sz < 2 ^ 64" "unat a mod 8 = 0"
  shows "\<exists>p'. mem_pool_init malloc sz p = (True, p') \<and> pool_ok p' \<and> mem_used p' = 0 \<and>
              blk_mem (root p') = a \<and> block_size p' = sz"
  using assms by (simp add: mem_pool_init_def init_block_def pool_ok_def unat_word_ariths)

lemma mem_pool_init_fail:
  "malloc sz = 0 \<Longrightarrow> fst (mem_pool_init malloc sz p) = False"
  by (simp add: mem_pool_init_def init_block_def Let_def)

text \<open>
  \<open>alloc\<close> against the arithmetic on natural numbers, for sizes whose sum with an address of
  the pool does not wrap around.
\<close>

lemma alloc_cases:
  assumes "pool_ok p" and small: "unat (blk_free (root p)) + unat sz + 7 < 2 ^ 64"
    and n: "n = round8 (unat sz)"
  shows "unat (mem_used p) + n \<le> unat (block_size p) \<Longrightarrow>
           \<exists>p'. alloc sz p = (blk_free (root p), p') \<and> pool_ok p' \<and>
                unat (mem_used p') = unat (mem_used p) + n \<and>
                unat (blk_free (root p')) = unat (blk_free (root p)) + n \<and>
                blk_mem (root p') = blk_mem (root p) \<and> block_size p' = block_size p"
    and "unat (block_size p) < unat (mem_used p) + n \<Longrightarrow> alloc sz p = (0, p)"
proof -
  let ?m = "pad8 sz"
  have m: "unat ?m = n" using n small by (simp add: unat_pad8)
  have nlt: "n < unat sz + 8" unfolding n by (rule round8_props)
  have free: "unat (blk_free (root p) + ?m) = unat (blk_free (root p)) + n"
    using nlt small m by (simp add: unat_word_ariths)
  have guard: "blk_end (root p) < blk_free (root p) + ?m \<longleftrightarrow>
               unat (block_size p) < unat (mem_used p) + n"
    using assms(1) free by (auto simp: word_less_nat_alt pool_ok_def)
  show "alloc sz p = (0, p)" if "unat (block_size p) < unat (mem_used p) + n"
    using that guard by (simp add: alloc_def Let_def)
  show "\<exists>p'. alloc sz p = (blk_free (root p), p') \<and> pool_ok p' \<and>
                unat (mem_used p') = unat (mem_used p) + n \<and>
                unat (blk_free (root p')) = unat (blk_free (root p)) + n \<and>
                blk_mem (root p') = blk_mem (root p) \<and> block_size p' = block_size p"
    if fits: "unat (mem_used p) + n \<le> unat (block_size p)"
  proof -
    have used: "unat (mem_used p + ?m) = unat (mem_used p) + n"
      using fits m assms(1) by (simp add: unat_word_ariths pool_ok_def)
    have "n mod 8 = 0" unfolding n by (rule round8_props)
    then have "(unat (mem_used p) + n) mod 8 = 0"
      using assms(1) by (simp add: pool_ok_def mod_eq_0_iff_dvd)
    then show ?thesis
      using that guard used free assms(1) by (simp add: alloc_def pool_ok_def Let_def)
  qed
qed


lemma alloc_step:
  assumes ok: "pool_ok p" and small: "unat (blk_end (root p)) + unat sz + 7 < 2 ^ 64"
    and eq: "alloc sz p = (a, p')"
  shows "pool_ok p'" "blk_mem (root p') = blk_mem (root p)" "blk_end (root p') = blk_end (root p)"
    "unat (blk_free (root p)) \<le> unat (blk_free (root p'))"
    "a \<noteq> 0 \<Longrightarrow> a = blk_free (root p) \<and> unat a mod 8 = 0 \<and>
        unat a + unat sz \<le> unat (blk_free (root p')) \<and> unat a + unat sz \<le> unat (blk_end (root p'))"
proof -
  have free: "unat (blk_free (root p)) \<le> unat (blk_end (root p))"
    using ok by (simp add: pool_ok_def)
  with small have s: "unat (blk_free (root p)) + unat sz + 7 < 2 ^ 64" by simp
  have aligned: "unat (blk_free (root p)) mod 8 = 0"
    using ok by (simp add: pool_ok_def mod_eq_0_iff_dvd)
  have "pool_ok p' \<and> blk_mem (root p') = blk_mem (root p) \<and> blk_end (root p') = blk_end (root p) \<and>
    unat (blk_free (root p)) \<le> unat (blk_free (root p')) \<and>
    (a \<noteq> 0 \<longrightarrow> a = blk_free (root p) \<and> unat a + unat sz \<le> unat (blk_free (root p')) \<and>
      unat a + unat sz \<le> unat (blk_end (root p')))"
  proof (cases "unat (mem_used p) + round8 (unat sz) \<le> unat (block_size p)")
    case True
    from alloc_cases(1) [OF ok s refl True] eq
    have *: "a = blk_free (root p)" "pool_ok p'"
      "unat (mem_used p') = unat (mem_used p) + round8 (unat sz)"
      "unat (blk_free (root p')) = unat (blk_free (root p)) + round8 (unat sz)"
      "blk_mem (root p') = blk_mem (root p)" "block_size p' = block_size p"
      by auto
    moreover have "blk_end (root p') = blk_end (root p)"
      using eq by (simp add: alloc_def Let_def split: if_splits) (metis memory_pool.select_convs(1)
          memory_pool.surjective memory_pool.update_convs(1,3) block.select_convs(4) block.surjective
          block.update_convs(3))+
    moreover have "unat sz \<le> round8 (unat sz)" by (rule round8_props)
    ultimately show ?thesis using ok by (simp add: pool_ok_def)
  next
    case False
    with alloc_cases(2) [OF ok s refl] eq show ?thesis using ok by simp
  qed
  then show "pool_ok p'" "blk_mem (root p') = blk_mem (root p)" "blk_end (root p') = blk_end (root p)"
    "unat (blk_free (root p)) \<le> unat (blk_free (root p'))"
    "a \<noteq> 0 \<Longrightarrow> a = blk_free (root p) \<and> unat a mod 8 = 0 \<and>
        unat a + unat sz \<le> unat (blk_free (root p')) \<and> unat a + unat sz \<le> unat (blk_end (root p'))"
    using aligned by auto
qed

text \<open>
  \<open>blocks_from lo hi ns ps\<close>: the non-NULL addresses in \<open>ps\<close> start blocks of the sizes in \<open>ns\<close>
  that lie one after another between \<open>lo\<close> and \<open>hi\<close>, each aligned to 8 bytes.
\<close>

fun blocks_from :: "nat \<Rightarrow> nat \<Rightarrow> u64 list \<Rightarrow> u64 list \<Rightarrow> bool" where
  "blocks_from lo hi [] [] = (lo \<le> hi)"
| "blocks_from lo hi (n # ns) (p # ps) =
     (if p = 0 then blocks_from lo hi ns ps
      else lo \<le> unat p \<and> unat p mod 8 = 0 \<and> blocks_from (unat p + unat n) hi ns ps)"
| "blocks_from lo hi _ _ = False"

lemma blocks_from_mono: "blocks_from lo hi ns ps \<Longrightarrow> lo' \<le> lo \<Longrightarrow> blocks_from lo' hi ns ps"
  by (induction lo hi ns ps arbitrary: lo' rule: blocks_from.induct) (auto split: if_splits)

lemma blocks_from_disjoint:
  "blocks_from lo hi ns ps \<Longrightarrow> i < j \<Longrightarrow> j < length ps \<Longrightarrow> ps ! i \<noteq> 0 \<Longrightarrow> ps ! j \<noteq> 0 \<Longrightarrow>
     lo \<le> unat (ps ! i) \<and> unat (ps ! i) + unat (ns ! i) \<le> unat (ps ! j)"
proof (induction lo hi ns ps arbitrary: i j rule: blocks_from.induct)
  case (2 lo hi n ns p ps)
  then obtain j' where j': "j = Suc j'" by (cases j) auto
  have first: "blocks_from l hi ns ps \<Longrightarrow> j' < length ps \<Longrightarrow> ps ! j' \<noteq> 0 \<Longrightarrow> l \<le> unat (ps ! j')" for l
    by (induction l hi ns ps arbitrary: j' rule: blocks_from.induct)
      (auto simp: nth_Cons split: if_splits nat.splits, meson add_leD1 order_trans)
  show ?case
  proof (cases i)
    case 0
    with "2.prems" j' first [of "unat p + unat n"] show ?thesis by auto
  next
    case (Suc i')
    with "2.prems" j' "2.IH" [of i' j'] show ?thesis
      by (auto split: if_splits)
  qed
qed auto

lemma alloc_all_blocks:
  assumes "pool_ok p" "\<forall>n \<in> set ns. unat (blk_end (root p)) + unat n + 7 < 2 ^ 64"
    "alloc_all ns p = (ps, p')"
  shows "pool_ok p' \<and> blk_end (root p') = blk_end (root p) \<and> block_size p' = block_size p \<and>
    blocks_from (unat (blk_free (root p))) (unat (blk_end (root p))) ns ps"
  using assms
proof (induction ns arbitrary: p ps p')
  case Nil
  then show ?case by (simp add: pool_ok_def)
next
  case (Cons n ns)
  obtain a p1 where a: "alloc n p = (a, p1)" by force
  obtain qs p2 where qs: "alloc_all ns p1 = (qs, p2)" by force
  from Cons.prems have small: "unat (blk_end (root p)) + unat n + 7 < 2 ^ 64" by simp
  note step = alloc_step [OF Cons.prems(1) small a]
  have size: "block_size p1 = block_size p" using a by (auto simp: alloc_def Let_def split: if_splits)
  have IH: "pool_ok p2 \<and> blk_end (root p2) = blk_end (root p1) \<and> block_size p2 = block_size p1 \<and>
    blocks_from (unat (blk_free (root p1))) (unat (blk_end (root p1))) ns qs"
    using Cons.IH [OF step(1) _ qs] Cons.prems(2) step(3) by simp
  with a qs step size Cons.prems(3) show ?case
    by (auto simp del: One_nat_def) (erule blocks_from_mono, simp)+
qed


text \<open>The same blocks by index, and which calls fail.\<close>

lemma alloc_all_length: "length (fst (alloc_all ns p)) = length ns"
  by (induction ns arbitrary: p) (auto split: prod.splits, metis fst_conv)

lemma blocks_from_nth:
  "blocks_from lo hi ns ps \<Longrightarrow> i < length ps \<Longrightarrow> ps ! i \<noteq> 0 \<Longrightarrow>
     lo \<le> unat (ps ! i) \<and> unat (ps ! i) mod 8 = 0 \<and> unat (ps ! i) + unat (ns ! i) \<le> hi"
proof (induction lo hi ns ps arbitrary: i rule: blocks_from.induct)
  case (2 lo hi n ns p ps)
  have upper: "blocks_from l h ms qs \<Longrightarrow> l \<le> h" for l h ms qs
    by (induction l h ms qs rule: blocks_from.induct) (auto split: if_splits)
  show ?case
  proof (cases i)
    case 0
    with "2.prems" upper [of "unat p + unat n" hi ns ps] show ?thesis by auto
  next
    case (Suc j)
    with "2.prems" "2.IH" [of j] show ?thesis by (auto split: if_splits)
  qed
qed auto

lemma alloc_all_nth:
  "i < length ns \<Longrightarrow> fst (alloc_all ns p) ! i = fst (alloc (ns ! i) (snd (alloc_all (take i ns) p)))"
  by (induction ns arbitrary: p i) (auto simp: nth_Cons split: prod.splits nat.splits, metis fst_conv snd_conv)

lemma alloc_null:
  assumes "pool_ok p" "unat (blk_end (root p)) + unat sz + 7 < 2 ^ 64"
  shows "fst (alloc sz p) = 0 \<longleftrightarrow> unat (block_size p) < unat (mem_used p) + round8 (unat sz)"
proof -
  have s: "unat (blk_free (root p)) + unat sz + 7 < 2 ^ 64" "blk_free (root p) \<noteq> 0"
    using assms by (auto simp: pool_ok_def unat_eq_zero)
  show ?thesis
  proof (cases "unat (block_size p) < unat (mem_used p) + round8 (unat sz)")
    case True
    with alloc_cases(2) [OF assms(1) s(1) refl] show ?thesis by simp
  next
    case False
    with alloc_cases(1) [OF assms(1) s(1) refl] s(2) show ?thesis by auto
  qed
qed

section \<open>Properties\<close>

text \<open>
  C29: any sequence of calls of \<^verbatim>\<open>alloc\<close> on an initialised pool, with sizes that do not wrap
  around the address space when they are added to the end of the pool: each block handed out is
  aligned to 8 bytes and lies between the start and the end of the pool, a later block starts
  behind an earlier one, and a call returns NULL exactly when its size, rounded up to a multiple
  of 8, does not fit behind what the calls before it have used.
\<close>

theorem alloc_all_disjoint:
  assumes "pool_ok p" "\<forall>n \<in> set ns. unat (blk_end (root p)) + unat n + 7 < 2 ^ 64"
    and "alloc_all ns p = (ps, p')"
  shows "pool_ok p' \<and> length ps = length ns \<and>
    (\<forall>i < length ps. ps ! i \<noteq> 0 \<longrightarrow> unat (ps ! i) mod 8 = 0 \<and> unat (blk_mem (root p)) \<le> unat (ps ! i) \<and>
       unat (ps ! i) + unat (ns ! i) \<le> unat (blk_mem (root p)) + unat (block_size p)) \<and>
    (\<forall>j < length ps. \<forall>i < j. ps ! i \<noteq> 0 \<longrightarrow> ps ! j \<noteq> 0 \<longrightarrow> unat (ps ! i) + unat (ns ! i) \<le> unat (ps ! j)) \<and>
    (\<forall>i < length ps. ps ! i = 0 \<longleftrightarrow>
       unat (block_size p) < unat (mem_used (snd (alloc_all (take i ns) p))) + round8 (unat (ns ! i)))"
proof (intro conjI allI impI)
  from alloc_all_blocks [OF assms] show "pool_ok p'" by simp
  have b: "blocks_from (unat (blk_free (root p))) (unat (blk_end (root p))) ns ps"
    using alloc_all_blocks [OF assms] by simp
  have p: "unat (blk_mem (root p)) \<le> unat (blk_free (root p))"
    "unat (blk_end (root p)) = unat (blk_mem (root p)) + unat (block_size p)"
    using assms(1) by (simp_all add: pool_ok_def)
  show len: "length ps = length ns" using alloc_all_length [of ns p] assms(3) by simp
  fix i assume i: "i < length ps"
  { assume "ps ! i \<noteq> 0"
    with blocks_from_nth [OF b i] p show "unat (ps ! i) mod 8 = 0" "unat (blk_mem (root p)) \<le> unat (ps ! i)"
      "unat (ps ! i) + unat (ns ! i) \<le> unat (blk_mem (root p)) + unat (block_size p)" by auto }
  let ?q = "snd (alloc_all (take i ns) p)"
  have "\<forall>n \<in> set (take i ns). unat (blk_end (root p)) + unat n + 7 < 2 ^ 64" using assms(2) by (auto dest: in_set_takeD)
  from alloc_all_blocks [OF assms(1) this prod.collapse [symmetric]] have q: "pool_ok ?q" "blk_end (root ?q) = blk_end (root p)" "block_size ?q = block_size p"
    by simp_all
  have "unat (blk_end (root ?q)) + unat (ns ! i) + 7 < 2 ^ 64" using assms(2) i len q(2) by simp
  from alloc_null [OF q(1) this] show "(ps ! i = 0) = (unat (block_size p) < unat (mem_used ?q) + round8 (unat (ns ! i)))"
    using alloc_all_nth [of i ns p] i len assms(3) q(3) by simp
qed (use blocks_from_disjoint alloc_all_blocks [OF assms] in blast)

definition example_pool :: memory_pool where
  "example_pool = \<lparr>root = \<lparr>blk_next = 0, blk_mem = 4096, blk_free = 4096, blk_end = 4128\<rparr>,
                   block_size = 32, mem_used = 0\<rparr>"

lemma example_pool_run:
  "pool_ok example_pool"
  "fst (alloc_all [10, 24, 9] example_pool) = [4096, 0, 4112]"
  by (simp_all add: example_pool_def pool_ok_def alloc_def pad8.simps Let_def)

theorem alloc_all_disjoint_witness:
  "\<exists>p'. alloc_all [10, 24, 9] example_pool = ([4096, 0, 4112], p') \<and> pool_ok p' \<and>
     unat (4096 :: u64) + unat (10 :: u64) \<le> unat (4112 :: u64) \<and>
     unat (4112 :: u64) + unat (9 :: u64) \<le> unat (blk_mem (root example_pool)) + unat (block_size example_pool) \<and>
     unat (block_size example_pool) < unat (mem_used (snd (alloc_all [10] example_pool))) + round8 (unat (24 :: u64))"
proof -
  obtain p' where run: "alloc_all [10, 24, 9] example_pool = ([4096, 0, 4112], p')"
    using example_pool_run(2) by (metis prod.collapse)
  have small: "\<forall>n \<in> set [10, 24, 9 :: u64]. unat (blk_end (root example_pool)) + unat n + 7 < 2 ^ 64"
    by (simp add: example_pool_def)
  note all = alloc_all_disjoint [OF example_pool_run(1) small run]
  note inside = all [THEN conjunct2, THEN conjunct2, THEN conjunct1, rule_format, of 2]
  note apart = all [THEN conjunct2, THEN conjunct2, THEN conjunct2, THEN conjunct1, rule_format, of 2 0]
  note null = all [THEN conjunct2, THEN conjunct2, THEN conjunct2, THEN conjunct2, rule_format, of 1]
  show ?thesis
    using all [THEN conjunct1] inside apart null run by (simp del: alloc_all.simps)
qed

text \<open>
  The bound check of \<^verbatim>\<open>alloc\<close> is computed modulo \<open>2^64\<close>: a request of \<open>2^64 - 8\<close> bytes
  on a pool in use is granted, and moves the free pointer backwards over the last block.
\<close>

theorem alloc_wraps_around:
  assumes "pool_ok p" "8 \<le> unat (mem_used p)"
  shows "\<exists>p'. alloc (- 8) p = (blk_free (root p), p') \<and>
              unat (blk_free (root p')) + 8 = unat (blk_free (root p))"
proof -
  have pad: "pad8 (- 8) = - 8"
    by (simp add: pad8.simps mod_8_zero_iff)
  have le: "8 \<le> blk_free (root p)"
    using assms by (simp add: pool_ok_def word_le_nat_alt)
  then have minus: "unat (blk_free (root p) - 8) = unat (blk_free (root p)) - 8"
    by (simp add: unat_sub word_le_nat_alt)
  have "\<not> blk_end (root p) < blk_free (root p) - 8"
    unfolding word_less_nat_alt minus using assms unfolding pool_ok_def by linarith
  then show ?thesis
    using pad minus le by (simp add: alloc_def Let_def word_le_nat_alt)
qed

theorem alloc_wraps_around_witness:
  "\<exists>p'. alloc (- 8) (snd (alloc 16 example_pool)) = (4112, p') \<and> unat (blk_free (root p')) + 8 = 4112"
  using alloc_wraps_around [of "snd (alloc 16 example_pool)"]
  by (simp add: example_pool_def pool_ok_def alloc_def pad8.simps Let_def)

end
