(* ===== verification/Packet.thy ===== *)
theory Packet
  imports Qs_Prelude
begin

text \<open>
  The wire format of \<^verbatim>\<open>shared/config.h\<close> and \<^verbatim>\<open>shared/msg.h\<close>: a packet is the byte image of
  the packed struct \<^verbatim>\<open>Packet\<close>, \<^verbatim>\<open>PACKET_MAX_SIZE\<close> bytes long, and every field of the union
  \<^verbatim>\<open>d\<close> is read and written at its byte offset (little-endian), so that the views of the union
  overlap as they do in C. Also \<^verbatim>\<open>safe_strcpy\<close> of \<^verbatim>\<open>shared/util/util.c\<close>.
\<close>

section \<open>Configuration\<close>

abbreviation PACKET_MAX_SIZE :: nat where "PACKET_MAX_SIZE \<equiv> 1440"
abbreviation PC_NAME_MAX_LEN :: nat where "PC_NAME_MAX_LEN \<equiv> 16"
abbreviation SESSION_ID_MAX_LEN :: nat where "SESSION_ID_MAX_LEN \<equiv> 16"
abbreviation CLIENT_LIST_LEN :: nat where "CLIENT_LIST_LEN \<equiv> 32"
abbreviation FILE_NAME_LEN :: nat where "FILE_NAME_LEN \<equiv> 64"
abbreviation TRANSFER_CLIENTS_MAX :: nat where "TRANSFER_CLIENTS_MAX \<equiv> 6"
abbreviation MEM_POOL_SIZE :: u64 where "MEM_POOL_SIZE \<equiv> 1048576"

type_synonym packet = bytes
type_synonym client_id = u64
type_synonym transfer_id = u64
type_synonym session_id = u64

section \<open>Packet types\<close>

definition P_SERVER_OK :: u32 where [simp]: "P_SERVER_OK = 0"
definition P_SERVER_DENY :: u32 where [simp]: "P_SERVER_DENY = 1"
definition P_CLIENT_INTRO :: u32 where [simp]: "P_CLIENT_INTRO = 2"
definition P_SERVER_NEW_USERS :: u32 where [simp]: "P_SERVER_NEW_USERS = 3"
definition P_SERVER_DEL_USERS :: u32 where [simp]: "P_SERVER_DEL_USERS = 4"
definition P_TRANSFER_VALID :: u32 where [simp]: "P_TRANSFER_VALID = 5"
definition P_TRANSFER_INVALID :: u32 where [simp]: "P_TRANSFER_INVALID = 6"
definition P_TRANSFER_REQUEST :: u32 where [simp]: "P_TRANSFER_REQUEST = 7"
definition P_TRANSFER_REPLY :: u32 where [simp]: "P_TRANSFER_REPLY = 8"
definition P_TRANSFER_DATA :: u32 where [simp]: "P_TRANSFER_DATA = 9"
definition P_TRANSFER_CANCEL :: u32 where [simp]: "P_TRANSFER_CANCEL = 10"
definition P_TRANSFER_COMPLETE :: u32 where [simp]: "P_TRANSFER_COMPLETE = 11"

section \<open>Sizes of the structs\<close>

abbreviation sizeof_Packet_Hdr :: nat where "sizeof_Packet_Hdr \<equiv> 8"
abbreviation sizeof_Transfer_Hdr :: nat where "sizeof_Transfer_Hdr \<equiv> 64"
abbreviation sizeof_intro :: nat where "sizeof_intro \<equiv> 40"
abbreviation sizeof_new_users :: nat where "sizeof_new_users \<equiv> 769"
abbreviation sizeof_del_user :: nat where "sizeof_del_user \<equiv> 24"
abbreviation sizeof_request :: nat where "sizeof_request \<equiv> 144"
abbreviation sizeof_transfer_data :: nat where "sizeof_transfer_data \<equiv> 1432"
abbreviation sizeof_transfer_reply :: nat where "sizeof_transfer_reply \<equiv> 65"
abbreviation sizeof_transfer_state :: nat where "sizeof_transfer_state \<equiv> 64"

text \<open>The static assertion of \<^verbatim>\<open>msg.h\<close>: the header and the largest member fill a packet.\<close>

lemma packet_size_assert:
  "sizeof_Packet_Hdr + Max {sizeof_intro, sizeof_new_users, sizeof_del_user, sizeof_request,
     sizeof_transfer_data, sizeof_transfer_reply, sizeof_transfer_state} = PACKET_MAX_SIZE"
  by simp

definition zero_packet :: packet where
  "zero_packet = replicate PACKET_MAX_SIZE 0"

lemma length_zero_packet [simp]: "length zero_packet = 1440"
  by (simp add: zero_packet_def)

section \<open>Fields\<close>

text \<open>Header: \<^verbatim>\<open>hdr.type\<close>, \<^verbatim>\<open>hdr.size\<close> and the macro \<^verbatim>\<open>PACKET_HDR\<close>.\<close>

definition hdr_type :: "packet \<Rightarrow> u32" where "hdr_type p = get_u32 0 p"
definition hdr_size :: "packet \<Rightarrow> u32" where "hdr_size p = get_u32 4 p"

definition PACKET_HDR :: "u32 \<Rightarrow> nat \<Rightarrow> packet \<Rightarrow> packet" where
  "PACKET_HDR ptype psize p = put_u32 4 (of_nat psize) (put_u32 0 ptype p)"

text \<open>\<^verbatim>\<open>d.intro\<close>\<close>

definition intro_name :: "packet \<Rightarrow> bytes" where "intro_name p = get_bytes 8 PC_NAME_MAX_LEN p"
definition intro_id :: "packet \<Rightarrow> bytes" where "intro_id p = get_bytes 24 SESSION_ID_MAX_LEN p"
definition intro_session :: "packet \<Rightarrow> u64" where "intro_session p = get_u64 40 p"

text \<open>\<^verbatim>\<open>d.new_users\<close>\<close>

definition nu_name :: "nat \<Rightarrow> packet \<Rightarrow> bytes" where
  "nu_name i p = get_bytes (8 + PC_NAME_MAX_LEN * i) PC_NAME_MAX_LEN p"
definition set_nu_name :: "nat \<Rightarrow> bytes \<Rightarrow> packet \<Rightarrow> packet" where
  "set_nu_name i nm p = put_bytes (8 + PC_NAME_MAX_LEN * i) nm p"
definition nu_id :: "nat \<Rightarrow> packet \<Rightarrow> client_id" where "nu_id i p = get_u64 (520 + 8 * i) p"
definition set_nu_id :: "nat \<Rightarrow> client_id \<Rightarrow> packet \<Rightarrow> packet" where
  "set_nu_id i v p = put_u64 (520 + 8 * i) v p"
definition nu_users_len :: "packet \<Rightarrow> u8" where "nu_users_len p = get_u8 776 p"
definition set_nu_users_len :: "u8 \<Rightarrow> packet \<Rightarrow> packet" where "set_nu_users_len v p = put_u8 776 v p"

text \<open>\<^verbatim>\<open>d.del_user\<close>\<close>

definition du_name :: "packet \<Rightarrow> bytes" where "du_name p = get_bytes 8 PC_NAME_MAX_LEN p"
definition set_du_name :: "bytes \<Rightarrow> packet \<Rightarrow> packet" where "set_du_name nm p = put_bytes 8 nm p"
definition du_id :: "packet \<Rightarrow> client_id" where "du_id p = get_u64 24 p"
definition set_du_id :: "client_id \<Rightarrow> packet \<Rightarrow> packet" where "set_du_id v p = put_u64 24 v p"

text \<open>
  \<^verbatim>\<open>Transfer_Hdr\<close> starts \<^verbatim>\<open>d.request\<close>, \<^verbatim>\<open>d.transfer_reply\<close> and \<^verbatim>\<open>d.transfer_state\<close>.
\<close>

definition th_t_id :: "packet \<Rightarrow> transfer_id" where "th_t_id p = get_u64 8 p"
definition set_th_t_id :: "transfer_id \<Rightarrow> packet \<Rightarrow> packet" where "set_th_t_id v p = put_u64 8 v p"
definition th_from :: "packet \<Rightarrow> client_id" where "th_from p = get_u64 16 p"
definition set_th_from :: "client_id \<Rightarrow> packet \<Rightarrow> packet" where "set_th_from v p = put_u64 16 v p"
definition th_to :: "nat \<Rightarrow> packet \<Rightarrow> client_id" where "th_to i p = get_u64 (24 + 8 * i) p"

text \<open>The other fields of \<^verbatim>\<open>d.request\<close>, of \<^verbatim>\<open>d.transfer_data\<close> and of \<^verbatim>\<open>d.transfer_reply\<close>.\<close>

definition rq_client_transfer_id :: "packet \<Rightarrow> transfer_id" where
  "rq_client_transfer_id p = get_u64 72 p"
definition rq_file_name :: "packet \<Rightarrow> bytes" where "rq_file_name p = get_bytes 80 FILE_NAME_LEN p"
definition rq_file_size :: "packet \<Rightarrow> u64" where "rq_file_size p = get_u64 144 p"
definition td_t_id :: "packet \<Rightarrow> transfer_id" where "td_t_id p = get_u64 8 p"
definition td_b_size :: "packet \<Rightarrow> u64" where "td_b_size p = get_u64 16 p"
definition tr_accept :: "packet \<Rightarrow> u8" where "tr_accept p = get_u8 72 p"

lemmas packet_field_defs =
  hdr_type_def hdr_size_def PACKET_HDR_def intro_name_def intro_id_def intro_session_def
  nu_name_def set_nu_name_def nu_id_def set_nu_id_def nu_users_len_def set_nu_users_len_def
  du_name_def set_du_name_def du_id_def set_du_id_def
  th_t_id_def set_th_t_id_def th_from_def set_th_from_def th_to_def
  rq_client_transfer_id_def rq_file_name_def rq_file_size_def td_t_id_def td_b_size_def tr_accept_def

text \<open>The writers keep the length of a packet.\<close>

lemma packet_lengths [simp]:
  assumes "length p = PACKET_MAX_SIZE"
  shows "length (PACKET_HDR ty n p) = PACKET_MAX_SIZE"
    "length (set_th_t_id v p) = PACKET_MAX_SIZE" "length (set_th_from v p) = PACKET_MAX_SIZE"
    "length (set_du_id v p) = PACKET_MAX_SIZE" "length (set_nu_users_len b p) = PACKET_MAX_SIZE"
    "length nm = PC_NAME_MAX_LEN \<Longrightarrow> length (set_du_name nm p) = PACKET_MAX_SIZE"
    "i < CLIENT_LIST_LEN \<Longrightarrow> length nm = PC_NAME_MAX_LEN \<Longrightarrow> length (set_nu_name i nm p) = PACKET_MAX_SIZE"
    "i < CLIENT_LIST_LEN \<Longrightarrow> length (set_nu_id i v p) = PACKET_MAX_SIZE"
  using assms by (simp_all add: packet_field_defs byte_simps)

lemma hdr_PACKET_HDR [simp]:
  "length p = PACKET_MAX_SIZE \<Longrightarrow> hdr_type (PACKET_HDR ty n p) = ty"
  "length p = PACKET_MAX_SIZE \<Longrightarrow> hdr_size (PACKET_HDR ty n p) = of_nat n"
  by (simp_all add: packet_field_defs byte_simps)

text \<open>
  The transfer id is the first field of \<^verbatim>\<open>Transfer_Hdr\<close> and of \<^verbatim>\<open>Transfer_Data\<close>: the handlers
  of DATA and COMPLETE packets read the same bytes that a sender writes through the other view.
\<close>

lemma td_t_id_alias: "td_t_id p = th_t_id p"
  by (simp add: td_t_id_def th_t_id_def)

section \<open>C strings\<close>

definition cstr :: "bytes \<Rightarrow> bytes" where
  "cstr bs = takeWhile (\<lambda>b. b \<noteq> 0) bs"

text \<open>\<^verbatim>\<open>safe_strcpy(dest, src, size)\<close>: copies \<^verbatim>\<open>size\<close> bytes and overwrites the last with NUL.\<close>

definition safe_strcpy :: "bytes \<Rightarrow> bytes \<Rightarrow> nat \<Rightarrow> fault + bytes" where
  "safe_strcpy dest src n =
     (if n = 0 \<or> length src < n \<or> length dest < n then Inl Undefined
      else Inr ((put_bytes 0 (take n src) dest)[n - 1 := 0]))"

text \<open>
  \<^verbatim>\<open>safe_strcpy\<close>, where it stays inside its two buffers, leaves in the destination a C
  string shorter than \<^verbatim>\<open>size\<close>, equal to the source string cut at \<^verbatim>\<open>size - 1\<close> bytes, and does
  not touch the bytes after \<^verbatim>\<open>size\<close>.
\<close>

theorem safe_strcpy_spec:
  assumes "0 < n" "n \<le> length src" "n \<le> length dest"
  shows "\<exists>d. safe_strcpy dest src n = Inr d \<and> length d = length dest \<and>
    cstr d = take (n - 1) (cstr src) \<and> drop n d = drop n dest"
proof -
  let ?d = "(put_bytes 0 (take n src) dest)[n - 1 := 0]"
  obtain m where m: "n = Suc m" using assms(1) by (cases n) auto
  have "?d = take m src @ 0 # drop n dest"
    using assms m by (simp add: put_bytes_def min_def list_update_append take_Suc_conv_app_nth)
  moreover have "takeWhile (\<lambda>b. b \<noteq> 0) (take m src @ 0 # xs) = take m (takeWhile (\<lambda>b. b \<noteq> 0) src)"
    for xs :: bytes
  proof (induction src arbitrary: m)
    case (Cons a src)
    then show ?case by (cases m) simp_all
  qed simp
  ultimately show ?thesis
    using assms m by (simp add: safe_strcpy_def cstr_def min_def)
qed

theorem safe_strcpy_spec_witness:
  "\<exists>d. safe_strcpy [9, 9, 9, 9] [65, 66, 67] 3 = Inr d \<and> cstr d = [65, 66] \<and> drop 3 d = [9]"
  using safe_strcpy_spec [of 3 "[65, 66, 67]" "[9, 9, 9, 9]"] by (auto simp: cstr_def)

end
