(* ===== verification/Queue.thy ===== *)
theory Queue
  imports Mem_Pool Packet
begin

unbundle bit_operations_syntax

text \<open>
  The ring buffer of \<^verbatim>\<open>qs_server/src/queue.c\<close>, which holds the packets to be sent to one
  client. The array at \<^verbatim>\<open>items\<close> is kept as the list of its elements of \<^verbatim>\<open>size\<close> bytes; the
  pointers the operations return are element indices. The counters are C \<^verbatim>\<open>int\<close>s; the invariant
  keeps them below the length of the array. The interface \<open>fifo\<close> states what a bounded
  queue with in-place access promises; the ring buffer implements it.
\<close>

section \<open>The abstract bounded queue\<close>

datatype 'a qop = Send 'a | Recv

fun list_step :: "nat \<Rightarrow> 'a qop \<Rightarrow> 'a list \<Rightarrow> 'a option \<times> 'a list" where
  "list_step n (Send x) xs = (if length xs = n then (None, xs) else (Some x, xs @ [x]))"
| "list_step n Recv xs = (case xs of [] \<Rightarrow> (None, []) | y # ys \<Rightarrow> (Some y, ys))"

fun list_run :: "nat \<Rightarrow> 'a qop list \<Rightarrow> 'a list \<Rightarrow> 'a option list \<times> 'a list" where
  "list_run n [] xs = ([], xs)"
| "list_run n (a # as) xs =
     (let (r, ys) = list_step n a xs; (rs, zs) = list_run n as ys in (r # rs, zs))"

text \<open>
  The same script on an implementation that hands out element positions: a producer reserves
  a position and stores through it, a consumer reads the position it is given.
\<close>

fun slot_step :: "('q \<Rightarrow> nat option \<times> 'q) \<Rightarrow> ('q \<Rightarrow> nat option \<times> 'q) \<Rightarrow>
    (nat \<Rightarrow> 'a \<Rightarrow> 'q \<Rightarrow> 'q) \<Rightarrow> (nat \<Rightarrow> 'q \<Rightarrow> 'a) \<Rightarrow> 'a qop \<Rightarrow> 'q \<Rightarrow> 'a option \<times> 'q" where
  "slot_step enq deq put get (Send x) q =
     (case enq q of (None, q1) \<Rightarrow> (None, q1) | (Some i, q1) \<Rightarrow> (Some x, put i x q1))"
| "slot_step enq deq put get Recv q =
     (case deq q of (None, q1) \<Rightarrow> (None, q1) | (Some i, q1) \<Rightarrow> (Some (get i q1), q1))"

fun slot_run :: "('q \<Rightarrow> nat option \<times> 'q) \<Rightarrow> ('q \<Rightarrow> nat option \<times> 'q) \<Rightarrow>
    (nat \<Rightarrow> 'a \<Rightarrow> 'q \<Rightarrow> 'q) \<Rightarrow> (nat \<Rightarrow> 'q \<Rightarrow> 'a) \<Rightarrow> 'a qop list \<Rightarrow> 'q \<Rightarrow> 'a option list \<times> 'q" where
  "slot_run enq deq put get [] q = ([], q)"
| "slot_run enq deq put get (a # as) q =
     (let (r, q1) = slot_step enq deq put get a q; (rs, q2) = slot_run enq deq put get as q1
      in (r # rs, q2))"

fun sends :: "'a qop list \<Rightarrow> 'a set" where
  "sends [] = {}"
| "sends (Send x # as) = insert x (sends as)"
| "sends (Recv # as) = sends as"

locale fifo =
  fixes enq deq :: "'q \<Rightarrow> nat option \<times> 'q"
    and put :: "nat \<Rightarrow> 'a \<Rightarrow> 'q \<Rightarrow> 'q"
    and get :: "nat \<Rightarrow> 'q \<Rightarrow> 'a"
    and elems :: "'q \<Rightarrow> 'a list"
    and ok :: "'q \<Rightarrow> bool"
    and fits :: "'a \<Rightarrow> bool"
    and room :: nat
  assumes bounded: "ok q \<Longrightarrow> length (elems q) \<le> room"
    and enq_full: "ok q \<Longrightarrow> length (elems q) = room \<Longrightarrow> enq q = (None, q)"
    and enq_slot: "ok q \<Longrightarrow> length (elems q) < room \<Longrightarrow> \<exists>i q1. enq q = (Some i, q1) \<and>
           (\<forall>x. fits x \<longrightarrow> ok (put i x q1) \<and> elems (put i x q1) = elems q @ [x])"
    and deq_empty: "ok q \<Longrightarrow> elems q = [] \<Longrightarrow> deq q = (None, q)"
    and deq_slot: "ok q \<Longrightarrow> elems q = x # xs \<Longrightarrow> \<exists>i q1. deq q = (Some i, q1) \<and>
           ok q1 \<and> elems q1 = xs \<and> get i q1 = x"
begin

lemma step_simulates:
  assumes "ok q" "\<forall>x \<in> sends [a]. fits x" "slot_step enq deq put get a q = (r, q1)"
  shows "ok q1 \<and> list_step room a (elems q) = (r, elems q1)"
proof (cases a)
  case (Send x)
  show ?thesis
  proof (cases "length (elems q) = room")
    case True
    with Send enq_full [OF assms(1)] assms show ?thesis by auto
  next
    case False
    with bounded [OF assms(1)] have "length (elems q) < room" by simp
    from enq_slot [OF assms(1) this] Send assms False show ?thesis by auto
  qed
next
  case Recv
  show ?thesis
  proof (cases "elems q")
    case Nil
    with Recv deq_empty [OF assms(1)] assms show ?thesis by auto
  next
    case (Cons y ys)
    from deq_slot [OF assms(1) Cons] Recv assms(3) Cons show ?thesis by auto
  qed
qed

lemma run_simulates:
  "ok q \<Longrightarrow> \<forall>x \<in> sends as. fits x \<Longrightarrow> slot_run enq deq put get as q = (rs, q1) \<Longrightarrow>
     ok q1 \<and> list_run room as (elems q) = (rs, elems q1)"
proof (induction as arbitrary: q rs)
  case Nil
  then show ?case by simp
next
  case (Cons a as)
  obtain r q2 where s: "slot_step enq deq put get a q = (r, q2)" by force
  have fits: "\<forall>x \<in> sends [a]. fits x" "\<forall>x \<in> sends as. fits x"
    using Cons.prems(2) by (cases a; simp)+
  obtain rs' where rs': "slot_run enq deq put get as q2 = (rs', q1)" "rs = r # rs'"
    using Cons.prems(3) s by (auto split: prod.splits)
  from step_simulates [OF Cons.prems(1) fits(1) s] Cons.IH [OF _ fits(2) rs'(1)]
  show ?case using rs'(2) by simp
qed

end

section \<open>The ring buffer\<close>

record queue =
  q_items :: u64
  q_slots :: "bytes list"
  q_head :: int
  q_tail :: int
  q_len :: int
  q_size :: int
  q_count :: int

text \<open>
  \<^verbatim>\<open>memset(items, 0, n)\<close> on an array of elements: the first \<open>n\<close> bytes, across element
  boundaries; more bytes than the array holds is a write outside it.
\<close>

fun memset0 :: "nat \<Rightarrow> bytes list \<Rightarrow> fault + bytes list" where
  "memset0 n [] = (if n = 0 then Inr [] else Inl Undefined)"
| "memset0 n (p # ps) =
     (if n \<le> length p then Inr ((replicate n 0 @ drop n p) # ps)
      else bindE (memset0 (n - length p) ps) (\<lambda>qs. Inr (replicate (length p) 0 # qs)))"

definition queue_reset :: "queue \<Rightarrow> fault + queue" where
  "queue_reset q =
     (if q_size q * q_len q < 0 then Inl Undefined
      else bindE (memset0 (nat (q_size q * q_len q)) (q_slots q)) (\<lambda>xs.
        Inr (q\<lparr>q_slots := xs, q_head := 0, q_tail := 0, q_count := 0\<rparr>)))"

text \<open>
  \<^verbatim>\<open>queue_init\<close> takes the contents \<open>raw\<close> of the memory it is given. It resets the queue
  before it stores the new length and size, with the ones found in the struct.
\<close>

definition queue_init :: "queue \<Rightarrow> bytes list \<Rightarrow> int \<Rightarrow> int \<Rightarrow> memory_pool \<Rightarrow>
    fault + (bool \<times> queue \<times> memory_pool)" where
  "queue_init q raw sz length' pool =
     (if length' AND (length' - 1) \<noteq> 0 then Inr (False, q, pool)
      else let (a, pool1) = alloc (of_int sz * of_int length') pool;
               q1 = q\<lparr>q_items := a, q_slots := raw\<rparr>
           in if a = 0 then Inr (False, q1, pool1)
              else bindE (queue_reset q1) (\<lambda>q2.
                Inr (True, q2\<lparr>q_len := length', q_size := sz\<rparr>, pool1)))"

definition queue_empty :: "queue \<Rightarrow> bool" where
  "queue_empty q \<longleftrightarrow> q_count q = 0"

definition queue_full :: "queue \<Rightarrow> bool" where
  "queue_full q \<longleftrightarrow> q_count q = q_len q"

definition enqueue :: "queue \<Rightarrow> nat option \<times> queue" where
  "enqueue q =
     (if queue_full q then (None, q)
      else (Some (nat (q_head q)),
            q\<lparr>q_head := (q_head q + 1) AND (q_len q - 1), q_count := q_count q + 1\<rparr>))"

definition queue_peek :: "queue \<Rightarrow> nat option" where
  "queue_peek q = (if queue_empty q then None else Some (nat (q_tail q)))"

definition dequeue :: "queue \<Rightarrow> nat option \<times> queue" where
  "dequeue q =
     (if queue_empty q then (None, q)
      else (Some (nat (q_tail q)),
            q\<lparr>q_tail := (q_tail q + 1) AND (q_len q - 1), q_count := q_count q - 1\<rparr>))"

text \<open>Reading and writing the element a returned pointer denotes.\<close>

definition slot :: "nat \<Rightarrow> queue \<Rightarrow> bytes" where
  "slot i q = q_slots q ! i"

definition set_slot :: "nat \<Rightarrow> bytes \<Rightarrow> queue \<Rightarrow> queue" where
  "set_slot i x q = q\<lparr>q_slots := (q_slots q)[i := x]\<rparr>"

text \<open>The address a returned pointer holds.\<close>

definition slot_addr :: "queue \<Rightarrow> nat \<Rightarrow> nat" where
  "slot_addr q i = unat (q_items q) + i * nat (q_size q)"

section \<open>Invariant and abstraction\<close>

definition queue_ok :: "int \<Rightarrow> nat \<Rightarrow> queue \<Rightarrow> bool" where
  "queue_ok sz k q \<longleftrightarrow>
     q_len q = 2 ^ k \<and> q_size q = sz \<and> 0 \<le> sz \<and> length (q_slots q) = 2 ^ k \<and>
     (\<forall>x \<in> set (q_slots q). length x = nat sz) \<and>
     0 \<le> q_tail q \<and> q_tail q < 2 ^ k \<and> 0 \<le> q_count q \<and> q_count q \<le> 2 ^ k \<and>
     q_head q = (q_tail q + q_count q) mod 2 ^ k"

definition queue_list :: "queue \<Rightarrow> bytes list" where
  "queue_list q = map (\<lambda>j. q_slots q ! nat ((q_tail q + int j) mod q_len q)) [0..<nat (q_count q)]"

lemma length_queue_list: "length (queue_list q) = nat (q_count q)"
  by (simp add: queue_list_def)

lemma and_pow2_minus_1: "(x :: int) AND (2 ^ k - 1) = x mod 2 ^ k"
  by (simp add: take_bit_eq_mask mask_eq_exp_minus_1 flip: take_bit_eq_mod)


lemma mod_index_neq:
  assumes "(0 :: int) \<le> j" "j < c" "c < n" "0 < n"
  shows "(t + j) mod n \<noteq> (t + c) mod n"
proof
  assume "(t + j) mod n = (t + c) mod n"
  then have "n dvd (t + c) - (t + j)" by (metis mod_eq_dvd_iff)
  then have "n dvd c - j" by simp
  with assms show False by (auto dest: zdvd_imp_le)
qed

lemma enqueue_room:
  assumes ok: "queue_ok sz k q" and room: "q_count q < 2 ^ k"
  shows "enqueue q = (Some (nat (q_head q)),
           q\<lparr>q_head := (q_head q + 1) mod 2 ^ k, q_count := q_count q + 1\<rparr>)"
  using assms by (simp add: enqueue_def queue_full_def queue_ok_def and_pow2_minus_1)

lemma head_bounds: "queue_ok sz k q \<Longrightarrow> 0 \<le> q_head q \<and> nat (q_head q) < length (q_slots q)"
  by (simp add: queue_ok_def nat_less_iff)

lemma tail_bounds: "queue_ok sz k q \<Longrightarrow> 0 \<le> q_tail q \<and> nat (q_tail q) < length (q_slots q)"
  by (simp add: queue_ok_def nat_less_iff)

lemma mod_Suc_of_mod: "((t + c) mod n + 1) mod n = (t + (c + 1)) mod (n :: int)"
  by (simp add: mod_add_left_eq add.assoc [symmetric])

lemma enqueue_set_slot_ok:
  assumes ok: "queue_ok sz k q" and room: "q_count q < 2 ^ k"
    and eq: "enqueue q = (Some i, q1)" and x: "length x = nat sz"
  shows "queue_ok sz k (set_slot i x q1)"
proof -
  have "\<forall>y \<in> set ((q_slots q)[nat (q_head q) := x]). length y = nat sz"
    using ok x by (auto simp: queue_ok_def dest!: set_update_subset_insert [THEN subsetD])
  then show ?thesis
    using ok room eq enqueue_room [OF ok room]
    by (auto simp: queue_ok_def set_slot_def mod_Suc_of_mod)
qed

lemma enqueue_set_slot_list:
  assumes ok: "queue_ok sz k q" and room: "q_count q < 2 ^ k" and eq: "enqueue q = (Some i, q1)"
  shows "queue_list (set_slot i x q1) = queue_list q @ [x]"
proof -
  let ?h = "nat (q_head q)"
  have q1: "i = ?h" "q1 = q\<lparr>q_head := (q_head q + 1) mod 2 ^ k, q_count := q_count q + 1\<rparr>"
    using enqueue_room [OF ok room] eq by auto
  have c: "nat (q_count q + 1) = Suc (nat (q_count q))"
    using ok by (simp add: queue_ok_def nat_add_distrib)
  have head: "q_head q = (q_tail q + q_count q) mod 2 ^ k" "0 \<le> q_count q"
    using ok by (simp_all add: queue_ok_def)
  have old: "(q_slots q)[?h := x] ! nat ((q_tail q + int j) mod 2 ^ k) =
             q_slots q ! nat ((q_tail q + int j) mod 2 ^ k)" if "j < nat (q_count q)" for j
  proof -
    have "(q_tail q + int j) mod 2 ^ k \<noteq> q_head q"
      unfolding head(1) using that room by (intro mod_index_neq) auto
    then have "?h \<noteq> nat ((q_tail q + int j) mod 2 ^ k)"
      using head_bounds [OF ok] by (simp add: eq_nat_nat_iff)
    then show ?thesis by simp
  qed
  have "(q_slots q)[?h := x] ! nat ((q_tail q + int (nat (q_count q))) mod 2 ^ k) = x"
    using head head_bounds [OF ok] by simp
  with old q1 c ok show ?thesis
    by (simp add: queue_list_def set_slot_def queue_ok_def)
qed

lemma dequeue_some:
  assumes ok: "queue_ok sz k q" and ne: "q_count q \<noteq> 0"
  shows "dequeue q = (Some (nat (q_tail q)),
           q\<lparr>q_tail := (q_tail q + 1) mod 2 ^ k, q_count := q_count q - 1\<rparr>)"
  using assms by (simp add: dequeue_def queue_empty_def queue_ok_def and_pow2_minus_1)

lemma dequeue_ok:
  assumes ok: "queue_ok sz k q"
  shows "queue_ok sz k (snd (dequeue q))"
proof (cases "q_count q = 0")
  case True
  with ok show ?thesis by (simp add: dequeue_def queue_empty_def)
next
  case False
  have "((q_tail q + 1) mod 2 ^ k + (q_count q - 1)) mod 2 ^ k = (q_tail q + q_count q) mod 2 ^ k"
    by (simp add: mod_add_left_eq)
  with ok False dequeue_some [OF ok False] show ?thesis
    by (simp add: queue_ok_def)
qed

lemma dequeue_list:
  assumes ok: "queue_ok sz k q" and ne: "q_count q \<noteq> 0"
  shows "queue_list q = slot (nat (q_tail q)) q # queue_list (snd (dequeue q))"
proof -
  have c: "nat (q_count q) = Suc (nat (q_count q - 1))"
    using ok ne by (simp add: queue_ok_def Suc_nat_eq_nat_zadd1)
  have "(q_tail q + int (Suc j)) mod 2 ^ k = ((q_tail q + 1) mod 2 ^ k + int j) mod 2 ^ k" for j
    by (simp add: mod_add_left_eq add.assoc)
  moreover have "[0..<nat (q_count q)] = 0 # map Suc [0..<nat (q_count q - 1)]"
    unfolding c by (simp only: upt_conv_Cons zero_less_Suc map_Suc_upt)
  ultimately show ?thesis
    using ok dequeue_some [OF ok ne]
    by (simp add: queue_list_def slot_def queue_ok_def o_def del: of_nat_Suc)
qed

text \<open>The ring buffer of \<open>2 ^ k\<close> elements implements the queue bounded by \<open>2 ^ k\<close>.\<close>

interpretation ring: fifo enqueue dequeue set_slot slot queue_list "queue_ok sz k"
  "\<lambda>x. length x = nat sz" "2 ^ k" for sz :: int and k :: nat
proof unfold_locales
  fix q assume ok: "queue_ok sz k q"
  show "length (queue_list q) \<le> 2 ^ k"
    using ok by (simp add: length_queue_list queue_ok_def nat_le_iff)
  show "enqueue q = (None, q)" if "length (queue_list q) = 2 ^ k"
    using that ok by (auto simp: length_queue_list queue_ok_def enqueue_def queue_full_def nat_eq_iff)
  show "\<exists>i q1. enqueue q = (Some i, q1) \<and> (\<forall>x. length x = nat sz \<longrightarrow>
      queue_ok sz k (set_slot i x q1) \<and> queue_list (set_slot i x q1) = queue_list q @ [x])"
    if "length (queue_list q) < 2 ^ k"
  proof -
    have room: "q_count q < 2 ^ k"
      using that by (simp add: length_queue_list nat_less_iff)
    show ?thesis
      using enqueue_room [OF ok room] enqueue_set_slot_ok [OF ok room] enqueue_set_slot_list [OF ok room]
      by auto
  qed
  show "dequeue q = (None, q)" if "queue_list q = []"
    using that ok by (simp add: queue_list_def queue_ok_def dequeue_def queue_empty_def)
  show "\<exists>i q1. dequeue q = (Some i, q1) \<and> queue_ok sz k q1 \<and> queue_list q1 = xs \<and> slot i q1 = x"
    if "queue_list q = x # xs" for x xs
  proof -
    have "q_count q \<noteq> 0" using that by (auto simp: queue_list_def)
    with dequeue_some [OF ok] dequeue_ok [OF ok] dequeue_list [OF ok] that show ?thesis
      by (auto simp: slot_def)
  qed
qed


section \<open>Reset and initialisation\<close>

lemma memset0_none: "memset0 0 xs = Inr xs"
  by (cases xs) simp_all

lemma memset0_all:
  "\<forall>x \<in> set xs. length x = n \<Longrightarrow>
     memset0 (n * length xs) xs = Inr (replicate (length xs) (replicate n 0))"
proof (induction xs)
  case (Cons x xs)
  show ?case
  proof (cases "n = 0 \<or> xs = []")
    case True
    with Cons.prems have "xs = [] \<or> x # xs = replicate (length (x # xs)) []"
      by (auto intro!: replicate_eqI)
    with Cons.prems True show ?thesis by (auto simp: memset0_none)
  next
    case False
    with Cons show ?thesis by auto
  qed
qed simp

lemma memset0_lengths:
  "memset0 n xs = Inr ys \<Longrightarrow> map length ys = map length xs"
  by (induction n xs arbitrary: ys rule: memset0.induct) (auto split: if_splits)

definition queue_shape :: "int \<Rightarrow> nat \<Rightarrow> queue \<Rightarrow> bool" where
  "queue_shape sz k q \<longleftrightarrow> q_len q = 2 ^ k \<and> q_size q = sz \<and> 0 \<le> sz \<and>
     length (q_slots q) = 2 ^ k \<and> (\<forall>x \<in> set (q_slots q). length x = nat sz)"

lemma queue_ok_shape: "queue_ok sz k q \<Longrightarrow> queue_shape sz k q"
  by (simp add: queue_ok_def queue_shape_def)

lemma queue_reset_shape:
  assumes "queue_shape sz k q"
  shows "queue_reset q = Inr (q\<lparr>q_slots := replicate (2 ^ k) (replicate (nat sz) 0),
                               q_head := 0, q_tail := 0, q_count := 0\<rparr>)"
proof -
  have "memset0 (nat sz * length (q_slots q)) (q_slots q) =
        Inr (replicate (length (q_slots q)) (replicate (nat sz) 0))"
    using assms by (intro memset0_all) (simp add: queue_shape_def)
  moreover have "nat (sz * 2 ^ k) = nat sz * 2 ^ k"
    using assms by (simp add: nat_mult_distrib queue_shape_def)
  moreover have "\<not> sz * 2 ^ k < 0"
    using assms by (simp add: not_less queue_shape_def)
  ultimately show ?thesis
    using assms by (simp add: queue_reset_def queue_shape_def)
qed

lemma queue_reset_ok:
  assumes "queue_shape sz k q"
  shows "\<exists>q1. queue_reset q = Inr q1 \<and> queue_ok sz k q1 \<and> queue_list q1 = [] \<and>
    q_slots q1 = replicate (2 ^ k) (replicate (nat sz) 0)"
  unfolding queue_reset_shape [OF assms]
  using assms by (simp add: queue_ok_def queue_list_def queue_shape_def)

text \<open>The test \<^verbatim>\<open>(length & (length - 1)) != 0\<close> lets through 0 and the powers of two.\<close>

lemma and_pred_zero_nat:
  "0 < n \<Longrightarrow> int n AND (int n - 1) = 0 \<Longrightarrow> \<exists>k. n = 2 ^ k"
proof (induction n rule: less_induct)
  case (less n)
  show ?case
  proof (cases "odd n")
    case True
    then obtain m where m: "n = 2 * m + 1" by (rule oddE)
    have "int n AND (int n - 1) = 2 * (int m AND int m)"
      unfolding m by (subst and_rec) simp
    with less.prems have "m = 0" by simp
    with m have "n = 2 ^ 0" by simp
    then show ?thesis ..
  next
    case False
    then obtain m where m: "n = 2 * m" by (auto elim: evenE)
    have "(2 * int m - 1) div 2 = int m - 1" by simp
    then have "int n AND (int n - 1) = 2 * (int m AND (int m - 1))"
      unfolding m by (subst and_rec) simp
    with less.prems m less.IH [of m] obtain k where "m = 2 ^ k" by auto
    with m have "n = 2 ^ Suc k" by simp
    then show ?thesis ..
  qed
qed

lemma length_test: "0 \<le> l \<Longrightarrow> l AND (l - 1) = (0 :: int) \<longleftrightarrow> l = 0 \<or> (\<exists>k. l = 2 ^ k)"
proof -
  assume "0 \<le> l"
  then obtain n where n: "l = int n" by (rule nonneg_int_cases)
  have "l AND (l - 1) = 0" if "l = 2 ^ k" for k
    using that by (simp add: and_pow2_minus_1)
  then show ?thesis
    using and_pred_zero_nat [of n] n by (cases "n = 0") auto
qed


lemma memset0_overflow:
  "sum_list (map length xs) < n \<Longrightarrow> memset0 n xs = Inl Undefined"
  by (induction n xs rule: memset0.induct) auto

section \<open>Properties\<close>

text \<open>
  C12: a message queue behaves as a bounded first-in-first-out queue: for every script of sends
  (reserve an element with \<^verbatim>\<open>enqueue\<close>, fill it through the returned pointer) and receives
  (read through the pointer \<^verbatim>\<open>dequeue\<close> returns), the results are those of the list of the
  queued messages with capacity \<^verbatim>\<open>len\<close>, across any number of turns around the ring.
\<close>

theorem queue_refines_fifo:
  assumes "queue_ok sz k q" "\<forall>x \<in> sends as. length x = nat sz"
    and "slot_run enqueue dequeue set_slot slot as q = (rs, q1)"
  shows "list_run (2 ^ k) as (queue_list q) = (rs, queue_list q1) \<and> queue_ok sz k q1"
  using ring.run_simulates [OF assms] by simp

definition example_queue :: queue where
  "example_queue = \<lparr>q_items = 4096, q_slots = [[0], [0]], q_head = 1, q_tail = 1, q_len = 2,
                    q_size = 1, q_count = 0\<rparr>"

lemma example_queue_ok: "queue_ok 1 1 example_queue" "queue_list example_queue = []"
  by (auto simp: example_queue_def queue_ok_def queue_list_def)

theorem queue_refines_fifo_witness:
  "fst (slot_run enqueue dequeue set_slot slot [Send [1], Send [2], Send [3], Recv, Recv, Recv]
     example_queue) = [Some [1], Some [2], None, Some [1], Some [2], None]"
proof -
  let ?as = "[Send [1], Send [2], Send [3], Recv, Recv, Recv] :: bytes qop list"
  obtain rs q1 where run: "slot_run enqueue dequeue set_slot slot ?as example_queue = (rs, q1)" by force
  have "list_run 2 ?as [] = (rs, queue_list q1)"
    using queue_refines_fifo [OF example_queue_ok(1) _ run] example_queue_ok(2) by simp
  with run show ?thesis by simp
qed

text \<open>
  C28: the element \<^verbatim>\<open>enqueue\<close> hands out lies inside the block at \<^verbatim>\<open>items\<close> and does not overlap
  any element that still waits to be sent.
\<close>

theorem enqueue_slot_free:
  assumes ok: "queue_ok sz k q" and eq: "enqueue q = (Some i, q1)" and j: "int j < q_count q"
  shows "unat (q_items q) \<le> slot_addr q i \<and>
    slot_addr q i + nat sz \<le> unat (q_items q) + nat (q_size q * q_len q) \<and>
    (let w = nat ((q_tail q + int j) mod q_len q) in
       slot_addr q i + nat sz \<le> slot_addr q w \<or> slot_addr q w + nat sz \<le> slot_addr q i)"
proof -
  let ?w = "nat ((q_tail q + int j) mod q_len q)"
  have room: "q_count q < 2 ^ k"
    using ok eq by (auto simp: enqueue_def queue_full_def queue_ok_def split: if_splits)
  have i: "i = nat (q_head q)" using enqueue_room [OF ok room] eq by simp
  have len: "q_len q = 2 ^ k" "q_size q = sz" "0 \<le> sz" using ok by (auto simp: queue_ok_def)
  have "(q_tail q + int j) mod 2 ^ k \<noteq> q_head q"
    using mod_index_neq [of "int j" "q_count q" "2 ^ k" "q_tail q"] ok room j by (simp add: queue_ok_def)
  moreover have "0 \<le> (q_tail q + int j) mod 2 ^ k" by simp
  ultimately have "i \<noteq> ?w"
    using i len head_bounds [OF ok] by (metis eq_nat_nat_iff)
  then have neq: "i < ?w \<or> ?w < i" by (simp add: linorder_neq_iff)
  have "length (q_slots q) = 2 ^ k" using ok by (simp add: queue_ok_def)
  then have "Suc i \<le> 2 ^ k"
    using head_bounds [OF ok] unfolding i by (metis Suc_leI)
  then have top: "i * nat sz + nat sz \<le> nat (sz * 2 ^ k)"
    using mult_le_mono1 [of "Suc i" "2 ^ k" "nat sz"] len
    by (simp add: nat_mult_distrib nat_power_eq mult.commute)
  have "a * nat sz + nat sz \<le> b * nat sz" if "a < b" for a b
    using that mult_le_mono1 [of "Suc a" b "nat sz"] by simp
  with neq top len show ?thesis
    by (auto simp: slot_addr_def Let_def)
qed

theorem enqueue_slot_free_witness:
  "let q = snd (enqueue example_queue) in
     slot_addr q 0 + 1 \<le> slot_addr q 1 \<or> slot_addr q 1 + 1 \<le> slot_addr q 0"
proof -
  let ?q = "snd (enqueue example_queue)"
  have q: "queue_ok 1 1 ?q"
    by (auto simp: example_queue_def queue_ok_def enqueue_def queue_full_def)
  have e: "enqueue ?q = (Some 0, snd (enqueue ?q))"
    by (simp add: example_queue_def enqueue_def queue_full_def)
  show ?thesis
    using enqueue_slot_free [OF q e, of 0]
    by (simp add: example_queue_def enqueue_def queue_full_def slot_addr_def)
qed

text \<open>The size of the array as the argument of \<^verbatim>\<open>alloc\<close>.\<close>

lemma array_bytes:
  assumes "0 \<le> sz" "0 < n" "sz * n < 2 ^ 62"
  shows "unat (of_int sz * of_int n :: u64) = nat (sz * n)"
proof -
  have "(of_int sz * of_int n :: u64) = of_int (sz * n)" by simp
  moreover have "unat (of_int (sz * n) :: u64) = nat (sz * n mod 2 ^ 64)"
    by (simp add: unsigned_of_int take_bit_eq_mod del: of_int_mult)
  moreover have "sz * n mod 2 ^ 64 = sz * n"
    using assms by (intro mod_pos_pos_trivial) auto
  ultimately show ?thesis by simp
qed

text \<open>
  \<^verbatim>\<open>queue_init\<close> on a zeroed struct: a length that is neither 0 nor a power of two is
  refused; a power of two gives, when the pool has room, an array ready for \<^verbatim>\<open>queue_reset\<close>,
  which then yields the empty queue; without room it fails.
\<close>

theorem queue_init_spec:
  assumes "pool_ok p" "0 \<le> sz" "0 < n" "sz * n < 2 ^ 62" "unat (blk_end (root p)) < 2 ^ 62"
    and "q_size q = 0" "q_len q = 0" "length raw = nat n" "\<forall>x \<in> set raw. length x = nat sz"
  shows "case queue_init q raw sz n p of
      Inl _ \<Rightarrow> False
    | Inr (ok, q1, p1) \<Rightarrow>
        (ok \<longleftrightarrow> (\<exists>k. n = 2 ^ k) \<and>
                unat (mem_used p) + round8 (nat (sz * n)) \<le> unat (block_size p)) \<and>
        pool_ok p1 \<and> (\<not> ok \<longrightarrow> p1 = p) \<and>
        (ok \<longrightarrow> (\<exists>k q2. queue_reset q1 = Inr q2 \<and> queue_ok sz k q2 \<and> queue_list q2 = []))"
proof (cases "\<exists>k. n = 2 ^ k")
  case False
  then show ?thesis
    using length_test [of n] assms(1,3) by (simp add: queue_init_def)
next
  case True
  then obtain k where n: "n = 2 ^ k" ..
  have bytes: "unat (of_int sz * of_int n :: u64) = nat (sz * n)"
    using assms(2-4) by (intro array_bytes) simp_all
  have "unat (blk_free (root p)) < 2 ^ 62"
    using assms(1,5) by (simp add: pool_ok_def)
  moreover have "nat (sz * n) < 2 ^ 62" using assms(4) by (simp add: nat_less_iff)
  ultimately have small: "unat (blk_free (root p)) + unat (of_int sz * of_int n :: u64) + 7 < 2 ^ 64"
    unfolding bytes by simp
  have nz: "blk_free (root p) \<noteq> 0"
    using assms(1) by (auto simp: pool_ok_def unat_eq_zero)
  have test: "n AND (n - 1) = 0" using length_test [of n] n by auto
  let ?q1 = "\<lambda>a. q\<lparr>q_items := a, q_slots := raw, q_head := 0, q_tail := 0, q_count := 0\<rparr>"
  have reset: "queue_reset (q\<lparr>q_items := a, q_slots := raw\<rparr>) = Inr (?q1 a)" for a
    using assms(6,7) by (simp add: queue_reset_def memset0_none)
  have shape: "queue_shape sz k (?q1 a\<lparr>q_len := n, q_size := sz\<rparr>)" for a
    using assms(2,8,9) n by (simp add: queue_shape_def nat_power_eq)
  show ?thesis
  proof (cases "unat (mem_used p) + round8 (nat (sz * n)) \<le> unat (block_size p)")
    case fits: True
    from alloc_cases(1) [OF assms(1) small refl] fits bytes obtain p1 where
      p1: "alloc (of_int sz * of_int n) p = (blk_free (root p), p1)" "pool_ok p1"
      by auto
    then have run: "queue_init q raw sz n p =
        Inr (True, ?q1 (blk_free (root p))\<lparr>q_len := n, q_size := sz\<rparr>, p1)"
      using test nz reset by (simp add: queue_init_def)
    from queue_reset_ok [OF shape [of "blk_free (root p)"]] obtain q2 where
      q2: "queue_reset (?q1 (blk_free (root p))\<lparr>q_len := n, q_size := sz\<rparr>) = Inr q2"
        "queue_ok sz k q2" "queue_list q2 = []" by blast
    show ?thesis
      unfolding run using True fits p1(2) q2 by simp blast
  next
    case False
    with alloc_cases(2) [OF assms(1) small refl] bytes test assms(1) show ?thesis
      by (simp add: queue_init_def not_le)
  qed
qed

definition zero_queue :: queue where
  "zero_queue = \<lparr>q_items = 0, q_slots = [], q_head = 0, q_tail = 0, q_len = 0, q_size = 0,
                 q_count = 0\<rparr>"

theorem queue_init_spec_witness:
  "case queue_init zero_queue (replicate 4 (replicate 8 7)) 8 4 example_pool of
     Inl _ \<Rightarrow> False
   | Inr (ok, q1, p1) \<Rightarrow> ok \<and> (\<exists>k q2. queue_reset q1 = Inr q2 \<and> queue_ok 8 k q2)"
proof -
  have four: "\<exists>k. (4 :: int) = 2 ^ k" by (rule exI [of _ 2]) simp
  show ?thesis
    using queue_init_spec [OF example_pool_run(1), of 8 4 zero_queue "replicate 4 (replicate 8 7)"] four
    by (auto simp: zero_queue_def example_pool_def round8_def split: sum.splits)
qed

text \<open>
  \<^verbatim>\<open>queue_init\<close> clears the new array with the \<^verbatim>\<open>size\<close> and \<^verbatim>\<open>len\<close> it finds in the struct,
  before it sets them: where these stale values describe more bytes than the new array
  has, the \<^verbatim>\<open>memset\<close> writes outside the array.
\<close>

theorem queue_init_stale_overflow:
  assumes "n AND (n - 1) = 0" "alloc (of_int sz * of_int n) p = (a, p1)" "a \<noteq> 0"
    and "int (sum_list (map length raw)) < q_size q * q_len q"
  shows "queue_init q raw sz n p = Inl Undefined"
proof -
  have "memset0 (nat (q_size q * q_len q)) raw = Inl Undefined"
    using assms(4) by (intro memset0_overflow) simp
  with assms show ?thesis
    by (simp add: queue_init_def queue_reset_def)
qed

theorem queue_init_stale_overflow_witness:
  "queue_init (zero_queue\<lparr>q_size := 8, q_len := 4\<rparr>) [[0, 0], [0, 0]] 2 2 example_pool = Inl Undefined"
  by (rule queue_init_stale_overflow [where a = 4096])
    (simp_all add: zero_queue_def example_pool_def alloc_def pad8.simps Let_def prod_eq_iff)

end
