(* ===== verification/External.thy ===== *)
theory External
  imports Packet
begin

text \<open>
  What the server calls outside the repository: libc and POSIX, SQLite and OpenSSL. None of it
  is defined here: \<open>'w\<close> is the state of everything outside the program and a record
  \<^verbatim>\<open>'w env\<close> holds one function for each foreign call, which every definition that makes such
  a call takes as its first argument. Handles (\<^verbatim>\<open>SSL*\<close>, \<^verbatim>\<open>BIO*\<close>) are addresses, prepared
  statements are named by their index \<^verbatim>\<open>DB_Stmt_Type\<close> in \<^verbatim>\<open>db->stmts\<close>. Calls with an output
  buffer return the bytes they wrote to it.
\<close>

section \<open>Names used in calls\<close>

text \<open>\<^verbatim>\<open>DB_Stmt_Type\<close> of \<^verbatim>\<open>qs_server/include/database.h\<close>.\<close>

datatype stmt =
    SESSION_STMT_CREATE | SESSION_STMT_GET
  | TRANSFER_STMT_CREATE | TRANSFER_STMT_GET | TRANSFER_STMT_DEL
  | TRANSFER_CLIENT_CREATE | TRANSFER_GET_CREATOR | TRANSFER_GET_CREATOR_BY_ID
  | TRANSFER_CLIENT_ACCEPT | TRANSFER_CLIENT_DEL
  | TRANSFER_CLIENT_GET_ALL | TRANSFER_CLIENT_GET_ALL_ACCEPTED | TRANSFER_CLIENT_DEL_ALL
  | BEGIN_TRANSACTION | COMMIT_TRANSACTION | ROLLBACK_TRANSACTION

datatype sqlval = SQL_INT u64 | SQL_TEXT bytes | SQL_NULL

datatype sqlite_rc = SQLITE_ROW | SQLITE_DONE | SQLITE_ERROR

datatype ssl_error =
    SSL_ERROR_NONE | SSL_ERROR_WANT_READ | SSL_ERROR_WANT_WRITE
  | SSL_ERROR_ZERO_RETURN | SSL_ERROR_SYSCALL | SSL_ERROR_OTHER

datatype epoll_op = EPOLL_CTL_ADD | EPOLL_CTL_MOD | EPOLL_CTL_DEL

text \<open>The sets of event bits the server uses (\<^verbatim>\<open>EPOLLIN\<close>, \<^verbatim>\<open>EPOLLOUT\<close>, and the error bits).\<close>

record events =
  ev_in :: bool
  ev_out :: bool
  ev_rdhup :: bool
  ev_hup :: bool
  ev_err :: bool

record epoll_event =
  ee_fd :: int
  ee_events :: events

record sockaddr_in =
  sin_addr :: u32
  sin_port :: "16 word"

section \<open>The foreign functions\<close>

text \<open>
  Reads return \<open>Inr bs\<close> for the \<open>length bs\<close> bytes read (none at the end of the stream), or
  \<open>Inl k\<close> for a return value of \<open>- k\<close>. \<open>errno_again\<close> is \<^verbatim>\<open>errno == EAGAIN || errno ==
  EWOULDBLOCK\<close> after a failed call; \<open>server_running\<close> is the read of the flag \<^verbatim>\<open>server_state\<close>
  that the signal handler clears. \<^verbatim>\<open>sqlite3_bind_text\<close>, \<^verbatim>\<open>_int\<close> and \<^verbatim>\<open>_int64\<close> are one
  function of the bound value.
\<close>

record 'w env =
  time_now :: "'w \<Rightarrow> u64 \<times> 'w"
  errno_again :: "'w \<Rightarrow> bool"
  server_running :: "'w \<Rightarrow> bool"
  sys_read :: "int \<Rightarrow> nat \<Rightarrow> 'w \<Rightarrow> (nat + bytes) \<times> 'w"
  sys_write :: "int \<Rightarrow> bytes \<Rightarrow> 'w \<Rightarrow> int \<times> 'w"
  sys_close :: "int \<Rightarrow> 'w \<Rightarrow> 'w"
  sys_accept :: "int \<Rightarrow> 'w \<Rightarrow> (int \<times> sockaddr_in) \<times> 'w"
  fcntl_getfl :: "int \<Rightarrow> 'w \<Rightarrow> int \<times> 'w"
  fcntl_setfl :: "int \<Rightarrow> int \<Rightarrow> 'w \<Rightarrow> int \<times> 'w"
  epoll_ctl :: "epoll_op \<Rightarrow> int \<Rightarrow> events \<Rightarrow> 'w \<Rightarrow> int \<times> 'w"
  epoll_wait :: "nat \<Rightarrow> 'w \<Rightarrow> epoll_event list option \<times> 'w"
  sqlite3_reset :: "stmt \<Rightarrow> 'w \<Rightarrow> 'w"
  sqlite3_bind :: "stmt \<Rightarrow> nat \<Rightarrow> sqlval \<Rightarrow> 'w \<Rightarrow> 'w"
  sqlite3_step :: "stmt \<Rightarrow> 'w \<Rightarrow> sqlite_rc \<times> 'w"
  sqlite3_column_int64 :: "stmt \<Rightarrow> nat \<Rightarrow> 'w \<Rightarrow> u64"
  sqlite3_last_insert_rowid :: "'w \<Rightarrow> u64"
  BIO_new_mem :: "'w \<Rightarrow> u64 \<times> 'w"
  SSL_new :: "'w \<Rightarrow> u64 \<times> 'w"
  SSL_set_accept_state :: "u64 \<Rightarrow> 'w \<Rightarrow> 'w"
  SSL_set_bio :: "u64 \<Rightarrow> u64 \<Rightarrow> u64 \<Rightarrow> 'w \<Rightarrow> 'w"
  SSL_do_handshake :: "u64 \<Rightarrow> 'w \<Rightarrow> int \<times> 'w"
  SSL_is_init_finished :: "u64 \<Rightarrow> 'w \<Rightarrow> bool"
  SSL_get_error :: "u64 \<Rightarrow> int \<Rightarrow> 'w \<Rightarrow> ssl_error"
  SSL_read :: "u64 \<Rightarrow> int \<Rightarrow> 'w \<Rightarrow> (nat + bytes) \<times> 'w"
  SSL_write :: "u64 \<Rightarrow> bytes \<Rightarrow> 'w \<Rightarrow> int \<times> 'w"
  SSL_shutdown :: "u64 \<Rightarrow> 'w \<Rightarrow> int \<times> 'w"
  SSL_free :: "u64 \<Rightarrow> 'w \<Rightarrow> 'w"
  BIO_read :: "u64 \<Rightarrow> nat \<Rightarrow> 'w \<Rightarrow> (nat + bytes) \<times> 'w"
  BIO_write :: "u64 \<Rightarrow> bytes \<Rightarrow> 'w \<Rightarrow> int \<times> 'w"
  BIO_should_retry :: "u64 \<Rightarrow> 'w \<Rightarrow> bool"

text \<open>The \<^verbatim>\<open>int\<close> or \<^verbatim>\<open>ssize_t\<close> a read returned.\<close>

definition read_rc :: "nat + bytes \<Rightarrow> int" where
  "read_rc r = (case r of Inl k \<Rightarrow> - int k | Inr bs \<Rightarrow> int (length bs))"

lemma read_rc_pos: "0 < read_rc r \<longleftrightarrow> (\<exists>bs. r = Inr bs \<and> bs \<noteq> [])"
  by (cases r) (auto simp: read_rc_def)

section \<open>What every foreign call promises\<close>

text \<open>
  No read yields more bytes than were asked for and no write claims more than it was given; an
  \<^verbatim>\<open>SSL_get_error\<close> of \<^verbatim>\<open>SSL_ERROR_NONE\<close> is only given for a positive result. Both are what the
  manual pages of these functions say.
\<close>

locale bounded_io =
  fixes E :: "'w env"
  assumes sys_read_le: "sys_read E fd n w = (Inr bs, w') \<Longrightarrow> length bs \<le> n"
    and sys_write_le: "sys_write E fd bs w = (k, w') \<Longrightarrow> k \<le> int (length bs)"
    and SSL_read_le: "SSL_read E h k w = (Inr bs, w') \<Longrightarrow> int (length bs) \<le> max 0 k"
    and SSL_write_le: "SSL_write E h bs w = (k, w') \<Longrightarrow> k \<le> int (length bs)"
    and BIO_read_le: "BIO_read E h n w = (Inr bs, w') \<Longrightarrow> length bs \<le> n"
    and BIO_write_le: "BIO_write E h bs w = (k, w') \<Longrightarrow> k \<le> int (length bs)"
    and SSL_error_none: "SSL_get_error E h k w = SSL_ERROR_NONE \<Longrightarrow> 0 < k"

end
