(* ===== verification/Secure.thy ===== *)
theory Secure
  imports Mem_Pool External
begin

text \<open>
  The I/O buffers of \<^verbatim>\<open>qs_server/include/buffer.h\<close> and the TLS session object of
  \<^verbatim>\<open>qs_server/src/secure.c\<close>. A buffer keeps the bytes of its memory; writing or clearing more
  than they hold is \<open>Undefined\<close>. The theorems bound the outgoing buffer and show which bytes
  wait in it.
\<close>

section \<open>Buffers\<close>

record buffer =
  b_addr :: u64
  b_data :: bytes
  b_len :: u32
  b_size :: u32
  b_bytes :: u32

text \<open>\<^verbatim>\<open>BUFFER_ALLOC\<close>; \<open>mem a n\<close> are the bytes found in the \<open>n\<close> bytes of memory at \<open>a\<close>.\<close>

definition BUFFER_ALLOC :: "(u64 \<Rightarrow> nat \<Rightarrow> bytes) \<Rightarrow> nat \<Rightarrow> memory_pool \<Rightarrow> buffer \<times> memory_pool" where
  "BUFFER_ALLOC mem bsize pool =
     (let (a, pool1) = alloc (of_nat bsize) pool in
      (\<lparr>b_addr = a, b_data = mem a bsize, b_len = 0, b_size = 0, b_bytes = of_nat bsize\<rparr>, pool1))"

text \<open>
  \<^verbatim>\<open>B_ZERO\<close> clears \<^verbatim>\<open>size\<close> bytes, the payload length announced by the packet being read, not
  \<^verbatim>\<open>bytes\<close>, the capacity.
\<close>

definition B_ZERO :: "buffer \<Rightarrow> fault + buffer" where
  "B_ZERO b =
     (if length (b_data b) < unat (b_size b) then Inl Undefined
      else Inr (b\<lparr>b_data := put_bytes 0 (replicate (unat (b_size b)) 0) (b_data b)\<rparr>))"

definition B_RESET :: "buffer \<Rightarrow> fault + buffer" where
  "B_RESET b = bindE (B_ZERO b) (\<lambda>b1. Inr (b1\<lparr>b_len := 0, b_size := 0\<rparr>))"

definition buffer_ok :: "nat \<Rightarrow> buffer \<Rightarrow> bool" where
  "buffer_ok n b \<longleftrightarrow> length (b_data b) = n \<and> unat (b_bytes b) = n \<and> unat (b_len b) \<le> n"

lemma B_ZERO_ok: "buffer_ok n b \<Longrightarrow> B_ZERO b = Inr b1 \<Longrightarrow>
    buffer_ok n b1 \<and> b_len b1 = b_len b \<and> b_size b1 = b_size b"
  by (auto simp: B_ZERO_def buffer_ok_def length_put_bytes split: if_splits)

lemma B_RESET_ok: "buffer_ok n b \<Longrightarrow> B_RESET b = Inr b1 \<Longrightarrow> buffer_ok n b1 \<and> b_len b1 = 0 \<and> b_size b1 = 0"
  using B_ZERO_ok [of n b] by (auto simp: B_RESET_def buffer_ok_def)

section \<open>The TLS session\<close>

record secure =
  ssl :: u64
  r_bio :: u64
  w_bio :: u64
  encrypted_buf :: buffer

datatype secure_state = STATUS_OK | STATUS_MORE_IO | STATUS_FAIL

definition secure_queue_write :: "secure \<Rightarrow> bytes \<Rightarrow> fault + secure" where
  "secure_queue_write s buf =
     (let b = encrypted_buf s; n = unat (b_len b) in
      bindE (assertE (n + length buf < unat (b_bytes b))) (\<lambda>_.
        if length (b_data b) < n + length buf then Inl Undefined
        else Inr (s\<lparr>encrypted_buf := b\<lparr>b_data := put_bytes n buf (b_data b),
                                      b_len := b_len b + of_nat (length buf)\<rparr>\<rparr>)))"

definition get_sslstate :: "'w env \<Rightarrow> secure \<Rightarrow> int \<Rightarrow> 'w \<Rightarrow> secure_state" where
  "get_sslstate E s ret w =
     (case SSL_get_error E (ssl s) ret w of
        SSL_ERROR_NONE \<Rightarrow> STATUS_OK
      | SSL_ERROR_WANT_WRITE \<Rightarrow> STATUS_MORE_IO
      | SSL_ERROR_WANT_READ \<Rightarrow> STATUS_MORE_IO
      | SSL_ERROR_ZERO_RETURN \<Rightarrow> STATUS_FAIL
      | SSL_ERROR_SYSCALL \<Rightarrow> STATUS_FAIL
      | SSL_ERROR_OTHER \<Rightarrow> STATUS_FAIL)"

text \<open>
  \<^verbatim>\<open>secure_init\<close> tests no result: a NULL of \<^verbatim>\<open>BIO_new\<close> or \<^verbatim>\<open>SSL_new\<close> goes on to the next call, as here the value
  0 does. What the library does with it is its own; OpenSSL does not document it.
\<close>

definition secure_init :: "'w env \<Rightarrow> secure \<Rightarrow> 'w \<Rightarrow> fault + (secure \<times> 'w)" where
  "secure_init E s w =
     (let (rb, w1) = BIO_new_mem E w;
          (wb, w2) = BIO_new_mem E w1;
          (h, w3) = SSL_new E w2;
          w4 = SSL_set_accept_state E h w3;
          w5 = SSL_set_bio E h rb wb w4
      in bindE (B_ZERO (encrypted_buf s)) (\<lambda>b.
           Inr (s\<lparr>r_bio := rb, w_bio := wb, ssl := h, encrypted_buf := b\<lparr>b_len := 0\<rparr>\<rparr>, w5)))"

definition secure_free :: "'w env \<Rightarrow> secure \<Rightarrow> 'w \<Rightarrow> 'w" where
  "secure_free E s w =
     (let (r, w1) = SSL_shutdown E (ssl s) w;
          w2 = (if r = 0 then snd (SSL_shutdown E (ssl s) w1) else w1)
      in SSL_free E (ssl s) w2)"

text \<open>The bytes that wait to be written to the socket.\<close>

definition pending_out :: "secure \<Rightarrow> bytes" where
  "pending_out s = take (unat (b_len (encrypted_buf s))) (b_data (encrypted_buf s))"

lemma secure_queue_write_Inr:
  assumes "secure_queue_write s buf = Inr s1" "buffer_ok n (encrypted_buf s)" "n < 2 ^ 32"
  shows "buffer_ok n (encrypted_buf s1)" "pending_out s1 = pending_out s @ buf"
    "ssl s1 = ssl s" "r_bio s1 = r_bio s" "w_bio s1 = w_bio s"
    "b_size (encrypted_buf s1) = b_size (encrypted_buf s)"
    "unat (b_len (encrypted_buf s1)) = unat (b_len (encrypted_buf s)) + length buf"
    "unat (b_len (encrypted_buf s1)) < n"
proof -
  let ?b = "encrypted_buf s"
  have s1: "unat (b_len ?b) + length buf < n"
    "s1 = s\<lparr>encrypted_buf := ?b\<lparr>b_data := put_bytes (unat (b_len ?b)) buf (b_data ?b),
                                b_len := b_len ?b + of_nat (length buf)\<rparr>\<rparr>"
    using assms(1,2) by (auto simp: secure_queue_write_def Let_def buffer_ok_def split: if_splits)
  with assms(3) have len: "unat (b_len ?b + of_nat (length buf)) = unat (b_len ?b) + length buf"
    by (simp add: unat_word_ariths unat_of_nat)
  with s1 assms(2)
  show "buffer_ok n (encrypted_buf s1)" "pending_out s1 = pending_out s @ buf"
    "ssl s1 = ssl s" "r_bio s1 = r_bio s" "w_bio s1 = w_bio s"
    "b_size (encrypted_buf s1) = b_size (encrypted_buf s)"
    "unat (b_len (encrypted_buf s1)) = unat (b_len (encrypted_buf s)) + length buf"
    "unat (b_len (encrypted_buf s1)) < n"
    by (simp_all add: buffer_ok_def length_put_bytes pending_out_def put_bytes_def)
qed

lemma secure_queue_write_Inl:
  "buffer_ok n (encrypted_buf s) \<Longrightarrow> secure_queue_write s buf = Inl e \<Longrightarrow> e = Assert_Failed"
  by (auto simp: secure_queue_write_def Let_def buffer_ok_def assertE_def split: if_splits)

lemma secure_init_ok:
  assumes "secure_init E s w = Inr (s1, w1)" "buffer_ok n (encrypted_buf s)"
  shows "buffer_ok n (encrypted_buf s1) \<and> b_len (encrypted_buf s1) = 0 \<and>
    b_size (encrypted_buf s1) = b_size (encrypted_buf s)"
  using assms(1) B_ZERO_ok [OF assms(2)]
  by (auto simp: secure_init_def Let_def buffer_ok_def split: prod.splits)

text \<open>
  \<^verbatim>\<open>secure_queue_write\<close> appends the bytes to those that wait to be sent and keeps the
  buffer strictly below its capacity; when the bytes would fill it, the assertion ends the
  process. It never writes outside the buffer.
\<close>

theorem secure_queue_write_spec:
  assumes "buffer_ok n (encrypted_buf s)" "n < 2 ^ 32"
  shows "if unat (b_len (encrypted_buf s)) + length buf < n
         then \<exists>s1. secure_queue_write s buf = Inr s1 \<and> buffer_ok n (encrypted_buf s1) \<and>
                pending_out s1 = pending_out s @ buf
         else secure_queue_write s buf = Inl Assert_Failed"
proof (cases "unat (b_len (encrypted_buf s)) + length buf < n")
  case True
  with assms(1) obtain s1 where "secure_queue_write s buf = Inr s1"
    by (auto simp: secure_queue_write_def Let_def buffer_ok_def)
  with True secure_queue_write_Inr(1,2) [OF _ assms] show ?thesis by auto
next
  case False
  with assms(1) show ?thesis
    by (simp add: secure_queue_write_def Let_def buffer_ok_def assertE_def)
qed

definition example_secure :: secure where
  "example_secure = \<lparr>ssl = 1, r_bio = 2, w_bio = 3,
     encrypted_buf = \<lparr>b_addr = 4096, b_data = [7, 0, 0, 0], b_len = 1, b_size = 0, b_bytes = 4\<rparr>\<rparr>"

theorem secure_queue_write_spec_witness:
  "(\<exists>s1. secure_queue_write example_secure [8, 9] = Inr s1 \<and> pending_out s1 = [7, 8, 9])"
  using secure_queue_write_spec [of 4 example_secure "[8, 9]"]
  by (auto simp: example_secure_def buffer_ok_def pending_out_def)

end
