(* ===== verification/Database.thy ===== *)
theory Database
  imports External "HOL-Library.Multiset"
begin

text \<open>
  The database layer \<^verbatim>\<open>qs_server/src/database.c\<close>. First its functions, over the foreign SQLite
  calls. Then what the repository itself says of the data: the tables of
  \<^verbatim>\<open>qs_server/db/db_init.sql\<close> and the meaning of the prepared statements of
  \<^verbatim>\<open>sqlite_stmts_text\<close>. The locale \<open>sqlite\<close> is the contract between the two: a SQLite library
  that executes the statements with their SQL meaning; in it, each \<^verbatim>\<open>db_\<close> function gets its
  effect on the tables.
\<close>

section \<open>The functions of database.c\<close>

definition db_transaction :: "'w env \<Rightarrow> stmt \<Rightarrow> 'w \<Rightarrow> bool \<times> 'w" where
  "db_transaction E type w =
     (let w1 = sqlite3_reset E type w; (rc, w2) = sqlite3_step E type w1
      in (rc = SQLITE_DONE, w2))"

definition db_create_session :: "'w env \<Rightarrow> bytes \<Rightarrow> 'w \<Rightarrow> session_id \<times> 'w" where
  "db_create_session E name w =
     (let w1 = sqlite3_reset E SESSION_STMT_CREATE w;
          w2 = sqlite3_bind E SESSION_STMT_CREATE 1 (SQL_TEXT (cstr name)) w1;
          (rc, w3) = sqlite3_step E SESSION_STMT_CREATE w2
      in if rc \<noteq> SQLITE_DONE then (0, w3) else (sqlite3_last_insert_rowid E w3, w3))"

definition db_get_session :: "'w env \<Rightarrow> bytes \<Rightarrow> 'w \<Rightarrow> session_id \<times> 'w" where
  "db_get_session E name w =
     (let w1 = sqlite3_reset E SESSION_STMT_GET w;
          w2 = sqlite3_bind E SESSION_STMT_GET 1 (SQL_TEXT (cstr name)) w1;
          (rc, w3) = sqlite3_step E SESSION_STMT_GET w2
      in if rc = SQLITE_ROW then (sqlite3_column_int64 E SESSION_STMT_GET 1 w3, w3) else (0, w3))"

definition db_cleanup_transfer :: "'w env \<Rightarrow> transfer_id \<Rightarrow> 'w \<Rightarrow> 'w" where
  "db_cleanup_transfer E t_id w =
     (let w1 = sqlite3_reset E TRANSFER_STMT_DEL w;
          w2 = sqlite3_reset E TRANSFER_CLIENT_DEL_ALL w1;
          w3 = sqlite3_bind E TRANSFER_STMT_DEL 1 (SQL_INT t_id) w2;
          w4 = sqlite3_bind E TRANSFER_CLIENT_DEL_ALL 1 (SQL_INT t_id) w3;
          (_, w5) = sqlite3_step E TRANSFER_CLIENT_DEL_ALL w4;
          (_, w6) = sqlite3_step E TRANSFER_STMT_DEL w5
      in w6)"

definition db_create_transfer :: "'w env \<Rightarrow> client_id \<Rightarrow> 'w \<Rightarrow> transfer_id \<times> 'w" where
  "db_create_transfer E c_id w =
     (let w1 = sqlite3_reset E TRANSFER_STMT_CREATE w;
          w2 = sqlite3_bind E TRANSFER_STMT_CREATE 1 (SQL_INT c_id) w1;
          (rc, w3) = sqlite3_step E TRANSFER_STMT_CREATE w2
      in if rc \<noteq> SQLITE_DONE then (0, w3) else (sqlite3_last_insert_rowid E w3, w3))"

definition db_step_int64 :: "'w env \<Rightarrow> stmt \<Rightarrow> nat \<Rightarrow> 'w \<Rightarrow> u64 \<times> 'w" where
  "db_step_int64 E type row w =
     (let (rc, w1) = sqlite3_step E type w
      in if rc = SQLITE_ROW then (sqlite3_column_int64 E type row w1, w1) else (0, w1))"

definition db_get_transfer :: "'w env \<Rightarrow> client_id \<Rightarrow> 'w \<Rightarrow> transfer_id \<times> 'w" where
  "db_get_transfer E c_id w =
     (let w1 = sqlite3_reset E TRANSFER_STMT_GET w;
          w2 = sqlite3_bind E TRANSFER_STMT_GET 1 (SQL_INT c_id) w1
      in db_step_int64 E TRANSFER_STMT_GET 0 w2)"

definition db_transfer_step :: "'w env \<Rightarrow> 'w \<Rightarrow> u64 \<times> 'w" where
  "db_transfer_step E w = db_step_int64 E TRANSFER_STMT_GET 0 w"

definition db_get_client_all :: "'w env \<Rightarrow> transfer_id \<Rightarrow> 'w \<Rightarrow> client_id \<times> 'w" where
  "db_get_client_all E t_id w =
     (let w1 = sqlite3_reset E TRANSFER_CLIENT_GET_ALL w;
          w2 = sqlite3_bind E TRANSFER_CLIENT_GET_ALL 1 (SQL_INT t_id) w1
      in db_step_int64 E TRANSFER_CLIENT_GET_ALL 1 w2)"

definition db_client_all_step :: "'w env \<Rightarrow> 'w \<Rightarrow> client_id \<times> 'w" where
  "db_client_all_step E w = db_step_int64 E TRANSFER_CLIENT_GET_ALL 1 w"

definition db_get_client_all_accepted :: "'w env \<Rightarrow> transfer_id \<Rightarrow> 'w \<Rightarrow> client_id \<times> 'w" where
  "db_get_client_all_accepted E t_id w =
     (let w1 = sqlite3_reset E TRANSFER_CLIENT_GET_ALL_ACCEPTED w;
          w2 = sqlite3_bind E TRANSFER_CLIENT_GET_ALL_ACCEPTED 1 (SQL_INT t_id) w1
      in db_step_int64 E TRANSFER_CLIENT_GET_ALL_ACCEPTED 1 w2)"

definition db_client_all_step_accepted :: "'w env \<Rightarrow> 'w \<Rightarrow> client_id \<times> 'w" where
  "db_client_all_step_accepted E w = db_step_int64 E TRANSFER_CLIENT_GET_ALL_ACCEPTED 1 w"

record transfer_info =
  creator :: client_id
  info_t_id :: transfer_id

definition db_creator_step :: "'w env \<Rightarrow> 'w \<Rightarrow> transfer_info \<times> 'w" where
  "db_creator_step E w =
     (let info = \<lparr>creator = 0, info_t_id = 0\<rparr>; (rc, w1) = sqlite3_step E TRANSFER_GET_CREATOR w
      in if rc = SQLITE_ROW
         then (info\<lparr>info_t_id := sqlite3_column_int64 E TRANSFER_GET_CREATOR 0 w1,
                    creator := sqlite3_column_int64 E TRANSFER_GET_CREATOR 1 w1\<rparr>, w1)
         else (info, w1))"

definition db_get_creator :: "'w env \<Rightarrow> client_id \<Rightarrow> 'w \<Rightarrow> transfer_info \<times> 'w" where
  "db_get_creator E c_id w =
     (let w1 = sqlite3_reset E TRANSFER_GET_CREATOR w;
          w2 = sqlite3_bind E TRANSFER_GET_CREATOR 1 (SQL_INT c_id) w1
      in db_creator_step E w2)"

definition db_get_creator_by_tid :: "'w env \<Rightarrow> transfer_id \<Rightarrow> 'w \<Rightarrow> client_id \<times> 'w" where
  "db_get_creator_by_tid E t_id w =
     (let w1 = sqlite3_reset E TRANSFER_GET_CREATOR_BY_ID w;
          w2 = sqlite3_bind E TRANSFER_GET_CREATOR_BY_ID 1 (SQL_INT t_id) w1;
          (rc, w3) = sqlite3_step E TRANSFER_GET_CREATOR_BY_ID w2
      in if rc \<noteq> SQLITE_ROW then (0, w3)
         else (sqlite3_column_int64 E TRANSFER_GET_CREATOR_BY_ID 0 w3, w3))"

definition db_client_delete :: "'w env \<Rightarrow> client_id \<Rightarrow> 'w \<Rightarrow> 'w" where
  "db_client_delete E c_id w =
     (let w1 = sqlite3_reset E TRANSFER_CLIENT_DEL w;
          w2 = sqlite3_bind E TRANSFER_CLIENT_DEL 1 (SQL_INT c_id) w1
      in snd (sqlite3_step E TRANSFER_CLIENT_DEL w2))"

text \<open>\<^verbatim>\<open>accept\<close> is a C \<^verbatim>\<open>bool\<close>: any nonzero byte of the packet counts as 1.\<close>

definition db_client_accept :: "'w env \<Rightarrow> client_id \<Rightarrow> transfer_id \<Rightarrow> bool \<Rightarrow> 'w \<Rightarrow> 'w" where
  "db_client_accept E c_id t_id accept w =
     (let w1 = sqlite3_reset E TRANSFER_CLIENT_ACCEPT w;
          w2 = sqlite3_bind E TRANSFER_CLIENT_ACCEPT 1 (SQL_INT (of_bool accept)) w1;
          w3 = sqlite3_bind E TRANSFER_CLIENT_ACCEPT 2 (SQL_INT c_id) w2;
          w4 = sqlite3_bind E TRANSFER_CLIENT_ACCEPT 3 (SQL_INT t_id) w3
      in snd (sqlite3_step E TRANSFER_CLIENT_ACCEPT w4))"

definition db_create_client :: "'w env \<Rightarrow> transfer_id \<Rightarrow> client_id \<Rightarrow> 'w \<Rightarrow> bool \<times> 'w" where
  "db_create_client E t_id c_id w =
     (let w1 = sqlite3_reset E TRANSFER_CLIENT_CREATE w;
          w2 = sqlite3_bind E TRANSFER_CLIENT_CREATE 1 (SQL_INT t_id) w1;
          w3 = sqlite3_bind E TRANSFER_CLIENT_CREATE 2 (SQL_INT c_id) w2;
          (rc, w4) = sqlite3_step E TRANSFER_CLIENT_CREATE w3
      in (rc = SQLITE_DONE, w4))"


section \<open>Calls that only reach the database\<close>

text \<open>\<open>db_steps E w w'\<close>: \<open>w'\<close> results from \<open>w\<close> by calls of SQLite alone.\<close>

inductive db_steps :: "'w env \<Rightarrow> 'w \<Rightarrow> 'w \<Rightarrow> bool" for E :: "'w env" where
  db_refl: "db_steps E w w"
| db_reset: "db_steps E w w1 \<Longrightarrow> db_steps E w (sqlite3_reset E st w1)"
| db_bind: "db_steps E w w1 \<Longrightarrow> db_steps E w (sqlite3_bind E st i x w1)"
| db_step: "db_steps E w w1 \<Longrightarrow> sqlite3_step E st w1 = (rc, w2) \<Longrightarrow> db_steps E w w2"

lemmas db_calls = db_refl db_reset db_bind db_step

lemma db_steps_trans: "db_steps E w1 w2 \<Longrightarrow> db_steps E w w1 \<Longrightarrow> db_steps E w w2"
  by (induction rule: db_steps.induct) (auto intro: db_calls)

lemma db_steps_snd_step: "db_steps E w w1 \<Longrightarrow> db_steps E w (snd (sqlite3_step E st w1))"
  by (cases "sqlite3_step E st w1") (auto intro: db_step)

lemmas db_intros = db_refl db_reset db_bind db_steps_snd_step

definition db_only :: "'w env \<Rightarrow> ('w \<Rightarrow> 'a \<times> 'w) \<Rightarrow> bool" where
  "db_only E f \<longleftrightarrow> (\<forall>w. db_steps E w (snd (f w)))"

definition db_upd :: "'w env \<Rightarrow> ('w \<Rightarrow> 'w) \<Rightarrow> bool" where
  "db_upd E f \<longleftrightarrow> (\<forall>w. db_steps E w (f w))"

lemma db_only_step_int64: "db_steps E w w1 \<Longrightarrow> db_steps E w (snd (db_step_int64 E st i w1))"
  by (auto simp: db_step_int64_def Let_def case_prod_unfold intro!: db_intros)

lemma db_creator_step_steps: "db_steps E w w1 \<Longrightarrow> db_steps E w (snd (db_creator_step E w1))"
  by (auto simp: db_creator_step_def Let_def case_prod_unfold intro!: db_intros)

lemma db_functions_only [simp]:
  "db_only E (db_transaction E st)" "db_only E (db_create_session E name)" "db_only E (db_get_session E name)"
  "db_only E (db_create_transfer E c)" "db_only E (db_create_client E t c)" "db_only E (db_get_creator_by_tid E t)"
  by (auto simp: db_only_def db_transaction_def db_create_session_def db_get_session_def db_create_transfer_def
      db_create_client_def db_get_creator_by_tid_def Let_def case_prod_unfold intro!: db_intros)

lemma db_queries_only [simp]:
  "db_only E (db_get_transfer E c)" "db_only E (db_transfer_step E)" "db_only E (db_get_client_all E t)"
  "db_only E (db_client_all_step E)" "db_only E (db_get_client_all_accepted E t)"
  "db_only E (db_client_all_step_accepted E)" "db_only E (db_get_creator E c)" "db_only E (db_creator_step E)"
  by (auto simp: db_only_def db_get_transfer_def db_transfer_step_def db_get_client_all_def db_client_all_step_def
      db_get_client_all_accepted_def db_client_all_step_accepted_def db_get_creator_def Let_def
      intro!: db_only_step_int64 db_creator_step_steps db_intros)

lemma db_updates_only [simp]:
  "db_upd E (db_cleanup_transfer E t)" "db_upd E (db_client_delete E c)" "db_upd E (db_client_accept E c t b)"
  by (auto simp: db_upd_def db_cleanup_transfer_def db_client_delete_def db_client_accept_def Let_def
      case_prod_unfold intro!: db_intros)

section \<open>The tables and the meaning of the prepared statements\<close>

text \<open>
  The tables of \<^verbatim>\<open>db_init.sql\<close>: \<^verbatim>\<open>Sessions(name unique, id)\<close> (its time stamp is left out,
  no statement in use reads it), \<^verbatim>\<open>Transfers(transfer_id, creator_id)\<close> and
  \<^verbatim>\<open>TransferClients(transfer_id, client_id, accepted default -1)\<close>. The foreign key is declared
  but SQLite does not enforce it unless asked to, and the server does not ask.
\<close>

record tables =
  sessions :: "(bytes \<times> u64) list"
  transfers :: "(u64 \<times> u64) list"
  tclients :: "(u64 \<times> u64 \<times> u64) list"

text \<open>
  What a database connection holds: the tables, the copy a \<^verbatim>\<open>rollback\<close> restores (while a
  transaction is open), the bound parameters, the result rows of each started query (the
  current row first) and the last row id.
\<close>

record sql_view =
  tabs :: tables
  saved :: "tables option"
  params :: "stmt \<Rightarrow> nat \<Rightarrow> sqlval"
  cursor :: "stmt \<Rightarrow> sqlval list list option"
  last_rowid :: u64

definition is_select :: "stmt \<Rightarrow> bool" where
  "is_select st \<longleftrightarrow> st \<in> {SESSION_STMT_GET, TRANSFER_STMT_GET, TRANSFER_GET_CREATOR,
     TRANSFER_GET_CREATOR_BY_ID, TRANSFER_CLIENT_GET_ALL, TRANSFER_CLIENT_GET_ALL_ACCEPTED}"

fun select_rows :: "stmt \<Rightarrow> (nat \<Rightarrow> sqlval) \<Rightarrow> tables \<Rightarrow> sqlval list list" where
  "select_rows SESSION_STMT_GET b t =
     map (\<lambda>(n, i). [SQL_TEXT n, SQL_INT i, SQL_NULL])
       (filter (\<lambda>(n, i). SQL_TEXT n = b 1) (sessions t))"
| "select_rows TRANSFER_STMT_GET b t =
     map (\<lambda>(i, c). [SQL_INT i, SQL_INT c]) (filter (\<lambda>(i, c). SQL_INT c = b 1) (transfers t))"
| "select_rows TRANSFER_GET_CREATOR b t =
     concat (map (\<lambda>(j, k, a). if SQL_INT k = b 1
                             then map (\<lambda>(i, c). [SQL_INT i, SQL_INT c])
                                    (filter (\<lambda>(i, c). i = j) (transfers t))
                             else []) (tclients t))"
| "select_rows TRANSFER_GET_CREATOR_BY_ID b t =
     map (\<lambda>(i, c). [SQL_INT c]) (filter (\<lambda>(i, c). SQL_INT i = b 1) (transfers t))"
| "select_rows TRANSFER_CLIENT_GET_ALL b t =
     map (\<lambda>(i, c, a). [SQL_INT i, SQL_INT c, SQL_INT a])
       (filter (\<lambda>(i, c, a). SQL_INT i = b 1 \<and> a \<noteq> 0) (tclients t))"
| "select_rows TRANSFER_CLIENT_GET_ALL_ACCEPTED b t =
     map (\<lambda>(i, c, a). [SQL_INT i, SQL_INT c, SQL_INT a])
       (filter (\<lambda>(i, c, a). SQL_INT i = b 1 \<and> a = 1) (tclients t))"
| "select_rows _ b t = []"

lemma select_rows_param: "b 1 = c 1 \<Longrightarrow> select_rows st b t = select_rows st c t"
  by (cases st) simp_all

definition int_of :: "sqlval \<Rightarrow> u64" where
  "int_of x = (case x of SQL_INT v \<Rightarrow> v | _ \<Rightarrow> 0)"

definition text_of :: "sqlval \<Rightarrow> bytes" where
  "text_of x = (case x of SQL_TEXT s \<Rightarrow> s | _ \<Rightarrow> [])"

lemma sqlval_of [simp]: "int_of (SQL_INT v) = v" "text_of (SQL_TEXT s) = s"
  by (simp_all add: int_of_def text_of_def)

text \<open>
  The statements that change data or the transaction. \<open>rid\<close> is the row id SQLite chooses for
  an inserted row; \<open>None\<close> is an error, which changes nothing.
\<close>

fun sql_exec :: "u64 \<Rightarrow> stmt \<Rightarrow> sql_view \<Rightarrow> sql_view option" where
  "sql_exec rid SESSION_STMT_CREATE v =
     (let n = text_of (params v SESSION_STMT_CREATE 1) in
      if n \<in> fst ` set (sessions (tabs v)) then None
      else Some (v\<lparr>tabs := (tabs v)\<lparr>sessions := sessions (tabs v) @ [(n, rid)]\<rparr>, last_rowid := rid\<rparr>))"
| "sql_exec rid TRANSFER_STMT_CREATE v =
     Some (v\<lparr>tabs := (tabs v)\<lparr>transfers := transfers (tabs v) @
               [(rid, int_of (params v TRANSFER_STMT_CREATE 1))]\<rparr>, last_rowid := rid\<rparr>)"
| "sql_exec rid TRANSFER_STMT_DEL v =
     Some (v\<lparr>tabs := (tabs v)\<lparr>transfers :=
               [(i, c) \<leftarrow> transfers (tabs v). SQL_INT i \<noteq> params v TRANSFER_STMT_DEL 1]\<rparr>\<rparr>)"
| "sql_exec rid TRANSFER_CLIENT_CREATE v =
     Some (v\<lparr>tabs := (tabs v)\<lparr>tclients := tclients (tabs v) @
               [(int_of (params v TRANSFER_CLIENT_CREATE 1),
                 int_of (params v TRANSFER_CLIENT_CREATE 2), - 1)]\<rparr>, last_rowid := rid\<rparr>)"
| "sql_exec rid TRANSFER_CLIENT_ACCEPT v =
     Some (v\<lparr>tabs := (tabs v)\<lparr>tclients :=
               map (\<lambda>(i, c, a). (i, c, if SQL_INT c = params v TRANSFER_CLIENT_ACCEPT 2 \<and>
                                         SQL_INT i = params v TRANSFER_CLIENT_ACCEPT 3
                                      then int_of (params v TRANSFER_CLIENT_ACCEPT 1) else a))
                 (tclients (tabs v))\<rparr>\<rparr>)"
| "sql_exec rid TRANSFER_CLIENT_DEL v =
     Some (v\<lparr>tabs := (tabs v)\<lparr>tclients :=
               [(i, c, a) \<leftarrow> tclients (tabs v). SQL_INT c \<noteq> params v TRANSFER_CLIENT_DEL 1]\<rparr>\<rparr>)"
| "sql_exec rid TRANSFER_CLIENT_DEL_ALL v =
     Some (v\<lparr>tabs := (tabs v)\<lparr>tclients :=
               [(i, c, a) \<leftarrow> tclients (tabs v). SQL_INT i \<noteq> params v TRANSFER_CLIENT_DEL_ALL 1]\<rparr>\<rparr>)"
| "sql_exec rid BEGIN_TRANSACTION v =
     (case saved v of None \<Rightarrow> Some (v\<lparr>saved := Some (tabs v)\<rparr>) | Some _ \<Rightarrow> None)"
| "sql_exec rid COMMIT_TRANSACTION v =
     (case saved v of None \<Rightarrow> None | Some _ \<Rightarrow> Some (v\<lparr>saved := None\<rparr>))"
| "sql_exec rid ROLLBACK_TRANSACTION v =
     (case saved v of None \<Rightarrow> None | Some t \<Rightarrow> Some (v\<lparr>tabs := t, saved := None\<rparr>))"
| "sql_exec rid _ v = Some v"

definition sql_reset :: "stmt \<Rightarrow> sql_view \<Rightarrow> sql_view" where
  "sql_reset st v = v\<lparr>cursor := (cursor v)(st := None)\<rparr>"

definition sql_bind :: "stmt \<Rightarrow> nat \<Rightarrow> sqlval \<Rightarrow> sql_view \<Rightarrow> sql_view" where
  "sql_bind st i x v = v\<lparr>params := (params v)(st := (params v st)(i := x))\<rparr>"

definition sql_column :: "stmt \<Rightarrow> nat \<Rightarrow> sql_view \<Rightarrow> u64" where
  "sql_column st i v =
     (case cursor v st of Some (r # _) \<Rightarrow> if i < length r then int_of (r ! i) else 0 | _ \<Rightarrow> 0)"

text \<open>
  One \<^verbatim>\<open>sqlite3_step\<close>. A query that starts yields the rows \<open>rows\<close>, in an order SQLite chooses;
  after the last row it is reset. The rows are those that match when the query starts: SQLite
  leaves open whether a later change is seen, and the server only deletes rows that a query
  in progress has already returned.
\<close>

definition sql_deliver :: "stmt \<Rightarrow> sqlval list list \<Rightarrow> sql_view \<Rightarrow> sqlite_rc \<times> sql_view" where
  "sql_deliver st rs v =
     (case rs of [] \<Rightarrow> (SQLITE_DONE, v\<lparr>cursor := (cursor v)(st := None)\<rparr>)
      | _ # _ \<Rightarrow> (SQLITE_ROW, v\<lparr>cursor := (cursor v)(st := Some rs)\<rparr>))"

definition sql_step :: "u64 \<Rightarrow> sqlval list list \<Rightarrow> stmt \<Rightarrow> sql_view \<Rightarrow> sqlite_rc \<times> sql_view" where
  "sql_step rid rows st v =
     (if is_select st
      then (case cursor v st of None \<Rightarrow> sql_deliver st rows v | Some rs \<Rightarrow> sql_deliver st (tl rs) v)
      else (case sql_exec rid st v of None \<Rightarrow> (SQLITE_ERROR, v) | Some v1 \<Rightarrow> (SQLITE_DONE, v1)))"

definition valid_choice :: "stmt \<Rightarrow> sql_view \<Rightarrow> u64 \<Rightarrow> sqlval list list \<Rightarrow> bool" where
  "valid_choice st v rid rows \<longleftrightarrow>
     rid \<noteq> 0 \<and> mset rows = mset (select_rows st (params v st) (tabs v)) \<and>
     (st = SESSION_STMT_CREATE \<longrightarrow> rid \<notin> snd ` set (sessions (tabs v))) \<and>
     (st = TRANSFER_STMT_CREATE \<longrightarrow> rid \<notin> fst ` set (transfers (tabs v)))"


text \<open>The answers of the queries, as lists over the tables.\<close>

definition transfers_of :: "client_id \<Rightarrow> tables \<Rightarrow> transfer_id list" where
  "transfers_of c t = map fst (filter (\<lambda>(i, k). k = c) (transfers t))"

definition clients_of :: "transfer_id \<Rightarrow> tables \<Rightarrow> client_id list" where
  "clients_of t_id t = map (\<lambda>(i, c, a). c) (filter (\<lambda>(i, c, a). i = t_id \<and> a \<noteq> 0) (tclients t))"

definition accepted_of :: "transfer_id \<Rightarrow> tables \<Rightarrow> client_id list" where
  "accepted_of t_id t = map (\<lambda>(i, c, a). c) (filter (\<lambda>(i, c, a). i = t_id \<and> a = 1) (tclients t))"

definition creators_of :: "client_id \<Rightarrow> tables \<Rightarrow> (transfer_id \<times> client_id) list" where
  "creators_of c t = concat (map (\<lambda>(j, k, a). if k = c then filter (\<lambda>(i, x). i = j) (transfers t) else [])
                       (tclients t))"

lemma column_transfers_of:
  "map (\<lambda>q. int_of (q ! 0)) (select_rows TRANSFER_STMT_GET (\<lambda>_. SQL_INT c) t) = transfers_of c t"
  by (simp add: transfers_of_def case_prod_unfold o_def)

lemma column_clients_of:
  "map (\<lambda>q. int_of (q ! 1)) (select_rows TRANSFER_CLIENT_GET_ALL (\<lambda>_. SQL_INT d) t) = clients_of d t"
  by (simp add: clients_of_def case_prod_unfold o_def)

lemma column_accepted_of:
  "map (\<lambda>q. int_of (q ! 1)) (select_rows TRANSFER_CLIENT_GET_ALL_ACCEPTED (\<lambda>_. SQL_INT d) t) =
   accepted_of d t"
  by (simp add: accepted_of_def case_prod_unfold o_def)

lemma rows_creators_of:
  "select_rows TRANSFER_GET_CREATOR (\<lambda>_. SQL_INT c) t =
   map (\<lambda>(i, x). [SQL_INT i, SQL_INT x]) (creators_of c t)"
proof -
  have "concat (map (\<lambda>(j, k, a). if k = c then map f (filter (\<lambda>(i, c). i = j) ys) else []) xs) =
    map f (concat (map (\<lambda>(j, k, a). if k = c then filter (\<lambda>(i, x). i = j) ys else []) xs))"
    for xs :: "(u64 \<times> u64 \<times> u64) list" and ys :: "(u64 \<times> u64) list"
      and f :: "u64 \<times> u64 \<Rightarrow> sqlval list"
    by (induction xs) auto
  then show ?thesis by (simp add: creators_of_def)
qed

text \<open>Row ids do not run out: the tables that get new ids are far below \<open>2 ^ 64\<close> rows.\<close>

definition roomy :: "sql_view \<Rightarrow> bool" where
  "roomy v \<longleftrightarrow> length (sessions (tabs v)) < 2 ^ 63 \<and> length (transfers (tabs v)) < 2 ^ 63"

definition inserts_id :: "stmt \<Rightarrow> bool" where
  "inserts_id st \<longleftrightarrow> st = SESSION_STMT_CREATE \<or> st = TRANSFER_STMT_CREATE"

section \<open>Working SQLite: the contract\<close>

text \<open>
  \<open>view\<close> reads the connection out of the outside world. The library executes the statements
  as their SQL text says; failures of the disk or of memory are excluded here (the invariants
  of the server that do not speak of the tables are proved without this contract).
\<close>

text \<open>
  \<open>frame S v v'\<close>: the data and the transaction are as before, and so is every query in
  progress but those in \<open>S\<close>. \<open>queries_kept S v v'\<close> says only the latter.
\<close>

definition queries_kept :: "stmt set \<Rightarrow> sql_view \<Rightarrow> sql_view \<Rightarrow> bool" where
  "queries_kept S v v' \<longleftrightarrow> (\<forall>st. st \<notin> S \<longrightarrow> cursor v' st = cursor v st)"

definition frame :: "stmt set \<Rightarrow> sql_view \<Rightarrow> sql_view \<Rightarrow> bool" where
  "frame S v v' \<longleftrightarrow> tabs v' = tabs v \<and> saved v' = saved v \<and> queries_kept S v v'"

lemma frame_refl [simp]: "frame S v v"
  by (simp add: frame_def queries_kept_def)

lemma frame_trans: "frame S v1 v2 \<Longrightarrow> frame S v2 v3 \<Longrightarrow> frame S v1 v3"
  by (simp add: frame_def queries_kept_def)

lemma frame_mono: "frame S v1 v2 \<Longrightarrow> S \<subseteq> T \<Longrightarrow> frame T v1 v2"
  by (auto simp: frame_def queries_kept_def)

lemma frame_sql_reset: "st \<in> S \<Longrightarrow> frame S v (sql_reset st v)"
  and frame_sql_bind: "frame S v (sql_bind st i x v)"
  and frame_sql_deliver: "st \<in> S \<Longrightarrow> frame S v (snd (sql_deliver st rs v))"
  by (auto simp: sql_reset_def sql_bind_def sql_deliver_def frame_def queries_kept_def
      split: list.splits)

lemma mset_map_rearrange:
  "mset ys = image_mset f (mset xs) \<Longrightarrow> \<exists>zs. ys = map f zs \<and> mset zs = mset xs"
proof (induction ys arbitrary: xs)
  case Nil
  then show ?case by (intro exI [of _ "[]"]) simp
next
  case (Cons y ys)
  then have "y \<in># image_mset f (mset xs)" by (metis list.set_intros(1) set_mset_mset)
  then obtain x where x: "x \<in> set xs" "y = f x" by auto
  then have "image_mset f (mset xs) = add_mset y (image_mset f (mset (remove1 x xs)))"
    by (metis image_mset_add_mset insert_DiffM mset_remove1 set_mset_mset)
  with Cons.prems have "mset ys = image_mset f (mset (remove1 x xs))" by simp
  with Cons.IH obtain zs where "ys = map f zs" "mset zs = mset (remove1 x xs)" by blast
  with x show ?case by (intro exI [of _ "x # zs"]) simp
qed

locale sqlite =
  fixes E :: "'w env" and view :: "'w \<Rightarrow> sql_view"
  assumes view_reset: "view (sqlite3_reset E st w) = sql_reset st (view w)"
    and view_bind: "view (sqlite3_bind E st i x w) = sql_bind st i x (view w)"
    and view_step: "sqlite3_step E st w = (rc, w') \<Longrightarrow> inserts_id st \<longrightarrow> roomy (view w) \<Longrightarrow>
          \<exists>rid rows. valid_choice st (view w) rid rows \<and> (rc, view w') = sql_step rid rows st (view w)"
    and view_column: "sqlite3_column_int64 E st i w = sql_column st i (view w)"
    and view_rowid: "sqlite3_last_insert_rowid E w = last_rowid (view w)"
begin

text \<open>
  \<open>ready st i vs w\<close>: the query \<open>st\<close> is in progress and the next steps will yield the values
  \<open>vs\<close> in column \<open>i\<close>. \<open>feed st i x vs w\<close>: a loop that has just fetched \<open>x\<close> goes over \<open>vs\<close>.
\<close>

definition ready :: "stmt \<Rightarrow> nat \<Rightarrow> u64 list \<Rightarrow> 'w \<Rightarrow> bool" where
  "ready st i vs w \<longleftrightarrow> is_select st \<and> (\<exists>r rs. cursor (view w) st = Some (r # rs) \<and>
     (\<forall>q \<in> set rs. i < length q) \<and> map (\<lambda>q. int_of (q ! i)) rs = vs)"

definition feed :: "stmt \<Rightarrow> nat \<Rightarrow> u64 \<Rightarrow> u64 list \<Rightarrow> 'w \<Rightarrow> bool" where
  "feed st i x vs w \<longleftrightarrow>
     (case vs of [] \<Rightarrow> x = 0 | v # vs' \<Rightarrow> x = v \<and> ready st i vs' w)"

lemma ready_kept: "ready st i vs w \<Longrightarrow> queries_kept S (view w) (view w') \<Longrightarrow> st \<notin> S \<Longrightarrow> ready st i vs w'"
  by (simp add: ready_def queries_kept_def)

lemma feed_deliver:
  assumes "sqlite3_step E st w = (rc, w')" "(rc, view w') = sql_deliver st rs v"
    and "is_select st" "\<forall>q \<in> set rs. i < length q"
    and "db_step_int64 E st i w = (x, w'')"
  shows "w'' = w' \<and> feed st i x (map (\<lambda>q. int_of (q ! i)) rs) w'"
proof (cases rs)
  case Nil
  with assms show ?thesis by (auto simp: db_step_int64_def sql_deliver_def feed_def)
next
  case (Cons r rs')
  with assms have "rc = SQLITE_ROW" "cursor (view w') st = Some (r # rs')"
    by (auto simp: sql_deliver_def)
  with Cons assms show ?thesis
    by (auto simp: db_step_int64_def feed_def ready_def view_column sql_column_def)
qed

lemma step_ready:
  assumes "ready st i vs w" "db_step_int64 E st i w = (x, w')"
  shows "feed st i x vs w' \<and> frame {st} (view w) (view w')"
proof -
  obtain r rs where c: "cursor (view w) st = Some (r # rs)" "is_select st"
      "\<forall>q \<in> set rs. i < length q" "vs = map (\<lambda>q. int_of (q ! i)) rs"
    using assms(1) by (auto simp: ready_def)
  obtain rc w1 where s: "sqlite3_step E st w = (rc, w1)" by force
  have "\<not> inserts_id st" using c(2) by (auto simp: is_select_def inserts_id_def)
  with view_step [OF s] c have d: "(rc, view w1) = sql_deliver st rs (view w)"
    by (auto simp: sql_step_def)
  from feed_deliver [OF s d c(2,3) assms(2)] c(4) d frame_sql_deliver [of st "{st}" "view w" rs]
  show ?thesis by (metis insertI1 snd_conv)
qed

text \<open>A query started with one parameter: what it will yield, in some order.\<close>

lemma start_query:
  assumes "is_select st" "db_step_int64 E st i (sqlite3_bind E st 1 a (sqlite3_reset E st w)) = (x, w')"
    and "\<forall>q \<in> set (select_rows st (\<lambda>_. a) (tabs (view w))). i < length q"
    and "map (\<lambda>q. int_of (q ! i)) (select_rows st (\<lambda>_. a) (tabs (view w))) = ans"
  shows "\<exists>vs. mset vs = mset ans \<and>
           feed st i x vs w' \<and> frame {st} (view w) (view w')"
proof -
  let ?w = "sqlite3_bind E st 1 a (sqlite3_reset E st w)"
  have v: "view ?w = sql_bind st 1 a (sql_reset st (view w))"
    by (simp add: view_bind view_reset)
  have none: "cursor (view ?w) st = None" and t: "tabs (view ?w) = tabs (view w)"
    and p: "params (view ?w) st 1 = a"
    unfolding v by (simp_all add: sql_bind_def sql_reset_def)
  obtain rc w1 where s: "sqlite3_step E st ?w = (rc, w1)" by force
  have "\<not> inserts_id st" using assms(1) by (auto simp: is_select_def inserts_id_def)
  with view_step [OF s] obtain rid rows where c: "valid_choice st (view ?w) rid rows"
      "(rc, view w1) = sql_step rid rows st (view ?w)" by auto
  have rows: "mset rows = mset (select_rows st (\<lambda>_. a) (tabs (view w)))"
    using c(1) select_rows_param [of "params (view ?w) st" "\<lambda>_. a" st] p t by (simp add: valid_choice_def)
  then have set_rows: "set rows = set (select_rows st (\<lambda>_. a) (tabs (view w)))"
    by (metis set_mset_mset)
  have d: "(rc, view w1) = sql_deliver st rows (view ?w)"
    using c(2) none assms(1) by (simp add: sql_step_def)
  have "\<forall>q \<in> set rows. i < length q" using set_rows assms(3) by simp
  from feed_deliver [OF s d assms(1) this assms(2)]
  have f: "w' = w1" "feed st i x (map (\<lambda>q. int_of (q ! i)) rows) w1" by auto
  have "frame {st} (view w) (view ?w)"
    unfolding v by (simp add: frame_def queries_kept_def sql_bind_def sql_reset_def)
  moreover have "frame {st} (view ?w) (view w1)"
    using frame_sql_deliver [of st "{st}" "view ?w" rows] d by (metis insertI1 snd_conv)
  ultimately show ?thesis
    using f rows assms(4) by (metis (no_types, lifting) frame_trans mset_map)
qed

text \<open>The queries of the server.\<close>

lemma get_transfer:
  assumes "db_get_transfer E c w = (x, w')"
  shows "\<exists>vs. mset vs = mset (transfers_of c (tabs (view w))) \<and>
    feed TRANSFER_STMT_GET 0 x vs w' \<and> frame {TRANSFER_STMT_GET} (view w) (view w')"
  by (rule start_query [OF _ _ _ column_transfers_of])
    (use assms in \<open>auto simp: db_get_transfer_def Let_def is_select_def\<close>)

lemma get_client_all:
  assumes "db_get_client_all E t w = (x, w')"
  shows "\<exists>vs. mset vs = mset (clients_of t (tabs (view w))) \<and>
    feed TRANSFER_CLIENT_GET_ALL 1 x vs w' \<and> frame {TRANSFER_CLIENT_GET_ALL} (view w) (view w')"
  by (rule start_query [OF _ _ _ column_clients_of])
    (use assms in \<open>auto simp: db_get_client_all_def Let_def is_select_def\<close>)

lemma get_client_all_accepted:
  assumes "db_get_client_all_accepted E t w = (x, w')"
  shows "\<exists>vs. mset vs = mset (accepted_of t (tabs (view w))) \<and>
    feed TRANSFER_CLIENT_GET_ALL_ACCEPTED 1 x vs w' \<and>
    frame {TRANSFER_CLIENT_GET_ALL_ACCEPTED} (view w) (view w')"
  by (rule start_query [OF _ _ _ column_accepted_of])
    (use assms in \<open>auto simp: db_get_client_all_accepted_def Let_def is_select_def\<close>)

text \<open>The query over the transfers a client takes part in, read two columns at a time.\<close>

definition feed_creators :: "transfer_info \<Rightarrow> (transfer_id \<times> client_id) list \<Rightarrow> 'w \<Rightarrow> bool" where
  "feed_creators info vs w \<longleftrightarrow>
     (case vs of [] \<Rightarrow> creator info = 0
      | (t, c) # vs' \<Rightarrow> info_t_id info = t \<and> creator info = c \<and>
          (\<exists>r. cursor (view w) TRANSFER_GET_CREATOR =
               Some (r # map (\<lambda>(i, x). [SQL_INT i, SQL_INT x]) vs')))"

lemma feed_creators_kept:
  "feed_creators info (v # vs) w \<Longrightarrow> queries_kept S (view w) (view w') \<Longrightarrow> TRANSFER_GET_CREATOR \<notin> S \<Longrightarrow>
   feed_creators info (v # vs) w'"
  by (auto simp: feed_creators_def queries_kept_def)

lemma deliver_creators:
  assumes "sqlite3_step E TRANSFER_GET_CREATOR w = (rc, w1)"
    and "(rc, view w1) =
      sql_deliver TRANSFER_GET_CREATOR (map (\<lambda>(i, x). [SQL_INT i, SQL_INT x]) vs) v"
    and "db_creator_step E w = (info, w')"
  shows "w' = w1 \<and> feed_creators info vs w'"
proof (cases vs)
  case Nil
  with assms show ?thesis by (auto simp: db_creator_step_def sql_deliver_def feed_creators_def)
next
  case (Cons p vs')
  with assms show ?thesis
    by (cases p) (auto simp: db_creator_step_def sql_deliver_def feed_creators_def view_column
        sql_column_def)
qed

lemma creator_step:
  assumes "feed_creators i0 (v # vs) w" "db_creator_step E w = (info, w')"
  shows "feed_creators info vs w' \<and> frame {TRANSFER_GET_CREATOR} (view w) (view w')"
proof -
  obtain r where c: "cursor (view w) TRANSFER_GET_CREATOR =
      Some (r # map (\<lambda>(i, x). [SQL_INT i, SQL_INT x]) vs)"
    using assms(1) by (cases v) (auto simp: feed_creators_def)
  obtain rc w1 where s: "sqlite3_step E TRANSFER_GET_CREATOR w = (rc, w1)" by force
  have d: "(rc, view w1) =
      sql_deliver TRANSFER_GET_CREATOR (map (\<lambda>(i, x). [SQL_INT i, SQL_INT x]) vs) (view w)"
    using view_step [OF s] c by (auto simp: sql_step_def is_select_def inserts_id_def)
  from deliver_creators [OF s d assms(2)] d frame_sql_deliver
  show ?thesis by (metis insertI1 snd_conv)
qed

lemma get_creator:
  assumes "db_get_creator E c w = (info, w')"
  shows "\<exists>vs. mset vs = mset (creators_of c (tabs (view w))) \<and> feed_creators info vs w' \<and>
           frame {TRANSFER_GET_CREATOR} (view w) (view w')"
proof -
  let ?S = TRANSFER_GET_CREATOR
  let ?w = "sqlite3_bind E ?S 1 (SQL_INT c) (sqlite3_reset E ?S w)"
  have v: "view ?w = sql_bind ?S 1 (SQL_INT c) (sql_reset ?S (view w))"
    by (simp add: view_bind view_reset)
  obtain rc w1 where s: "sqlite3_step E ?S ?w = (rc, w1)" by force
  from view_step [OF s] obtain rid rows where ch: "valid_choice ?S (view ?w) rid rows"
      "(rc, view w1) = sql_step rid rows ?S (view ?w)" by (auto simp: inserts_id_def)
  have "select_rows ?S (params (view ?w) ?S) (tabs (view ?w)) =
      select_rows ?S (\<lambda>_. SQL_INT c) (tabs (view w))"
    unfolding v by (simp add: sql_bind_def sql_reset_def)
  then have "mset rows = image_mset (\<lambda>(i, x). [SQL_INT i, SQL_INT x])
      (mset (creators_of c (tabs (view w))))"
    using ch(1) rows_creators_of by (simp add: valid_choice_def)
  then obtain vs where vs: "rows = map (\<lambda>(i, x). [SQL_INT i, SQL_INT x]) vs"
      "mset vs = mset (creators_of c (tabs (view w)))"
    using mset_map_rearrange [of rows _ "creators_of c (tabs (view w))"] by auto
  have d: "(rc, view w1) = sql_deliver ?S rows (view ?w)"
    using ch(2) unfolding v by (simp add: sql_step_def is_select_def sql_bind_def sql_reset_def)
  have st: "db_creator_step E ?w = (info, w')"
    using assms by (simp add: db_get_creator_def Let_def)
  have "frame {?S} (view w) (view ?w)"
    unfolding v by (simp add: frame_def queries_kept_def sql_bind_def sql_reset_def)
  moreover have "frame {?S} (view ?w) (view w1)"
    using frame_sql_deliver [of ?S "{?S}"] d by (metis insertI1 snd_conv)
  ultimately show ?thesis
    using deliver_creators [OF s d [unfolded vs(1)] st] vs(2) frame_trans by blast
qed

text \<open>The other functions: a single step of a statement.\<close>

lemma exec_step:
  assumes "\<not> is_select st" "sqlite3_step E st w = (rc, w')" "inserts_id st \<longrightarrow> roomy (view w)"
  shows "\<exists>rid rows. valid_choice st (view w) rid rows \<and>
    rc = (if sql_exec rid st (view w) = None then SQLITE_ERROR else SQLITE_DONE) \<and>
    view w' = (case sql_exec rid st (view w) of None \<Rightarrow> view w | Some v \<Rightarrow> v)"
proof -
  obtain rid rows where ch: "valid_choice st (view w) rid rows"
      "(rc, view w') = sql_step rid rows st (view w)"
    using view_step [OF assms(2,3)] by blast
  then have "rc = (if sql_exec rid st (view w) = None then SQLITE_ERROR else SQLITE_DONE) \<and>
      view w' = (case sql_exec rid st (view w) of None \<Rightarrow> view w | Some v \<Rightarrow> v)"
    using assms(1) by (auto simp: sql_step_def split: option.splits)
  with ch(1) show ?thesis by blast
qed

lemma transaction_begin:
  assumes "db_transaction E BEGIN_TRANSACTION w = (b, w')"
  shows "b = (saved (view w) = None) \<and> tabs (view w') = tabs (view w) \<and>
    saved (view w') = Some (case saved (view w) of None \<Rightarrow> tabs (view w) | Some t \<Rightarrow> t) \<and>
    queries_kept {BEGIN_TRANSACTION} (view w) (view w')"
proof -
  obtain rc w1 where s: "sqlite3_step E BEGIN_TRANSACTION (sqlite3_reset E BEGIN_TRANSACTION w) = (rc, w1)"
    by force
  from exec_step [OF _ s] assms s show ?thesis
    by (auto simp: db_transaction_def view_reset sql_reset_def is_select_def inserts_id_def
        queries_kept_def split: option.splits)
qed

lemma transaction_commit:
  assumes "db_transaction E COMMIT_TRANSACTION w = (b, w')"
  shows "b = (saved (view w) \<noteq> None) \<and> tabs (view w') = tabs (view w) \<and> saved (view w') = None \<and>
    queries_kept {COMMIT_TRANSACTION} (view w) (view w')"
proof -
  obtain rc w1 where s: "sqlite3_step E COMMIT_TRANSACTION (sqlite3_reset E COMMIT_TRANSACTION w) = (rc, w1)"
    by force
  from exec_step [OF _ s] assms s show ?thesis
    by (auto simp: db_transaction_def view_reset sql_reset_def is_select_def inserts_id_def
        queries_kept_def split: option.splits)
qed

lemma transaction_rollback:
  assumes "db_transaction E ROLLBACK_TRANSACTION w = (b, w')"
  shows "b = (saved (view w) \<noteq> None) \<and> saved (view w') = None \<and>
    tabs (view w') = (case saved (view w) of None \<Rightarrow> tabs (view w) | Some t \<Rightarrow> t) \<and>
    queries_kept {ROLLBACK_TRANSACTION} (view w) (view w')"
proof -
  obtain rc w1 where s: "sqlite3_step E ROLLBACK_TRANSACTION (sqlite3_reset E ROLLBACK_TRANSACTION w) = (rc, w1)"
    by force
  from exec_step [OF _ s] assms s show ?thesis
    by (auto simp: db_transaction_def view_reset sql_reset_def is_select_def inserts_id_def
        queries_kept_def split: option.splits)
qed

lemma create_transfer:
  assumes "db_create_transfer E c w = (x, w')" "roomy (view w)"
  shows "x \<noteq> 0 \<and> x \<notin> fst ` set (transfers (tabs (view w))) \<and>
    tabs (view w') = (tabs (view w))\<lparr>transfers := transfers (tabs (view w)) @ [(x, c)]\<rparr> \<and>
    saved (view w') = saved (view w) \<and> queries_kept {TRANSFER_STMT_CREATE} (view w) (view w')"
proof -
  let ?w = "sqlite3_bind E TRANSFER_STMT_CREATE 1 (SQL_INT c) (sqlite3_reset E TRANSFER_STMT_CREATE w)"
  have v: "view ?w = sql_bind TRANSFER_STMT_CREATE 1 (SQL_INT c) (sql_reset TRANSFER_STMT_CREATE (view w))"
    by (simp add: view_bind view_reset)
  obtain rc w1 where s: "sqlite3_step E TRANSFER_STMT_CREATE ?w = (rc, w1)" by force
  have "roomy (view ?w)" unfolding v using assms(2) by (simp add: roomy_def sql_bind_def sql_reset_def)
  with exec_step [OF _ s] obtain rid rows where "valid_choice TRANSFER_STMT_CREATE (view ?w) rid rows"
      "rc = SQLITE_DONE" "Some (view w1) = sql_exec rid TRANSFER_STMT_CREATE (view ?w)"
    by (auto simp: is_select_def)
  with assms(1) s show ?thesis
    unfolding v by (auto simp: db_create_transfer_def Let_def view_rowid valid_choice_def sql_bind_def
        sql_reset_def queries_kept_def)
qed

lemma create_client:
  assumes "db_create_client E t c w = (b, w')"
  shows "b \<and> tabs (view w') = (tabs (view w))\<lparr>tclients := tclients (tabs (view w)) @ [(t, c, - 1)]\<rparr> \<and>
    saved (view w') = saved (view w) \<and> queries_kept {TRANSFER_CLIENT_CREATE} (view w) (view w')"
proof -
  let ?w = "sqlite3_bind E TRANSFER_CLIENT_CREATE 2 (SQL_INT c)
    (sqlite3_bind E TRANSFER_CLIENT_CREATE 1 (SQL_INT t) (sqlite3_reset E TRANSFER_CLIENT_CREATE w))"
  have v: "view ?w = sql_bind TRANSFER_CLIENT_CREATE 2 (SQL_INT c)
      (sql_bind TRANSFER_CLIENT_CREATE 1 (SQL_INT t) (sql_reset TRANSFER_CLIENT_CREATE (view w)))"
    by (simp add: view_bind view_reset)
  obtain rc w1 where s: "sqlite3_step E TRANSFER_CLIENT_CREATE ?w = (rc, w1)" by force
  from exec_step [OF _ s] obtain rid where
      "rc = SQLITE_DONE" "Some (view w1) = sql_exec rid TRANSFER_CLIENT_CREATE (view ?w)"
    by (auto simp: is_select_def inserts_id_def)
  with assms(1) s show ?thesis
    unfolding v by (auto simp: db_create_client_def Let_def sql_bind_def sql_reset_def queries_kept_def)
qed

lemma create_session:
  assumes "db_create_session E n w = (x, w')" "roomy (view w)"
  shows "saved (view w') = saved (view w) \<and> queries_kept {SESSION_STMT_CREATE} (view w) (view w') \<and>
    (if cstr n \<in> fst ` set (sessions (tabs (view w)))
     then x = 0 \<and> tabs (view w') = tabs (view w)
     else x \<noteq> 0 \<and> x \<notin> snd ` set (sessions (tabs (view w))) \<and>
       tabs (view w') = (tabs (view w))\<lparr>sessions := sessions (tabs (view w)) @ [(cstr n, x)]\<rparr>)"
proof -
  let ?w = "sqlite3_bind E SESSION_STMT_CREATE 1 (SQL_TEXT (cstr n)) (sqlite3_reset E SESSION_STMT_CREATE w)"
  have v: "view ?w = sql_bind SESSION_STMT_CREATE 1 (SQL_TEXT (cstr n)) (sql_reset SESSION_STMT_CREATE (view w))"
    by (simp add: view_bind view_reset)
  obtain rc w1 where s: "sqlite3_step E SESSION_STMT_CREATE ?w = (rc, w1)" by force
  have "roomy (view ?w)" unfolding v using assms(2) by (simp add: roomy_def sql_bind_def sql_reset_def)
  then obtain rid rows where ch: "valid_choice SESSION_STMT_CREATE (view ?w) rid rows"
      "rc = (if sql_exec rid SESSION_STMT_CREATE (view ?w) = None then SQLITE_ERROR else SQLITE_DONE)"
      "view w1 = (case sql_exec rid SESSION_STMT_CREATE (view ?w) of None \<Rightarrow> view ?w | Some u \<Rightarrow> u)"
    using exec_step [OF _ s] by (auto simp: is_select_def)
  have w': "w' = w1" "x = (if rc = SQLITE_DONE then last_rowid (view w1) else 0)"
    using assms(1) s by (auto simp: db_create_session_def Let_def view_rowid split: if_splits)
  show ?thesis
    using ch w' unfolding v
    by (auto simp: valid_choice_def sql_bind_def sql_reset_def queries_kept_def Let_def split: if_splits)
qed

lemma get_session:
  assumes "db_get_session E n w = (x, w')"
  shows "frame {SESSION_STMT_GET} (view w) (view w') \<and>
    (if cstr n \<in> fst ` set (sessions (tabs (view w)))
     then (cstr n, x) \<in> set (sessions (tabs (view w))) else x = 0)"
proof -
  let ?S = SESSION_STMT_GET
  have eq: "db_step_int64 E ?S 1 (sqlite3_bind E ?S 1 (SQL_TEXT (cstr n)) (sqlite3_reset E ?S w)) = (x, w')"
    using assms by (auto simp: db_get_session_def db_step_int64_def Let_def split: prod.splits if_splits)
  let ?ids = "map snd (filter (\<lambda>(m, i). m = cstr n) (sessions (tabs (view w))))"
  from start_query [OF _ eq, of ?ids] obtain vs where vs: "mset vs = mset ?ids" "feed ?S 1 x vs w'"
      "frame {?S} (view w) (view w')"
    by (auto simp: is_select_def case_prod_unfold o_def)
  have ids: "set vs = {i. (cstr n, i) \<in> set (sessions (tabs (view w)))}"
    using mset_eq_setD [OF vs(1)] by force
  show ?thesis
    using vs(2,3) ids by (cases vs) (force simp: feed_def)+
qed

lemma get_creator_by_tid:
  assumes "db_get_creator_by_tid E t w = (x, w')"
  shows "frame {TRANSFER_GET_CREATOR_BY_ID} (view w) (view w') \<and>
    (if t \<in> fst ` set (transfers (tabs (view w)))
     then (t, x) \<in> set (transfers (tabs (view w))) else x = 0)"
proof -
  let ?S = TRANSFER_GET_CREATOR_BY_ID
  have eq: "db_step_int64 E ?S 0 (sqlite3_bind E ?S 1 (SQL_INT t) (sqlite3_reset E ?S w)) = (x, w')"
    using assms by (auto simp: db_get_creator_by_tid_def db_step_int64_def Let_def
        split: prod.splits if_splits)
  let ?cs = "map snd (filter (\<lambda>(i, c). i = t) (transfers (tabs (view w))))"
  from start_query [OF _ eq, of ?cs] obtain vs where vs: "mset vs = mset ?cs" "feed ?S 0 x vs w'"
      "frame {?S} (view w) (view w')"
    by (auto simp: is_select_def case_prod_unfold o_def)
  have ids: "set vs = {c. (t, c) \<in> set (transfers (tabs (view w)))}"
    using mset_eq_setD [OF vs(1)] by force
  show ?thesis
    using vs(2,3) ids by (cases vs) (force simp: feed_def)+
qed

lemma client_delete:
  "tabs (view (db_client_delete E c w)) =
     (tabs (view w))\<lparr>tclients := filter (\<lambda>(i, k, a). k \<noteq> c) (tclients (tabs (view w)))\<rparr> \<and>
   saved (view (db_client_delete E c w)) = saved (view w) \<and>
   queries_kept {TRANSFER_CLIENT_DEL} (view w) (view (db_client_delete E c w))"
proof -
  let ?S = TRANSFER_CLIENT_DEL
  let ?w = "sqlite3_bind E ?S 1 (SQL_INT c) (sqlite3_reset E ?S w)"
  have v: "view ?w = sql_bind ?S 1 (SQL_INT c) (sql_reset ?S (view w))"
    by (simp add: view_bind view_reset)
  obtain rc w1 where s: "sqlite3_step E ?S ?w = (rc, w1)" by force
  from exec_step [OF _ s] have "Some (view w1) = sql_exec 0 ?S (view ?w)"
    by (auto simp: is_select_def inserts_id_def)
  then show ?thesis
    unfolding v by (auto simp: db_client_delete_def Let_def s [simplified] sql_bind_def sql_reset_def
        queries_kept_def)
qed

lemma client_accept:
  "tabs (view (db_client_accept E c t b w)) =
     (tabs (view w))\<lparr>tclients := map (\<lambda>(i, k, a). (i, k, if k = c \<and> i = t then of_bool b else a))
                                (tclients (tabs (view w)))\<rparr> \<and>
   saved (view (db_client_accept E c t b w)) = saved (view w) \<and>
   queries_kept {TRANSFER_CLIENT_ACCEPT} (view w) (view (db_client_accept E c t b w))"
proof -
  let ?S = TRANSFER_CLIENT_ACCEPT
  let ?w = "sqlite3_bind E ?S 3 (SQL_INT t) (sqlite3_bind E ?S 2 (SQL_INT c)
    (sqlite3_bind E ?S 1 (SQL_INT (of_bool b)) (sqlite3_reset E ?S w)))"
  have v: "view ?w = sql_bind ?S 3 (SQL_INT t) (sql_bind ?S 2 (SQL_INT c)
    (sql_bind ?S 1 (SQL_INT (of_bool b)) (sql_reset ?S (view w))))"
    by (simp add: view_bind view_reset)
  obtain rc w1 where s: "sqlite3_step E ?S ?w = (rc, w1)" by force
  from exec_step [OF _ s] have "Some (view w1) = sql_exec 0 ?S (view ?w)"
    by (auto simp: is_select_def inserts_id_def)
  then show ?thesis
    unfolding v by (simp add: db_client_accept_def Let_def s [simplified] sql_bind_def sql_reset_def
        queries_kept_def cong: if_cong)
qed

lemma cleanup_transfer:
  "tabs (view (db_cleanup_transfer E t w)) =
     (tabs (view w))\<lparr>transfers := filter (\<lambda>(i, c). i \<noteq> t) (transfers (tabs (view w))),
                    tclients := filter (\<lambda>(i, c, a). i \<noteq> t) (tclients (tabs (view w)))\<rparr> \<and>
   saved (view (db_cleanup_transfer E t w)) = saved (view w) \<and>
   queries_kept {TRANSFER_STMT_DEL, TRANSFER_CLIENT_DEL_ALL} (view w) (view (db_cleanup_transfer E t w))"
proof -
  let ?S = TRANSFER_STMT_DEL and ?T = TRANSFER_CLIENT_DEL_ALL
  let ?w = "sqlite3_bind E ?T 1 (SQL_INT t) (sqlite3_bind E ?S 1 (SQL_INT t)
    (sqlite3_reset E ?T (sqlite3_reset E ?S w)))"
  have v: "view ?w = sql_bind ?T 1 (SQL_INT t) (sql_bind ?S 1 (SQL_INT t)
    (sql_reset ?T (sql_reset ?S (view w))))"
    by (simp add: view_bind view_reset)
  obtain rc1 w1 where s1: "sqlite3_step E ?T ?w = (rc1, w1)" by force
  obtain rc2 w2 where s2: "sqlite3_step E ?S w1 = (rc2, w2)" by force
  from exec_step [OF _ s1] have e1: "Some (view w1) = sql_exec 0 ?T (view ?w)"
    by (auto simp: is_select_def inserts_id_def)
  from exec_step [OF _ s2] have e2: "Some (view w2) = sql_exec 0 ?S (view w1)"
    by (auto simp: is_select_def inserts_id_def)
  have "db_cleanup_transfer E t w = w2"
    using s1 s2 by (simp add: db_cleanup_transfer_def Let_def)
  then show ?thesis
    using e1 e2 unfolding v by (auto simp: sql_bind_def sql_reset_def queries_kept_def)
qed

end

section \<open>The contract is met\<close>

text \<open>
  The reference library: it keeps the connection itself as the outside world, gives rows in
  table order and takes the least unused row id. The other foreign calls are those of a
  machine with nothing to read and no connection waiting.
\<close>

definition least_free :: "u64 set \<Rightarrow> nat \<Rightarrow> u64" where
  "least_free used n = hd (filter (\<lambda>i. i \<notin> used) (map of_nat [1..<n + 2]))"

definition ref_rid :: "stmt \<Rightarrow> sql_view \<Rightarrow> u64" where
  "ref_rid st v =
     (if st = SESSION_STMT_CREATE
      then least_free (snd ` set (sessions (tabs v))) (length (sessions (tabs v)))
      else if st = TRANSFER_STMT_CREATE
      then least_free (fst ` set (transfers (tabs v))) (length (transfers (tabs v)))
      else 1)"

definition ref_env :: "sql_view env" where
  "ref_env = \<lparr>
     time_now = (\<lambda>w. (1, w)), errno_again = (\<lambda>_. True), server_running = (\<lambda>_. False),
     sys_read = (\<lambda>_ _ w. (Inl 1, w)), sys_write = (\<lambda>_ bs w. (int (length bs), w)),
     sys_close = (\<lambda>_ w. w),
     sys_accept = (\<lambda>_ w. ((- 1, \<lparr>sin_addr = 0, sin_port = 0\<rparr>), w)),
     fcntl_getfl = (\<lambda>_ w. (0, w)), fcntl_setfl = (\<lambda>_ _ w. (0, w)),
     epoll_ctl = (\<lambda>_ _ _ w. (0, w)), epoll_wait = (\<lambda>_ w. (Some [], w)),
     sqlite3_reset = sql_reset, sqlite3_bind = sql_bind,
     sqlite3_step = (\<lambda>st w. sql_step (ref_rid st w) (select_rows st (params w st) (tabs w)) st w),
     sqlite3_column_int64 = sql_column, sqlite3_last_insert_rowid = last_rowid,
     BIO_new_mem = (\<lambda>w. (1, w)), SSL_new = (\<lambda>w. (1, w)), SSL_set_accept_state = (\<lambda>_ w. w),
     SSL_set_bio = (\<lambda>_ _ _ w. w), SSL_do_handshake = (\<lambda>_ w. (1, w)),
     SSL_is_init_finished = (\<lambda>_ _. True), SSL_get_error = (\<lambda>_ _ _. SSL_ERROR_WANT_READ),
     SSL_read = (\<lambda>_ _ w. (Inl 1, w)), SSL_write = (\<lambda>_ bs w. (int (length bs), w)),
     SSL_shutdown = (\<lambda>_ w. (1, w)), SSL_free = (\<lambda>_ w. w),
     BIO_read = (\<lambda>_ _ w. (Inl 1, w)), BIO_write = (\<lambda>_ bs w. (int (length bs), w)),
     BIO_should_retry = (\<lambda>_ _. True)\<rparr>"

text \<open>A connection that has just been opened, on empty tables.\<close>

definition empty_view :: sql_view where
  "empty_view = \<lparr>tabs = \<lparr>sessions = [], transfers = [], tclients = []\<rparr>, saved = None,
     params = (\<lambda>_ _. SQL_NULL), cursor = (\<lambda>_. None), last_rowid = 0\<rparr>"

lemma least_free_unused:
  assumes "finite used" "card used \<le> n" "n < 2 ^ 63"
  shows "least_free used n \<notin> used \<and> least_free used n \<noteq> 0"
proof -
  let ?cs = "map of_nat [1..<n + 2] :: u64 list"
  have inj: "inj_on (of_nat :: nat \<Rightarrow> u64) {1..<n + 2}"
  proof (rule inj_onI)
    fix x y assume "x \<in> {1..<n + 2}" "y \<in> {1..<n + 2}" "(of_nat x :: u64) = of_nat y"
    with assms(3) show "x = y" by (simp add: word_of_nat_eq_iff take_bit_eq_mod)
  qed
  then have "card (set ?cs) = n + 1"
    by (simp only: set_map set_upt card_image card_atLeastLessThan)
  with assms have "\<not> set ?cs \<subseteq> used" using card_mono [of used "set ?cs"] by auto
  then have "filter (\<lambda>i. i \<notin> used) ?cs \<noteq> []" by (auto simp: filter_empty_conv)
  then have "least_free used n \<in> set (filter (\<lambda>i. i \<notin> used) ?cs)"
    unfolding least_free_def by (rule hd_in_set)
  then obtain i where "least_free used n = of_nat i" "0 < i" "i < n + 2" "least_free used n \<notin> used"
    by (simp only: set_filter mem_Collect_eq set_map set_upt) auto
  moreover have "(of_nat i :: u64) \<noteq> 0" if "0 < i" "i < n + 2" for i
    using that assms(3) by (auto simp: word_of_nat_eq_0_iff dest: dvd_imp_le)
  ultimately show ?thesis by simp
qed

lemma ref_rid_valid:
  assumes "inserts_id st \<longrightarrow> roomy v"
  shows "valid_choice st v (ref_rid st v) (select_rows st (params v st) (tabs v))"
proof -
  have "card (f ` set xs) \<le> length xs" for f :: "'x \<Rightarrow> u64" and xs :: "'x list"
    by (metis card_image_le card_length finite_set order_trans)
  then have "n < 2 ^ 63 \<Longrightarrow> length xs = n \<Longrightarrow>
      least_free (f ` set xs) n \<notin> f ` set xs \<and> least_free (f ` set xs) n \<noteq> 0"
    for f :: "'x \<Rightarrow> u64" and xs :: "'x list" and n
    by (intro least_free_unused) auto
  note free = this [OF _ refl]
  consider "st = SESSION_STMT_CREATE" | "st = TRANSFER_STMT_CREATE" | "\<not> inserts_id st"
    by (auto simp: inserts_id_def)
  then show ?thesis
  proof cases
    case 1
    with assms free [of "sessions (tabs v)" snd] show ?thesis
      by (simp add: valid_choice_def ref_rid_def inserts_id_def roomy_def)
  next
    case 2
    with assms free [of "transfers (tabs v)" fst] show ?thesis
      by (simp add: valid_choice_def ref_rid_def inserts_id_def roomy_def)
  next
    case 3
    then show ?thesis by (simp add: valid_choice_def ref_rid_def inserts_id_def)
  qed
qed

interpretation ref: sqlite ref_env "\<lambda>w. w"
proof unfold_locales
  fix st :: stmt and w w' :: sql_view and rc
  assume "sqlite3_step ref_env st w = (rc, w')" and r: "inserts_id st \<longrightarrow> roomy w"
  then have "(rc, w') = sql_step (ref_rid st w) (select_rows st (params w st) (tabs w)) st w"
    by (simp add: ref_env_def)
  with ref_rid_valid [OF r] show "\<exists>rid rows. valid_choice st w rid rows \<and> (rc, w') = sql_step rid rows st w"
    by blast
qed (simp_all add: ref_env_def)

interpretation ref_io: bounded_io ref_env
  by unfold_locales (auto simp: ref_env_def)

end
