(* ===== verification/Client.thy ===== *)
theory Client
  imports Queue Secure Database
begin

text \<open>
  The table of clients, \<^verbatim>\<open>qs_server/src/client.c\<close>: \<^verbatim>\<open>MAX_CLIENTS\<close> slots allocated once from
  the memory pool, taken by a connection and given back when it closes. A \<^verbatim>\<open>Client*\<close> is the
  index of its slot. The lemmas show which slot the searches return, that every operation keeps
  the table well formed, and that the pool is large enough for the table.
\<close>

abbreviation MAX_CLIENTS :: nat where "MAX_CLIENTS \<equiv> 32"

text \<open>\<^verbatim>\<open>sizeof(Client)\<close> on x86-64, the only architecture \<^verbatim>\<open>util.h\<close> accepts.\<close>

abbreviation sizeof_Client :: nat where "sizeof_Client \<equiv> 192"

datatype client_state = C_EMPTY | C_CONNECTED | C_SECURE | C_COMPLETE

record client =
  cl_id :: client_id
  cl_fd :: int
  cl_addr :: sockaddr_in
  cl_secure :: secure
  cl_state :: client_state
  cl_session_id :: session_id
  msg_queue :: queue
  cl_name :: bytes
  read_buf :: buffer
  decrypt_buf :: buffer

record client_list =
  c_list :: "client list"
  n_cli :: u32

section \<open>Operations\<close>

text \<open>
  One turn of the loop of \<^verbatim>\<open>client_list_init\<close>. \<open>mem a n\<close> are the bytes found in memory at \<open>a\<close>;
  the slot \<open>c\<close> comes from the memory of the table itself, which nothing clears.
\<close>

definition client_alloc :: "(u64 \<Rightarrow> nat \<Rightarrow> bytes) \<Rightarrow> client \<Rightarrow> memory_pool \<Rightarrow> fault + (client \<times> memory_pool)" where
  "client_alloc mem c pool =
     (let (rb, pool1) = BUFFER_ALLOC mem PACKET_MAX_SIZE pool;
          (db, pool2) = BUFFER_ALLOC mem PACKET_MAX_SIZE pool1;
          (eb, pool3) = BUFFER_ALLOC mem (PACKET_MAX_SIZE * 2) pool2;
          c1 = c\<lparr>read_buf := rb, decrypt_buf := db,
                 cl_secure := (cl_secure c)\<lparr>encrypted_buf := eb\<rparr>\<rparr>
      in if b_addr rb = 0 \<or> b_addr db = 0 \<or> b_addr eb = 0 then Inl Died
         else let a = fst (alloc (1440 * 16) pool3);
                  raw = map (\<lambda>i. mem (a + of_nat (PACKET_MAX_SIZE * i)) PACKET_MAX_SIZE)
                          [0..<MAX_CLIENTS div 2]
              in bindE (queue_init (msg_queue c1) raw 1440 16 pool3) (\<lambda>(ok, q, pool4).
                   if \<not> ok then Inl Died else Inr (c1\<lparr>msg_queue := q\<rparr>, pool4)))"

fun client_alloc_all :: "(u64 \<Rightarrow> nat \<Rightarrow> bytes) \<Rightarrow> client list \<Rightarrow> memory_pool \<Rightarrow>
    fault + (client list \<times> memory_pool)" where
  "client_alloc_all mem [] pool = Inr ([], pool)"
| "client_alloc_all mem (c # cs) pool =
     bindE (client_alloc mem c pool) (\<lambda>(c1, pool1).
       bindE (client_alloc_all mem cs pool1) (\<lambda>(cs1, pool2). Inr (c1 # cs1, pool2)))"

text \<open>\<open>found\<close> is the table as the memory of its first allocation holds it.\<close>

definition client_list_init :: "(u64 \<Rightarrow> nat \<Rightarrow> bytes) \<Rightarrow> client list \<Rightarrow> memory_pool \<Rightarrow>
    fault + (client_list \<times> memory_pool)" where
  "client_list_init mem found pool =
     (let (a, pool1) = alloc (of_nat (MAX_CLIENTS * sizeof_Client)) pool in
      if a = 0 then Inl Died
      else bindE (client_alloc_all mem found pool1) (\<lambda>(cs, pool2).
             Inr (\<lparr>c_list = cs, n_cli = 0\<rparr>, pool2)))"

definition client_configure :: "'w env \<Rightarrow> client \<Rightarrow> 'w \<Rightarrow> fault + (client \<times> 'w)" where
  "client_configure E c w =
     (let (now, w1) = time_now E w;
          c1 = c\<lparr>cl_state := C_CONNECTED, cl_id := now, cl_session_id := 0, cl_fd := 0,
                 cl_name := replicate PC_NAME_MAX_LEN 0\<rparr>
      in bindE (B_RESET (read_buf c1)) (\<lambda>rb.
         bindE (B_RESET (decrypt_buf c1)) (\<lambda>db.
         bindE (secure_init E (cl_secure c1) w1) (\<lambda>(s, w2).
         bindE (queue_reset (msg_queue c1)) (\<lambda>q.
           Inr (c1\<lparr>read_buf := rb, decrypt_buf := db, cl_secure := s, msg_queue := q\<rparr>, w2))))))"

definition client_init :: "'w env \<Rightarrow> client_list \<Rightarrow> 'w \<Rightarrow> fault + (nat option \<times> client_list \<times> 'w)" where
  "client_init E cl w =
     (if n_cli cl = 32 then Inr (None, cl, w)
      else case find (\<lambda>i. cl_state (c_list cl ! i) = C_EMPTY) [0..<MAX_CLIENTS] of
             None \<Rightarrow> Inr (None, cl, w)
           | Some i \<Rightarrow> bindE (client_configure E (c_list cl ! i) w) (\<lambda>(c, w1).
               Inr (Some i, cl\<lparr>c_list := (c_list cl)[i := c], n_cli := n_cli cl + 1\<rparr>, w1)))"

definition client_find :: "client_list \<Rightarrow> int \<Rightarrow> nat option" where
  "client_find cl fd =
     find (\<lambda>i. cl_state (c_list cl ! i) \<noteq> C_EMPTY \<and> cl_fd (c_list cl ! i) = fd) [0..<MAX_CLIENTS]"

definition client_find_by_id :: "client_list \<Rightarrow> client_id \<Rightarrow> nat option" where
  "client_find_by_id cl id' =
     find (\<lambda>i. cl_state (c_list cl ! i) \<noteq> C_EMPTY \<and> cl_id (c_list cl ! i) = id') [0..<MAX_CLIENTS]"

definition client_close :: "'w env \<Rightarrow> client_list \<Rightarrow> int \<Rightarrow> 'w \<Rightarrow> nat option \<times> client_list \<times> 'w" where
  "client_close E cl fd w =
     (case client_find cl fd of
        None \<Rightarrow> (None, cl, w)
      | Some i \<Rightarrow>
          (let c = (c_list cl ! i)\<lparr>cl_state := C_EMPTY\<rparr>;
               w1 = secure_free E (cl_secure c) w
           in (Some i, cl\<lparr>c_list := (c_list cl)[i := c], n_cli := n_cli cl - 1\<rparr>, w1)))"

section \<open>Well-formed tables\<close>

text \<open>
  The buffer of decrypted bytes: nothing is announced before the packet header is complete;
  afterwards \<^verbatim>\<open>size\<close> is the length in the header and no byte beyond the packet has been read.
\<close>

definition framed :: "buffer \<Rightarrow> bool" where
  "framed b \<longleftrightarrow>
     (if unat (b_len b) < sizeof_Packet_Hdr then b_size b = 0
      else b_size b = hdr_size (b_data b) \<and> unat (b_len b) \<le> sizeof_Packet_Hdr + unat (b_size b))"

definition fits_packet :: "packet \<Rightarrow> bool" where
  "fits_packet p \<longleftrightarrow> sizeof_Packet_Hdr + unat (hdr_size p) \<le> PACKET_MAX_SIZE"

definition client_ok :: "client \<Rightarrow> bool" where
  "client_ok c \<longleftrightarrow>
     buffer_ok PACKET_MAX_SIZE (read_buf c) \<and> b_size (read_buf c) = 0 \<and>
     buffer_ok PACKET_MAX_SIZE (decrypt_buf c) \<and> framed (decrypt_buf c) \<and>
     buffer_ok (2 * PACKET_MAX_SIZE) (encrypted_buf (cl_secure c)) \<and>
     b_size (encrypted_buf (cl_secure c)) = 0 \<and>
     queue_ok 1440 4 (msg_queue c) \<and> (\<forall>p \<in> set (queue_list (msg_queue c)). fits_packet p) \<and>
     length (cl_name c) = PC_NAME_MAX_LEN \<and> cl_name c ! 15 = 0 \<and>
     (cl_state c = C_COMPLETE \<longrightarrow> cl_session_id c \<noteq> 0)"

definition clients_ok :: "client_list \<Rightarrow> bool" where
  "clients_ok cl \<longleftrightarrow> length (c_list cl) = MAX_CLIENTS \<and> (\<forall>c \<in> set (c_list cl). client_ok c) \<and>
     unat (n_cli cl) = length (filter (\<lambda>c. cl_state c \<noteq> C_EMPTY) (c_list cl))"

lemma clients_ok_nth: "clients_ok cl \<Longrightarrow> i < MAX_CLIENTS \<Longrightarrow> client_ok (c_list cl ! i)"
  by (simp add: clients_ok_def)

lemma find_upt_Some:
  "find P [0..<n] = Some i \<longleftrightarrow> i < n \<and> P i \<and> (\<forall>j < i. \<not> P j)"
  by (auto simp: find_Some_iff)

lemma find_upt_None: "find P [0..<n] = None \<longleftrightarrow> (\<forall>i < n. \<not> P i)"
  by (auto simp: find_None_iff)

lemma client_find_Some:
  "client_find cl fd = Some i \<longleftrightarrow> i < MAX_CLIENTS \<and> cl_state (c_list cl ! i) \<noteq> C_EMPTY \<and>
     cl_fd (c_list cl ! i) = fd \<and>
     (\<forall>j < i. cl_state (c_list cl ! j) = C_EMPTY \<or> cl_fd (c_list cl ! j) \<noteq> fd)"
  by (auto simp: client_find_def find_upt_Some)

lemma client_find_by_id_Some:
  "client_find_by_id cl k = Some i \<longleftrightarrow> i < MAX_CLIENTS \<and> cl_state (c_list cl ! i) \<noteq> C_EMPTY \<and>
     cl_id (c_list cl ! i) = k \<and>
     (\<forall>j < i. cl_state (c_list cl ! j) = C_EMPTY \<or> cl_id (c_list cl ! j) \<noteq> k)"
  by (auto simp: client_find_by_id_def find_upt_Some)

lemma client_find_by_id_None:
  "client_find_by_id cl k = None \<longleftrightarrow>
     (\<forall>i < MAX_CLIENTS. cl_state (c_list cl ! i) = C_EMPTY \<or> cl_id (c_list cl ! i) \<noteq> k)"
  by (auto simp: client_find_by_id_def find_upt_None)

lemmas client_find_range = client_find_Some [THEN iffD1, THEN conjunct1]
  client_find_by_id_Some [THEN iffD1, THEN conjunct1]

text \<open>Replacing a slot, and the number of slots in use.\<close>

abbreviation in_use :: "client \<Rightarrow> bool" where "in_use c \<equiv> cl_state c \<noteq> C_EMPTY"

lemma filter_update_length:
  "i < length xs \<Longrightarrow> length (filter P (xs[i := x])) + of_bool (P (xs ! i)) =
     length (filter P xs) + of_bool (P x)"
proof (induction xs arbitrary: i)
  case (Cons a xs)
  then show ?case by (cases i) auto
qed simp

lemma in_use_count_le: "clients_ok cl \<Longrightarrow> unat (n_cli cl) \<le> MAX_CLIENTS"
  using length_filter_le [of in_use "c_list cl"] by (simp add: clients_ok_def)

lemma clients_ok_update:
  assumes "clients_ok cl" "i < MAX_CLIENTS" "client_ok c" "in_use c = in_use (c_list cl ! i)"
  shows "clients_ok (cl\<lparr>c_list := (c_list cl)[i := c]\<rparr>)"
  using assms filter_update_length [of i "c_list cl" in_use c]
  by (auto simp: clients_ok_def dest!: set_update_subset_insert [THEN subsetD])

lemma clients_ok_take:
  assumes "clients_ok cl" "i < MAX_CLIENTS" "client_ok c" "in_use c" "\<not> in_use (c_list cl ! i)"
  shows "clients_ok (cl\<lparr>c_list := (c_list cl)[i := c], n_cli := n_cli cl + 1\<rparr>)"
proof -
  have "unat (n_cli cl + 1) = unat (n_cli cl) + 1"
    using in_use_count_le [OF assms(1)] by (simp add: unat_word_ariths)
  then show ?thesis
    using assms filter_update_length [of i "c_list cl" in_use c]
    by (auto simp: clients_ok_def dest!: set_update_subset_insert [THEN subsetD])
qed

lemma clients_ok_release:
  assumes "clients_ok cl" "i < MAX_CLIENTS" "client_ok c" "\<not> in_use c" "in_use (c_list cl ! i)"
  shows "clients_ok (cl\<lparr>c_list := (c_list cl)[i := c], n_cli := n_cli cl - 1\<rparr>)"
proof -
  have count: "length (filter in_use ((c_list cl)[i := c])) + 1 = unat (n_cli cl)"
    using assms filter_update_length [of i "c_list cl" in_use c] by (simp add: clients_ok_def)
  then have "1 \<le> n_cli cl" by (simp add: word_le_nat_alt)
  then have "unat (n_cli cl - 1) = unat (n_cli cl) - 1" by (simp add: unat_sub word_le_nat_alt)
  with count show ?thesis
    using assms by (auto simp: clients_ok_def dest!: set_update_subset_insert [THEN subsetD])
qed

lemma client_configure_ok:
  assumes "client_configure E c w = Inr (c1, w1)" "client_ok c"
  shows "client_ok c1 \<and> cl_state c1 = C_CONNECTED \<and> cl_session_id c1 = 0 \<and> queue_list (msg_queue c1) = []
    \<and> cl_fd c1 = 0 \<and> cl_id c1 = fst (time_now E w) \<and> b_len (decrypt_buf c1) = 0 \<and> b_size (decrypt_buf c1) = 0 \<and> pending_out (cl_secure c1) = []"
proof -
  obtain now w0 where t: "time_now E w = (now, w0)" by force
  from assms(1) t obtain rb db s w2 q where
    *: "B_RESET (read_buf c) = Inr rb" "B_RESET (decrypt_buf c) = Inr db"
      "secure_init E (cl_secure c) w0 = Inr (s, w2)" "queue_reset (msg_queue c) = Inr q"
      "c1 = c\<lparr>cl_state := C_CONNECTED, cl_id := now, cl_session_id := 0, cl_fd := 0,
              cl_name := replicate PC_NAME_MAX_LEN 0, read_buf := rb, decrypt_buf := db, cl_secure := s,
              msg_queue := q\<rparr>"
    by (auto simp: client_configure_def Let_def split: prod.splits)
  have ok: "buffer_ok 1440 (read_buf c)" "buffer_ok 1440 (decrypt_buf c)"
    "buffer_ok (2 * 1440) (encrypted_buf (cl_secure c))" "queue_ok 1440 4 (msg_queue c)"
    "b_size (encrypted_buf (cl_secure c)) = 0"
    using assms(2) by (auto simp: client_ok_def)
  from queue_reset_ok [OF queue_ok_shape [OF ok(4)]] *(4) have "queue_ok 1440 4 q" "queue_list q = []"
    by auto
  with B_RESET_ok [OF ok(1) *(1)] B_RESET_ok [OF ok(2) *(2)] secure_init_ok [OF *(3) ok(3)] ok(5) *(5) t
  show ?thesis by (simp add: client_ok_def pending_out_def framed_def)
qed

lemma client_init_ok:
  assumes "client_init E cl w = Inr (r, cl1, w1)" "clients_ok cl"
  shows "clients_ok cl1 \<and>
    (case r of
       None \<Rightarrow> cl1 = cl \<and> w1 = w \<and> (\<forall>i < MAX_CLIENTS. in_use (c_list cl ! i))
     | Some i \<Rightarrow> i < MAX_CLIENTS \<and> \<not> in_use (c_list cl ! i) \<and> (\<forall>j < i. in_use (c_list cl ! j)) \<and>
         c_list cl1 = (c_list cl)[i := c_list cl1 ! i] \<and> cl_state (c_list cl1 ! i) = C_CONNECTED \<and>
         cl_session_id (c_list cl1 ! i) = 0 \<and> queue_list (msg_queue (c_list cl1 ! i)) = [] \<and>
         cl_fd (c_list cl1 ! i) = 0 \<and> cl_id (c_list cl1 ! i) = fst (time_now E w) \<and>
         b_len (decrypt_buf (c_list cl1 ! i)) = 0 \<and> pending_out (cl_secure (c_list cl1 ! i)) = [])"
proof (cases "find (\<lambda>i. cl_state (c_list cl ! i) = C_EMPTY) [0..<MAX_CLIENTS]")
  case None
  have all: "\<forall>i < MAX_CLIENTS. in_use (c_list cl ! i)"
    using None [unfolded find_upt_None] by simp
  have "r = None \<and> cl1 = cl \<and> w1 = w"
    using assms(1) unfolding client_init_def None by (auto split: if_splits)
  with all assms(2) show ?thesis by simp
next
  case (Some i)
  then have i: "i < MAX_CLIENTS" "\<not> in_use (c_list cl ! i)" "\<forall>j < i. in_use (c_list cl ! j)"
    by (auto simp: find_upt_Some)
  have len: "length (c_list cl) = 32" using assms(2) by (simp add: clients_ok_def)
  have not_full: "n_cli cl \<noteq> 32"
  proof
    assume "n_cli cl = 32"
    then have "length (filter in_use (c_list cl)) = length (c_list cl)"
      using assms(2) by (simp add: clients_ok_def)
    with length_filter_less [of "c_list cl ! i" "c_list cl" in_use] i len show False by simp
  qed
  with Some assms(1) obtain c w2 where c: "client_configure E (c_list cl ! i) w = Inr (c, w2)"
      "r = Some i" "cl1 = cl\<lparr>c_list := (c_list cl)[i := c], n_cli := n_cli cl + 1\<rparr>"
    by (auto simp: client_init_def)
  note new = client_configure_ok [OF c(1) clients_ok_nth [OF assms(2) i(1)]]
  then have "in_use c" by simp
  with clients_ok_take [OF assms(2) i(1) _ _ i(2)] new have "clients_ok cl1" unfolding c(3) by blast
  moreover have "c_list cl1 ! i = c" "c_list cl1 = (c_list cl)[i := c]" using c(3) i(1) len by simp_all
  ultimately show ?thesis
    using new i unfolding c(2) by (simp only: option.case) blast
qed

lemma client_configure_total:
  assumes "client_ok c" "unat (b_size (decrypt_buf c)) \<le> 1440"
  shows "\<exists>c1 w1. client_configure E c w = Inr (c1, w1)"
proof -
  obtain q where "queue_reset (msg_queue c) = Inr q"
    using queue_reset_ok [OF queue_ok_shape] assms(1) by (fastforce simp: client_ok_def)
  with assms show ?thesis
    by (simp add: client_configure_def client_ok_def B_RESET_def B_ZERO_def buffer_ok_def
        secure_init_def case_prod_unfold Let_def)
qed

lemma client_configure_overflow:
  assumes "client_ok c" "1440 < unat (b_size (decrypt_buf c))"
  shows "client_configure E c w = Inl Undefined"
  using assms by (simp add: client_configure_def client_ok_def B_RESET_def B_ZERO_def buffer_ok_def
      case_prod_unfold Let_def)

lemma not_full: "clients_ok cl \<Longrightarrow> i < MAX_CLIENTS \<Longrightarrow> \<not> in_use (c_list cl ! i) \<Longrightarrow> n_cli cl \<noteq> 32"
  using length_filter_less [of "c_list cl ! i" "c_list cl" in_use] by (auto simp: clients_ok_def)

lemma client_init_Some:
  assumes "clients_ok cl" "find (\<lambda>i. \<not> in_use (c_list cl ! i)) [0..<MAX_CLIENTS] = Some i"
    and "unat (b_size (decrypt_buf (c_list cl ! i))) \<le> PACKET_MAX_SIZE"
  shows "\<exists>c w1. client_init E cl w =
     Inr (Some i, cl\<lparr>c_list := (c_list cl)[i := c], n_cli := n_cli cl + 1\<rparr>, w1)"
proof -
  from assms(2) have i: "i < MAX_CLIENTS" "\<not> in_use (c_list cl ! i)" by (auto simp: find_upt_Some)
  with client_configure_total [OF clients_ok_nth [OF assms(1) i(1)] assms(3), of E w] obtain c w1
    where "client_configure E (c_list cl ! i) w = Inr (c, w1)" by blast
  with not_full [OF assms(1) i] assms(2) show ?thesis by (auto simp: client_init_def)
qed

lemma client_close_ok:
  assumes "client_close E cl fd w = (r, cl1, w1)" "clients_ok cl"
  shows "clients_ok cl1"
proof (cases "client_find cl fd")
  case None
  with assms show ?thesis by (simp add: client_close_def)
next
  case (Some i)
  let ?c = "(c_list cl ! i)\<lparr>cl_state := C_EMPTY\<rparr>"
  from Some have i: "i < MAX_CLIENTS" "in_use (c_list cl ! i)" by (auto simp: client_find_Some)
  have "client_ok ?c" using clients_ok_nth [OF assms(2) i(1)] by (simp add: client_ok_def)
  from clients_ok_release [OF assms(2) i(1) this _ i(2)] Some assms(1) show ?thesis
    by (simp add: client_close_def Let_def)
qed

section \<open>The pool is large enough for the table\<close>

text \<open>Each client takes 28800 bytes of buffers and queue elements.\<close>

abbreviation client_bytes :: nat where "client_bytes \<equiv> 28800"

definition pool_room :: "memory_pool \<Rightarrow> nat \<Rightarrow> bool" where
  "pool_room p n \<longleftrightarrow> pool_ok p \<and> unat (blk_end (root p)) < 2 ^ 62 \<and>
     unat (mem_used p) + n \<le> unat (block_size p)"

lemma alloc_room:
  assumes "pool_room p (m + n)" "unat sz = m" "m mod 8 = 0"
  shows "\<exists>a p1. alloc sz p = (a, p1) \<and> a \<noteq> 0 \<and> pool_room p1 n"
proof -
  have free: "unat (blk_free (root p)) \<le> unat (blk_end (root p))" "m \<le> unat (blk_end (root p))"
    using assms(1) by (auto simp: pool_room_def pool_ok_def)
  then have small: "unat (blk_free (root p)) + unat sz + 7 < 2 ^ 64"
    and small': "unat (blk_end (root p)) + unat sz + 7 < 2 ^ 64"
    using assms(1,2) by (simp_all add: pool_room_def)
  have "blk_free (root p) \<noteq> 0"
    using assms(1) by (auto simp: pool_room_def pool_ok_def unat_eq_zero)
  moreover obtain p1 where p1: "alloc sz p = (blk_free (root p), p1)" "pool_ok p1"
      "unat (mem_used p1) = unat (mem_used p) + m" "block_size p1 = block_size p"
    using alloc_cases(1) [OF _ small refl] assms by (auto simp: pool_room_def round8_multiple)
  moreover have "blk_end (root p1) = blk_end (root p)"
    using alloc_step(3) [OF _ small' p1(1)] assms(1) by (simp add: pool_room_def)
  ultimately show ?thesis using assms(1) by (auto simp: pool_room_def)
qed

lemma BUFFER_ALLOC_room:
  assumes "pool_room p (m + n)" "m < 2 ^ 32" "m mod 8 = 0" "length (mem (fst (alloc (of_nat m) p)) m) = m"
  shows "\<exists>b p1. BUFFER_ALLOC mem m p = (b, p1) \<and> b_addr b \<noteq> 0 \<and> buffer_ok m b \<and> b_len b = 0 \<and>
    b_size b = 0 \<and> pool_room p1 n"
proof -
  have "unat (of_nat m :: u64) = m" using assms(2) by (simp add: unat_of_nat)
  from alloc_room [OF assms(1) this assms(3)] obtain a p1 where
    "alloc (of_nat m) p = (a, p1)" "a \<noteq> 0" "pool_room p1 n" by blast
  with assms(2,4) show ?thesis
    by (auto simp: BUFFER_ALLOC_def buffer_ok_def unat_of_nat)
qed

text \<open>What the table needs of the memory it is laid over: the fields nothing sets are 0.\<close>

definition zeroed :: "client \<Rightarrow> bool" where
  "zeroed c \<longleftrightarrow> cl_state c = C_EMPTY \<and> cl_session_id c = 0 \<and> cl_name c = replicate PC_NAME_MAX_LEN 0 \<and>
     q_len (msg_queue c) = 0 \<and> q_size (msg_queue c) = 0"

lemma client_alloc_room:
  assumes room: "pool_room p (client_bytes + n)" and mem: "\<And>a k. length (mem a k) = k" and z: "zeroed c"
  shows "\<exists>c1 p1. client_alloc mem c p = Inr (c1, p1) \<and> client_ok c1 \<and> \<not> in_use c1 \<and> pool_room p1 n"
proof -
  from BUFFER_ALLOC_room [of p 1440 "27360 + n" mem] room mem obtain rb p1 where
    1: "BUFFER_ALLOC mem 1440 p = (rb, p1)" "b_addr rb \<noteq> 0" "buffer_ok 1440 rb" "b_len rb = 0" "b_size rb = 0"
      "pool_room p1 (27360 + n)" by auto
  from BUFFER_ALLOC_room [of p1 1440 "25920 + n" mem] 1(6) mem obtain db p2 where
    2: "BUFFER_ALLOC mem 1440 p1 = (db, p2)" "b_addr db \<noteq> 0" "buffer_ok 1440 db" "b_len db = 0" "b_size db = 0"
      "pool_room p2 (25920 + n)" by auto
  from BUFFER_ALLOC_room [of p2 2880 "23040 + n" mem] 2(6) mem obtain eb p3 where
    3: "BUFFER_ALLOC mem 2880 p2 = (eb, p3)" "b_addr eb \<noteq> 0" "buffer_ok 2880 eb" "b_len eb = 0" "b_size eb = 0"
      "pool_room p3 (23040 + n)" by auto
  from alloc_room [OF 3(6), of 23040] obtain a p4 where 4: "alloc 23040 p3 = (a, p4)" "a \<noteq> 0" "pool_room p4 n"
    by auto
  let ?raw = "map (\<lambda>i. mem (a + of_nat (PACKET_MAX_SIZE * i)) PACKET_MAX_SIZE) [0..<16]"
  let ?q = "(msg_queue c)\<lparr>q_items := a, q_slots := ?raw, q_head := 0, q_tail := 0, q_count := 0,
              q_len := 16, q_size := 1440\<rparr>"
  have q: "queue_init (msg_queue c) ?raw 1440 16 p3 = Inr (True, ?q, p4)"
    using z 4 by (simp add: queue_init_def queue_reset_def zeroed_def memset0_none Let_def del: upt_rec_numeral)
  have "queue_ok 1440 4 ?q" "queue_list ?q = []"
    using mem by (simp_all add: queue_ok_def queue_list_def del: upt_rec_numeral)
  with q 1 2 3 4 z show ?thesis
    by (simp add: client_alloc_def client_ok_def framed_def zeroed_def Let_def del: upt_rec_numeral)
qed

lemma client_alloc_all_room:
  assumes "\<And>a k. length (mem a k) = k"
  shows "pool_room p (client_bytes * length cs + n) \<Longrightarrow> \<forall>c \<in> set cs. zeroed c \<Longrightarrow>
    \<exists>cs1 p1. client_alloc_all mem cs p = Inr (cs1, p1) \<and> length cs1 = length cs \<and>
      (\<forall>c \<in> set cs1. client_ok c \<and> \<not> in_use c) \<and> pool_room p1 n"
proof (induction cs arbitrary: p)
  case (Cons c cs)
  have "pool_room p (client_bytes + (client_bytes * length cs + n))"
    using Cons.prems(1) by (simp add: algebra_simps)
  from client_alloc_room [OF this, of mem c] assms Cons.prems(2) obtain c1 p1 where
    *: "client_alloc mem c p = Inr (c1, p1)" "client_ok c1" "\<not> in_use c1"
      "pool_room p1 (client_bytes * length cs + n)" by auto
  from Cons.IH [OF *(4)] Cons.prems(2) * show ?case by auto
qed simp

section \<open>Properties\<close>

text \<open>
  A pool of \<^verbatim>\<open>MEM_POOL_SIZE\<close> bytes is enough for the whole table: on zeroed memory
  \<^verbatim>\<open>client_list_init\<close> succeeds, yields 32 free well-formed slots, and leaves room for the 64
  events that \<^verbatim>\<open>setup_poll\<close> allocates next (12 bytes each).
\<close>

theorem client_list_init_spec:
  assumes "mem_pool_init malloc MEM_POOL_SIZE p0 = (True, p)"
    and "unat (malloc MEM_POOL_SIZE) < 2 ^ 61" "unat (malloc MEM_POOL_SIZE) mod 8 = 0"
    and "\<forall>a k. length (mem a k) = k" "length found = MAX_CLIENTS" "\<forall>c \<in> set found. zeroed c"
  shows "\<exists>cl p1. client_list_init mem found p = Inr (cl, p1) \<and> clients_ok cl \<and> n_cli cl = 0 \<and>
    (\<forall>i < MAX_CLIENTS. \<not> in_use (c_list cl ! i)) \<and> fst (alloc (64 * 12) p1) \<noteq> 0"
proof -
  let ?a = "malloc MEM_POOL_SIZE"
  have nz: "?a \<noteq> 0" using assms(1) mem_pool_init_fail [of malloc] by (metis fst_conv)
  then have p: "pool_ok p" "mem_used p = 0" "blk_mem (root p) = ?a" "block_size p = MEM_POOL_SIZE"
    using mem_pool_init_ok [of malloc MEM_POOL_SIZE, OF refl nz _ assms(3), of p0] assms(1,2) by auto
  then have "pool_room p (6144 + (client_bytes * 32 + 768))"
    using assms(2) by (simp add: pool_room_def pool_ok_def)
  from alloc_room [OF this, of 6144] obtain a p1 where
    1: "alloc 6144 p = (a, p1)" "a \<noteq> 0" "pool_room p1 (client_bytes * length found + 768)"
    using assms(5) by auto
  from client_alloc_all_room [OF _ 1(3) assms(6), of mem] assms(4,5) obtain cs p2 where
    2: "client_alloc_all mem found p1 = Inr (cs, p2)" "length cs = 32" "\<forall>c \<in> set cs. client_ok c \<and> \<not> in_use c"
      "pool_room p2 768" by auto
  have "clients_ok \<lparr>c_list = cs, n_cli = 0\<rparr>"
    using 2 by (simp add: clients_ok_def filter_empty_conv [THEN iffD2])
  moreover have "fst (alloc 768 p2) \<noteq> 0" using alloc_room [of p2 768 0 768] 2(4) by auto
  ultimately show ?thesis using 1 2 by (simp add: client_list_init_def)
qed

definition zero_buffer :: buffer where
  "zero_buffer = \<lparr>b_addr = 0, b_data = [], b_len = 0, b_size = 0, b_bytes = 0\<rparr>"

definition zero_client :: client where
  "zero_client = \<lparr>cl_id = 0, cl_fd = 0, cl_addr = \<lparr>sin_addr = 0, sin_port = 0\<rparr>,
     cl_secure = \<lparr>ssl = 0, r_bio = 0, w_bio = 0, encrypted_buf = zero_buffer\<rparr>,
     cl_state = C_EMPTY, cl_session_id = 0, msg_queue = zero_queue,
     cl_name = replicate PC_NAME_MAX_LEN 0, read_buf = zero_buffer, decrypt_buf = zero_buffer\<rparr>"

theorem client_list_init_spec_witness:
  "\<exists>cl p1. client_list_init (\<lambda>a k. replicate k 7) (replicate MAX_CLIENTS zero_client)
     (snd (mem_pool_init (\<lambda>_. 4096) MEM_POOL_SIZE example_pool)) = Inr (cl, p1) \<and> clients_ok cl"
proof -
  have "zeroed zero_client" by (simp add: zeroed_def zero_client_def zero_queue_def)
  moreover have "fst (mem_pool_init (\<lambda>_. 4096) MEM_POOL_SIZE example_pool)"
    by (simp add: mem_pool_init_def init_block_def Let_def)
  ultimately show ?thesis
    using client_list_init_spec [of "\<lambda>_. 4096" example_pool _ "\<lambda>a k. replicate k 7" "replicate 32 zero_client"]
    by (auto simp: prod_eq_iff)
qed

text \<open>
  C23: \<^verbatim>\<open>client_init\<close> takes the first free slot and returns NULL exactly when every slot is in
  use. The slot starts connected, in no session, with empty buffers and an empty message queue,
  the others keep their contents. It leaves the defined behaviour exactly when the packet the
  slot's last owner left unfinished announced more than \<^verbatim>\<open>PACKET_MAX_SIZE\<close> bytes.
\<close>

theorem client_init_spec:
  assumes "clients_ok cl"
  shows "case find (\<lambda>i. \<not> in_use (c_list cl ! i)) [0..<MAX_CLIENTS] of
      None \<Rightarrow> client_init E cl w = Inr (None, cl, w)
    | Some i \<Rightarrow>
        if PACKET_MAX_SIZE < unat (b_size (decrypt_buf (c_list cl ! i)))
        then client_init E cl w = Inl Undefined
        else \<exists>c w1. client_init E cl w =
               Inr (Some i, cl\<lparr>c_list := (c_list cl)[i := c], n_cli := n_cli cl + 1\<rparr>, w1) \<and>
             clients_ok (cl\<lparr>c_list := (c_list cl)[i := c], n_cli := n_cli cl + 1\<rparr>) \<and>
             cl_state c = C_CONNECTED \<and> cl_session_id c = 0 \<and> queue_list (msg_queue c) = [] \<and>
             b_len (decrypt_buf c) = 0 \<and> pending_out (cl_secure c) = []"
proof (cases "find (\<lambda>i. cl_state (c_list cl ! i) = C_EMPTY) [0..<MAX_CLIENTS]")
  case None
  then show ?thesis by (simp add: client_init_def)
next
  case (Some i)
  then have i: "i < MAX_CLIENTS" "\<not> in_use (c_list cl ! i)" by (auto simp: find_upt_Some)
  note ok = clients_ok_nth [OF assms i(1)]
  have n: "n_cli cl \<noteq> 32" by (rule not_full [OF assms i])
  show ?thesis
  proof (cases "1440 < unat (b_size (decrypt_buf (c_list cl ! i)))")
    case True
    with Some n client_configure_overflow [OF ok True, of E w] show ?thesis by (simp add: client_init_def)
  next
    case False
    then obtain c w1 where run: "client_init E cl w =
        Inr (Some i, cl\<lparr>c_list := (c_list cl)[i := c], n_cli := n_cli cl + 1\<rparr>, w1)"
      using client_init_Some [of cl i E w] Some assms by fastforce
    have "length (c_list cl) = 32" using assms by (simp add: clients_ok_def)
    then have "c_list (cl\<lparr>c_list := (c_list cl)[i := c], n_cli := n_cli cl + 1\<rparr>) ! i = c" using i by simp
    with client_init_ok [OF run assms] run False Some show ?thesis by auto
  qed
qed

text \<open>
  A table for the examples: the free slots carry the buffers that \<^verbatim>\<open>client_list_init\<close> gives them.
\<close>

definition free_client :: client where
  "free_client = zero_client\<lparr>
     read_buf := \<lparr>b_addr = 4096, b_data = replicate 1440 0, b_len = 0, b_size = 0, b_bytes = 1440\<rparr>,
     decrypt_buf := \<lparr>b_addr = 8192, b_data = replicate 1440 0, b_len = 0, b_size = 0, b_bytes = 1440\<rparr>,
     cl_secure := \<lparr>ssl = 0, r_bio = 0, w_bio = 0, encrypted_buf =
       \<lparr>b_addr = 12288, b_data = replicate 2880 0, b_len = 0, b_size = 0, b_bytes = 2880\<rparr>\<rparr>,
     msg_queue := \<lparr>q_items = 16384, q_slots = replicate 16 (replicate 1440 0), q_head = 0, q_tail = 0,
       q_len = 16, q_size = 1440, q_count = 0\<rparr>\<rparr>"

definition free_table :: client_list where
  "free_table = \<lparr>c_list = replicate MAX_CLIENTS free_client, n_cli = 0\<rparr>"

lemma free_client_ok: "client_ok free_client" "\<not> in_use free_client"
  by (simp_all add: client_ok_def free_client_def zero_client_def buffer_ok_def framed_def queue_ok_def
      queue_list_def)

lemma free_table_ok: "clients_ok free_table"
  using free_client_ok by (simp add: clients_ok_def free_table_def filter_empty_conv [THEN iffD2])

text \<open>The table with some clients in its first slots.\<close>

definition table_of :: "client list \<Rightarrow> client_list" where
  "table_of cs = \<lparr>c_list = cs @ replicate (MAX_CLIENTS - length cs) free_client, n_cli = of_nat (length cs)\<rparr>"

lemma table_of_ok:
  "length cs \<le> MAX_CLIENTS \<Longrightarrow> \<forall>c \<in> set cs. client_ok c \<and> in_use c \<Longrightarrow> clients_ok (table_of cs)"
  using free_client_ok by (auto simp: clients_ok_def table_of_def unat_of_nat filter_id_conv [THEN iffD2]
      filter_empty_conv [THEN iffD2])

lemma free_table_find:
  "find (\<lambda>i. \<not> in_use (c_list free_table ! i)) [0..<MAX_CLIENTS] = Some 0"
  "b_size (decrypt_buf (c_list free_table ! 0)) = 0"
  using free_client_ok by (simp_all add: find_upt_Some free_table_def, simp add: free_client_def)

theorem client_init_spec_witness:
  "\<exists>c w1. client_init ref_env free_table empty_view =
     Inr (Some 0, free_table\<lparr>c_list := (c_list free_table)[0 := c], n_cli := 1\<rparr>, w1) \<and>
   cl_state c = C_CONNECTED"
proof -
  have "n_cli free_table = 0" by (simp add: free_table_def)
  then show ?thesis
    using client_init_spec [OF free_table_ok, of ref_env empty_view] free_table_find by auto
qed

text \<open>
  C24: \<^verbatim>\<open>client_close\<close> frees the first slot in use with the descriptor, counts it off and
  changes no other slot; no lookup by descriptor or by id returns the freed slot. Without such
  a slot it returns NULL and changes nothing.
\<close>

theorem client_close_spec:
  assumes "clients_ok cl"
  shows "case client_find cl fd of
      None \<Rightarrow> client_close E cl fd w = (None, cl, w)
    | Some i \<Rightarrow> \<exists>cl1 w1. client_close E cl fd w = (Some i, cl1, w1) \<and> clients_ok cl1 \<and>
        in_use (c_list cl ! i) \<and> cl_fd (c_list cl ! i) = fd \<and> \<not> in_use (c_list cl1 ! i) \<and>
        unat (n_cli cl1) + 1 = unat (n_cli cl) \<and> (\<forall>j. j \<noteq> i \<longrightarrow> c_list cl1 ! j = c_list cl ! j) \<and>
        (\<forall>f. client_find cl1 f \<noteq> Some i) \<and> (\<forall>k. client_find_by_id cl1 k \<noteq> Some i)"
proof (cases "client_find cl fd")
  case None
  then show ?thesis by (simp add: client_close_def)
next
  case (Some i)
  let ?c = "(c_list cl ! i)\<lparr>cl_state := C_EMPTY\<rparr>"
  let ?cl = "cl\<lparr>c_list := (c_list cl)[i := ?c], n_cli := n_cli cl - 1\<rparr>"
  from Some have i: "i < MAX_CLIENTS" "in_use (c_list cl ! i)" "cl_fd (c_list cl ! i) = fd"
    by (auto simp: client_find_Some)
  have run: "client_close E cl fd w = (Some i, ?cl, secure_free E (cl_secure (c_list cl ! i)) w)"
    using Some by (simp add: client_close_def Let_def)
  note ok = client_close_ok [OF run assms]
  have len: "length (c_list cl) = 32" using assms by (simp add: clients_ok_def)
  have n: "unat (n_cli ?cl) + 1 = unat (n_cli cl)"
    using filter_update_length [of i "c_list cl" in_use ?c] i len ok assms by (simp add: clients_ok_def)
  have free: "\<not> in_use (c_list ?cl ! i)" using i len by simp
  then have "client_find ?cl f \<noteq> Some i" "client_find_by_id ?cl k \<noteq> Some i" for f k
    unfolding client_find_Some client_find_by_id_Some by blast+
  with run ok i n free Some show ?thesis by simp
qed

theorem client_close_spec_witness:
  "\<exists>cl1 w1. client_close ref_env (table_of [free_client\<lparr>cl_state := C_CONNECTED, cl_fd := 5\<rparr>]) 5 empty_view =
     (Some 0, cl1, w1) \<and> n_cli cl1 = 0 \<and> client_find cl1 5 \<noteq> Some 0"
proof -
  let ?c = "free_client\<lparr>cl_state := C_CONNECTED, cl_fd := 5\<rparr>"
  have "clients_ok (table_of [?c])"
    using free_client_ok by (intro table_of_ok) (auto simp: client_ok_def)
  moreover have find: "client_find (table_of [?c]) 5 = Some 0"
    by (simp add: client_find_Some table_of_def)
  moreover have "n_cli (table_of [?c]) = 1" by (simp add: table_of_def)
  ultimately show ?thesis
    using client_close_spec [of "table_of [?c]" ref_env 5 empty_view] by (auto simp: unat_eq_zero)
qed

text \<open>The slot found for an id is the first one in use with it.\<close>

lemma shadowed:
  assumes "in_use (c_list cl ! i)" "cl_id (c_list cl ! i) = t" "i < j" "j < MAX_CLIENTS"
  shows "\<exists>k \<le> i. client_find_by_id cl t = Some k"
proof -
  let ?P = "\<lambda>k. cl_state (c_list cl ! k) \<noteq> C_EMPTY \<and> cl_id (c_list cl ! k) = t"
  define k where "k = (LEAST k. ?P k)"
  have "?P i" using assms by simp
  then have "?P k" "k \<le> i" unfolding k_def by (rule LeastI, rule Least_le)
  moreover have "\<forall>l < k. \<not> ?P l" unfolding k_def by (auto dest: not_less_Least)
  ultimately have "client_find_by_id cl t = Some k" "k \<le> i" using assms by (auto simp: client_find_by_id_Some)
  then show ?thesis by blast
qed

text \<open>
  C39: a client's id is the time in seconds at which it connected. Of two clients that connect
  one after the other in the same second, the later one gets a slot behind the earlier one's and the
  same id; in every table in which the earlier slot is in use with this id,
  \<^verbatim>\<open>client_find_by_id\<close> returns a slot before the later one's, so that every message routed to the id goes to another
  client. Only when no slot before it is in use with the id, as after the earlier one has left, the
  later client is found.
\<close>

theorem same_second_shadowed:
  assumes "clients_ok cl" "client_init E cl w = Inr (Some i, cl1, w1)"
    and "client_init E cl1 w2 = Inr (Some j, cl2, w3)" "fst (time_now E w) = t" "fst (time_now E w2) = t"
  shows "i < j \<and> j < MAX_CLIENTS \<and> in_use (c_list cl2 ! i) \<and> cl_id (c_list cl2 ! i) = t \<and>
    in_use (c_list cl2 ! j) \<and> cl_id (c_list cl2 ! j) = t \<and>
    (\<forall>cl3. in_use (c_list cl3 ! i) \<and> cl_id (c_list cl3 ! i) = t \<longrightarrow>
       (\<exists>k \<le> i. client_find_by_id cl3 t = Some k)) \<and>
    (\<forall>cl3. in_use (c_list cl3 ! j) \<and> cl_id (c_list cl3 ! j) = t \<and>
       (\<forall>k < j. \<not> (in_use (c_list cl3 ! k) \<and> cl_id (c_list cl3 ! k) = t)) \<longrightarrow>
       client_find_by_id cl3 t = Some j)"
proof -
  note 1 = client_init_ok [OF assms(2,1), simplified]
  then have ok1: "clients_ok cl1" ..
  note 2 = client_init_ok [OF assms(3) ok1, simplified]
  have used: "in_use (c_list cl1 ! i)" "cl_id (c_list cl1 ! i) = t" and i: "i < 32"
    using 1 assms(4) by auto
  have old: "\<forall>k < i. in_use (c_list cl1 ! k)" using 1 by (metis (no_types) nat_neq_iff nth_list_update_neq)
  have free: "\<not> in_use (c_list cl1 ! j)" using 2 by simp
  with used old have ij: "i < j" by (metis linorder_neqE_nat)
  then have same: "c_list cl2 ! i = c_list cl1 ! i" using 2 by (metis less_not_refl nth_list_update_neq)
  have j: "j < 32" "in_use (c_list cl2 ! j)" "cl_id (c_list cl2 ! j) = t" using 2 assms(5) by auto
  have "client_find_by_id cl3 t = Some j" if "in_use (c_list cl3 ! j)" "cl_id (c_list cl3 ! j) = t"
    "\<forall>k < j. \<not> (in_use (c_list cl3 ! k) \<and> cl_id (c_list cl3 ! k) = t)" for cl3 :: client_list
    using that j(1) by (auto simp: client_find_by_id_Some)
  with ij j used same shadowed [OF _ _ ij j(1)] show ?thesis by auto
qed

theorem same_second_shadowed_witness:
  "\<exists>i j cl1 w1 cl2 w3. client_init ref_env free_table empty_view = Inr (Some i, cl1, w1) \<and>
     client_init ref_env cl1 w1 = Inr (Some j, cl2, w3) \<and> i < j \<and>
     cl_id (c_list cl2 ! i) = 1 \<and> cl_id (c_list cl2 ! j) = 1 \<and> (\<exists>k \<le> i. client_find_by_id cl2 1 = Some k)"
proof -
  obtain c w1 where 1: "client_init ref_env free_table empty_view =
      Inr (Some 0, free_table\<lparr>c_list := (c_list free_table)[0 := c], n_cli := n_cli free_table + 1\<rparr>, w1)"
    using client_init_Some [OF free_table_ok free_table_find(1), of ref_env empty_view] free_table_find(2)
    by auto
  let ?cl1 = "free_table\<lparr>c_list := (c_list free_table)[0 := c], n_cli := n_cli free_table + 1\<rparr>"
  note new = client_init_ok [OF 1 free_table_ok]
  then have "in_use c" by (simp add: free_table_def)
  then have f: "find (\<lambda>i. \<not> in_use (c_list ?cl1 ! i)) [0..<MAX_CLIENTS] = Some 1"
    using free_client_ok by (auto simp: find_upt_Some free_table_def nth_Cons split: nat.splits)
  have "b_size (decrypt_buf (c_list ?cl1 ! 1)) = 0" by (simp add: free_table_def free_client_def)
  then obtain c2 w3 where 2: "client_init ref_env ?cl1 w1 =
      Inr (Some 1, ?cl1\<lparr>c_list := (c_list ?cl1)[1 := c2], n_cli := n_cli ?cl1 + 1\<rparr>, w3)"
    using client_init_Some [OF _ f, of ref_env w1] new by auto
  have t: "fst (time_now ref_env v) = 1" for v by (simp add: ref_env_def)
  from same_second_shadowed [OF free_table_ok 1 2 t t] 1 2 show ?thesis by blast
qed

end
