(* ===== verification/Server.thy ===== *)
theory Server
  imports Client
begin

text \<open>
  The state of the server, \<^verbatim>\<open>qs_server/include/server.h\<close>, and the functions of
  \<^verbatim>\<open>qs_server/src/network.c\<close> that put a message into a client's queue. The lemmas describe a
  handler by the mail it posts: which messages it appends to which queue, and that it returns
  exactly when the queues have room for them.
\<close>

section \<open>The server and its clients\<close>

text \<open>
  \<open>world\<close> is everything outside the program, the database connection and the epoll instance
  included. A \<^verbatim>\<open>Client*\<close> is an index into the table.
\<close>

record 'w server =
  sock_fd :: int
  clients :: client_list
  world :: 'w

definition client_at :: "'w server \<Rightarrow> nat \<Rightarrow> client" where
  "client_at s i = c_list (clients s) ! i"

definition upd_client :: "nat \<Rightarrow> (client \<Rightarrow> client) \<Rightarrow> 'w server \<Rightarrow> 'w server" where
  "upd_client i f s = s\<lparr>clients := (clients s)\<lparr>c_list := (c_list (clients s))[i := f (client_at s i)]\<rparr>\<rparr>"

text \<open>A foreign call made by the server.\<close>

definition on_world :: "('w \<Rightarrow> 'a \<times> 'w) \<Rightarrow> 'w server \<Rightarrow> 'a \<times> 'w server" where
  "on_world f s = (let (x, w) = f (world s) in (x, s\<lparr>world := w\<rparr>))"

definition upd_world :: "('w \<Rightarrow> 'w) \<Rightarrow> 'w server \<Rightarrow> 'w server" where
  "upd_world f s = s\<lparr>world := f (world s)\<rparr>"

text \<open>
  \<^verbatim>\<open>Packet* p = enqueue(&c->msg_queue); assert(p);\<close> and a write through \<^verbatim>\<open>p\<close>, which \<open>f\<close> gives
  as a function of the old contents of the element. \<open>push\<close> is the common case of both.
\<close>

definition reserve :: "nat \<Rightarrow> 'w server \<Rightarrow> fault + (nat \<times> 'w server)" where
  "reserve i s =
     (case enqueue (msg_queue (client_at s i)) of
        (None, q) \<Rightarrow> Inl Assert_Failed
      | (Some k, q) \<Rightarrow> Inr (k, upd_client i (\<lambda>c. c\<lparr>msg_queue := q\<rparr>) s))"

definition write_slot :: "nat \<Rightarrow> nat \<Rightarrow> (packet \<Rightarrow> packet) \<Rightarrow> 'w server \<Rightarrow> 'w server" where
  "write_slot i k f s =
     upd_client i (\<lambda>c. c\<lparr>msg_queue := set_slot k (f (slot k (msg_queue c))) (msg_queue c)\<rparr>) s"

definition push :: "nat \<Rightarrow> (packet \<Rightarrow> packet) \<Rightarrow> 'w server \<Rightarrow> fault + 'w server" where
  "push i f s = bindE (reserve i s) (\<lambda>(k, s1). Inr (write_slot i k f s1))"

section \<open>The senders of network.c\<close>

definition new_client_event :: "'w env \<Rightarrow> epoll_op \<Rightarrow> int \<Rightarrow> 'w server \<Rightarrow> bool \<times> 'w server" where
  "new_client_event E op fd s =
     (let ev = \<lparr>ev_in = True, ev_out = False, ev_rdhup = True, ev_hup = True, ev_err = True\<rparr>;
          (rc, s1) = on_world (epoll_ctl E op fd ev) s
      in (rc \<noteq> - 1, s1))"

definition send_single_user :: "nat \<Rightarrow> nat \<Rightarrow> u32 \<Rightarrow> 'w server \<Rightarrow> fault + 'w server" where
  "send_single_user recp c1 type s =
     bindE (assertE (type = P_SERVER_NEW_USERS \<or> type = P_SERVER_DEL_USERS)) (\<lambda>_.
       push recp (\<lambda>_.
         (let p = PACKET_HDR type (if type = P_SERVER_NEW_USERS then sizeof_new_users else sizeof_del_user)
                    zero_packet
          in if type = P_SERVER_NEW_USERS
             then set_nu_name 0 (cl_name (client_at s c1)) (set_nu_id 0 (cl_id (client_at s c1)) (set_nu_users_len 1 p))
             else set_du_name (cl_name (client_at s c1)) (set_du_id (cl_id (client_at s c1)) p))) s)"

definition send_transfer_state :: "nat \<Rightarrow> client_id \<Rightarrow> transfer_id \<Rightarrow> u32 \<Rightarrow> 'w server \<Rightarrow> fault + 'w server" where
  "send_transfer_state c from t_id type s =
     push c (\<lambda>p. set_th_from from (set_th_t_id t_id (PACKET_HDR type sizeof_transfer_state p))) s"

section \<open>Well-formed servers\<close>

definition server_ok :: "'w server \<Rightarrow> bool" where
  "server_ok s \<longleftrightarrow> clients_ok (clients s)"

definition outbox :: "'w server \<Rightarrow> nat \<Rightarrow> packet list" where
  "outbox s i = queue_list (msg_queue (client_at s i))"

abbreviation QUEUE_LEN :: nat where "QUEUE_LEN \<equiv> 16"

lemma server_ok_client: "server_ok s \<Longrightarrow> i < MAX_CLIENTS \<Longrightarrow> client_ok (client_at s i)"
  by (simp add: server_ok_def client_at_def clients_ok_nth)

lemma server_ok_length: "server_ok s \<Longrightarrow> length (c_list (clients s)) = MAX_CLIENTS"
  by (simp add: server_ok_def clients_ok_def)

lemma client_upd_client:
  "server_ok s \<Longrightarrow> i < MAX_CLIENTS \<Longrightarrow> client_at (upd_client i f s) j = (if j = i then f (client_at s i) else client_at s j)"
  by (simp add: client_at_def upd_client_def server_ok_length)

lemma upd_client_simps [simp]:
  "world (upd_client i f s) = world s" "sock_fd (upd_client i f s) = sock_fd s"
  "n_cli (clients (upd_client i f s)) = n_cli (clients s)"
  by (simp_all add: upd_client_def)

lemma client_world_update [simp]: "client_at (s\<lparr>world := w\<rparr>) i = client_at s i"
  by (simp add: client_at_def)

lemma server_ok_world [simp]: "server_ok (s\<lparr>world := w\<rparr>) = server_ok s"
  by (simp add: server_ok_def)

lemma on_world_ok: "on_world f s = (x, s1) \<Longrightarrow> server_ok s1 = server_ok s"
  by (auto simp: on_world_def split: prod.splits)

lemma upd_world_ok [simp]: "server_ok (upd_world f s) = server_ok s"
  by (simp add: upd_world_def)

lemma server_ok_upd:
  assumes "server_ok s" "i < MAX_CLIENTS" "client_ok (f (client_at s i))"
    and "in_use (f (client_at s i)) = in_use (client_at s i)"
  shows "server_ok (upd_client i f s)"
  using clients_ok_update [of "clients s" i "f (client_at s i)"] assms
  by (simp add: server_ok_def upd_client_def client_at_def)

section \<open>Posted mail\<close>

text \<open>
  A mail says, for each client, what messages are appended to its queue, each described by a
  predicate (some messages carry bytes their sender does not write).
\<close>

type_synonym mail = "nat \<Rightarrow> (packet \<Rightarrow> bool) list"

definition no_mail :: mail where "no_mail = (\<lambda>_. [])"

definition mail_to :: "nat \<Rightarrow> (packet \<Rightarrow> bool) \<Rightarrow> mail" where
  "mail_to i P = (\<lambda>j. if j = i then [P] else [])"

definition then_mail :: "mail \<Rightarrow> mail \<Rightarrow> mail" where
  "then_mail F G = (\<lambda>i. F i @ G i)"

lemma no_mail_then [simp]: "then_mail no_mail F = F" "then_mail F no_mail = F"
  by (simp_all add: then_mail_def no_mail_def)

lemma then_mail_assoc: "then_mail (then_mail F G) H = then_mail F (then_mail G H)"
  by (simp add: then_mail_def)

text \<open>\<open>posted F s s'\<close>: \<open>s'\<close> is \<open>s\<close> with the mail \<open>F\<close> appended to the queues, the world aside.\<close>

definition posted :: "mail \<Rightarrow> 'w server \<Rightarrow> 'w server \<Rightarrow> bool" where
  "posted F s s' \<longleftrightarrow> sock_fd s' = sock_fd s \<and> n_cli (clients s') = n_cli (clients s) \<and>
     (\<forall>i < MAX_CLIENTS. client_at s' i = (client_at s i)\<lparr>msg_queue := msg_queue (client_at s' i)\<rparr> \<and>
        (\<exists>ps. outbox s' i = outbox s i @ ps \<and> list_all2 (\<lambda>P p. P p) (F i) ps))"

definition fits :: "mail \<Rightarrow> 'w server \<Rightarrow> bool" where
  "fits F s \<longleftrightarrow> (\<forall>i < MAX_CLIENTS. length (outbox s i) + length (F i) \<le> QUEUE_LEN)"

text \<open>
  \<open>delivers F s Q m\<close>: the call \<open>m\<close> made in \<open>s\<close> returns, with a result that satisfies \<open>Q\<close>, when
  there is room for the mail \<open>F\<close>; otherwise an assertion ends the process.
\<close>

definition delivers :: "mail \<Rightarrow> 'w server \<Rightarrow> ('a \<Rightarrow> bool) \<Rightarrow> fault + 'a \<Rightarrow> bool" where
  "delivers F s Q m \<longleftrightarrow> (if fits F s then \<exists>x. m = Inr x \<and> Q x else m = Inl Assert_Failed)"

lemma posted_no_mail: "posted no_mail s s" "posted no_mail s (s\<lparr>world := w\<rparr>)"
  by (simp_all add: posted_def no_mail_def outbox_def)

lemma posted_outbox:
  "posted F s s' \<Longrightarrow> i < MAX_CLIENTS \<Longrightarrow>
     \<exists>ps. outbox s' i = outbox s i @ ps \<and> list_all2 (\<lambda>P p. P p) (F i) ps"
  by (simp add: posted_def)

lemma only_queue_trans:
  "c2 = c1\<lparr>msg_queue := q2\<rparr> \<Longrightarrow> c1 = c\<lparr>msg_queue := q1\<rparr> \<Longrightarrow> c2 = c\<lparr>msg_queue := q2\<rparr>"
  by simp

lemma only_queue:
  "c' = c\<lparr>msg_queue := q\<rparr> \<Longrightarrow> cl_id c' = cl_id c \<and> cl_state c' = cl_state c \<and>
     cl_session_id c' = cl_session_id c \<and> cl_name c' = cl_name c \<and> cl_fd c' = cl_fd c \<and>
     decrypt_buf c' = decrypt_buf c \<and> read_buf c' = read_buf c \<and> cl_secure c' = cl_secure c \<and>
     cl_addr c' = cl_addr c"
  by simp

lemma posted_trans:
  assumes "posted F s s1" "posted G s1 s2"
  shows "posted (then_mail F G) s s2"
  unfolding posted_def
proof (intro conjI allI impI)
  show "sock_fd s2 = sock_fd s" "n_cli (clients s2) = n_cli (clients s)"
    using assms by (simp_all add: posted_def)
  fix i assume i: "i < MAX_CLIENTS"
  have "client_at s2 i = (client_at s1 i)\<lparr>msg_queue := msg_queue (client_at s2 i)\<rparr>"
    "client_at s1 i = (client_at s i)\<lparr>msg_queue := msg_queue (client_at s1 i)\<rparr>"
    using assms i by (simp_all add: posted_def)
  then show "client_at s2 i = (client_at s i)\<lparr>msg_queue := msg_queue (client_at s2 i)\<rparr>"
    by (rule only_queue_trans)
  obtain ps qs where "outbox s1 i = outbox s i @ ps" "list_all2 (\<lambda>P p. P p) (F i) ps"
      "outbox s2 i = outbox s1 i @ qs" "list_all2 (\<lambda>P p. P p) (G i) qs"
    using assms i unfolding posted_def by blast
  then show "\<exists>ps. outbox s2 i = outbox s i @ ps \<and> list_all2 (\<lambda>P p. P p) (then_mail F G i) ps"
    by (intro exI [of _ "ps @ qs"]) (simp add: then_mail_def list_all2_appendI)
qed

lemma posted_client:
  assumes "posted F s s'" "i < MAX_CLIENTS"
  shows "cl_id (client_at s' i) = cl_id (client_at s i)" "cl_state (client_at s' i) = cl_state (client_at s i)"
    "cl_session_id (client_at s' i) = cl_session_id (client_at s i)" "cl_name (client_at s' i) = cl_name (client_at s i)"
    "cl_fd (client_at s' i) = cl_fd (client_at s i)" "decrypt_buf (client_at s' i) = decrypt_buf (client_at s i)"
    "read_buf (client_at s' i) = read_buf (client_at s i)" "cl_secure (client_at s' i) = cl_secure (client_at s i)"
    "cl_addr (client_at s' i) = cl_addr (client_at s i)"
  using assms only_queue [where c' = "client_at s' i" and c = "client_at s i"] unfolding posted_def by blast+

lemma posted_find:
  assumes "posted F s s'"
  shows "client_find_by_id (clients s') k = client_find_by_id (clients s) k"
    "client_find (clients s') fd = client_find (clients s) fd"
proof -
  have "cl_id (c_list (clients s') ! i) = cl_id (c_list (clients s) ! i)"
    "cl_fd (c_list (clients s') ! i) = cl_fd (c_list (clients s) ! i)"
    "cl_state (c_list (clients s') ! i) = cl_state (c_list (clients s) ! i)" if "i < MAX_CLIENTS" for i
    using posted_client [OF assms that] by (simp_all add: client_at_def)
  then show "client_find_by_id (clients s') k = client_find_by_id (clients s) k"
    "client_find (clients s') fd = client_find (clients s) fd"
    unfolding client_find_by_id_def client_find_def by (intro find_cong; simp)+
qed

lemma posted_length:
  "posted F s s' \<Longrightarrow> i < MAX_CLIENTS \<Longrightarrow> length (outbox s' i) = length (outbox s i) + length (F i)"
  unfolding posted_def by (auto dest!: list_all2_lengthD spec [of _ i])

lemma fits_then: "posted F s s' \<Longrightarrow> fits F s \<Longrightarrow> fits (then_mail F G) s = fits G s'"
  by (auto simp: fits_def then_mail_def posted_length add.assoc)

lemma fits_cong: "(\<And>i. length (F i) = length (G i)) \<Longrightarrow> fits F s = fits G s"
  by (simp add: fits_def)

lemma delivers_bind:
  assumes "delivers F s Q m" "\<And>x. Q x \<Longrightarrow> \<exists>s'. posted F s s' \<and> delivers G s' R (k x)"
  shows "delivers (then_mail F G) s R (bindE m k)"
proof (cases "fits F s")
  case True
  with assms(1) obtain x where x: "m = Inr x" "Q x" by (auto simp: delivers_def)
  with assms(2) obtain s' where "posted F s s'" "delivers G s' R (k x)" by blast
  with x fits_then [OF _ True] show ?thesis by (simp add: delivers_def)
next
  case False
  then have "\<not> fits (then_mail F G) s" by (auto simp: fits_def then_mail_def)
  with False assms(1) show ?thesis by (simp add: delivers_def)
qed

lemma delivers_mono: "delivers F s Q m \<Longrightarrow> (\<And>x. Q x \<Longrightarrow> R x) \<Longrightarrow> delivers F s R m"
  by (auto simp: delivers_def split: if_splits)

lemma fits_no_mail: "server_ok s \<Longrightarrow> fits no_mail s"
  using server_ok_client
  by (fastforce simp: fits_def no_mail_def outbox_def length_queue_list client_ok_def queue_ok_def nat_le_iff)

lemma delivers_Inr: "server_ok s \<Longrightarrow> Q x \<Longrightarrow> delivers no_mail s Q (Inr x)"
  by (simp add: delivers_def fits_no_mail)

lemma delivers_keepsE: "delivers F s Q m \<Longrightarrow> keepsE df Q m"
  by (auto simp: delivers_def keepsE_def split: if_splits)

text \<open>The elementary step: one message into one queue.\<close>

lemma reserve_full:
  assumes "server_ok s" "i < MAX_CLIENTS" "length (outbox s i) = QUEUE_LEN"
  shows "reserve i s = Inl Assert_Failed"
  using ring.enq_full [of 1440 4 "msg_queue (client_at s i)"] server_ok_client [OF assms(1,2)] assms(3)
  by (simp add: reserve_def client_ok_def outbox_def)

text \<open>\<open>last_slot k q\<close>: element \<open>k\<close> is the one most recently reserved.\<close>

definition last_slot :: "nat \<Rightarrow> queue \<Rightarrow> bool" where
  "last_slot k q \<longleftrightarrow> 0 < q_count q \<and> k = nat ((q_tail q + (q_count q - 1)) mod q_len q)"

lemma last_slot_write:
  assumes ok: "queue_ok sz k q" and l: "last_slot i q" and x: "length x = nat sz"
  shows "queue_ok sz k (set_slot i x q)" "last_slot i (set_slot i x q)"
    "queue_list (set_slot i x q) = butlast (queue_list q) @ [x]" "slot i (set_slot i x q) = x"
    "length (slot i q) = nat sz"
proof -
  have n: "q_len q = 2 ^ k" "0 < q_count q" "q_count q \<le> 2 ^ k" "length (q_slots q) = 2 ^ k"
    and i: "i = nat ((q_tail q + (q_count q - 1)) mod 2 ^ k)"
    using ok l by (auto simp: queue_ok_def last_slot_def)
  then have "int i < 2 ^ k" by simp
  then have b: "i < length (q_slots q)" by (simp add: n(4))
  show "last_slot i (set_slot i x q)" using l by (simp add: last_slot_def set_slot_def)
  show "slot i (set_slot i x q) = x" using b by (simp add: slot_def set_slot_def)
  show "length (slot i q) = nat sz" using b ok by (simp add: slot_def queue_ok_def)
  show "queue_ok sz k (set_slot i x q)"
    using ok x by (auto simp: queue_ok_def set_slot_def dest!: set_update_subset_insert [THEN subsetD])
  have c: "nat (q_count q) = Suc (nat (q_count q - 1))" using n(2) by (simp add: Suc_nat_eq_nat_zadd1)
  have "(q_slots q)[i := x] ! nat ((q_tail q + int j) mod 2 ^ k) =
      q_slots q ! nat ((q_tail q + int j) mod 2 ^ k)" if "j < nat (q_count q - 1)" for j
  proof -
    have "(q_tail q + int j) mod 2 ^ k \<noteq> (q_tail q + (q_count q - 1)) mod 2 ^ k"
      using that n by (intro mod_index_neq) auto
    then have "i \<noteq> nat ((q_tail q + int j) mod 2 ^ k)" unfolding i by (simp add: eq_nat_nat_iff)
    then show ?thesis by simp
  qed
  moreover have "(q_slots q)[i := x] ! nat ((q_tail q + int (nat (q_count q - 1))) mod 2 ^ k) = x"
    using n(2) b by (simp flip: i)
  ultimately show "queue_list (set_slot i x q) = butlast (queue_list q) @ [x]"
    using n(1) by (simp add: queue_list_def set_slot_def c butlast_append)
qed

lemma reserve_room:
  assumes "server_ok s" "i < MAX_CLIENTS" "length (outbox s i) < QUEUE_LEN"
  shows "\<exists>k q. reserve i s = Inr (k, upd_client i (\<lambda>c. c\<lparr>msg_queue := q\<rparr>) s) \<and>
    queue_ok 1440 4 q \<and> last_slot k q \<and> queue_list q = outbox s i @ [slot k q] \<and>
    slot k q \<in> set (q_slots (msg_queue (client_at s i))) \<and> length (slot k q) = PACKET_MAX_SIZE"
proof -
  let ?q = "msg_queue (client_at s i)"
  have ok: "queue_ok 1440 4 ?q" using server_ok_client [OF assms(1,2)] by (simp add: client_ok_def)
  have room: "q_count ?q < 2 ^ 4" using assms(3) by (simp add: outbox_def length_queue_list)
  obtain k q where e: "enqueue ?q = (Some k, q)" "k = nat (q_head ?q)"
      "q = ?q\<lparr>q_head := (q_head ?q + 1) mod 2 ^ 4, q_count := q_count ?q + 1\<rparr>"
    using enqueue_room [OF ok room] by simp
  have k: "k < length (q_slots ?q)" using head_bounds [OF ok] e(2) by simp
  then have len: "length (slot k q) = nat 1440" using ok e(3) by (simp add: slot_def queue_ok_def)
  have same: "set_slot k (slot k q) q = q" by (simp add: set_slot_def slot_def)
  have "last_slot k q" using ok e by (simp add: last_slot_def queue_ok_def)
  moreover have "slot k q \<in> set (q_slots ?q)" using k e(3) by (simp add: slot_def)
  ultimately show ?thesis
    using enqueue_set_slot_ok [OF ok room e(1) len] enqueue_set_slot_list [OF ok room e(1), of "slot k q"]
      e(1) len unfolding same by (auto simp: reserve_def outbox_def)
qed

lemma upd_client_twice:
  "server_ok s \<Longrightarrow> i < MAX_CLIENTS \<Longrightarrow> upd_client i g (upd_client i f s) = upd_client i (\<lambda>c. g (f c)) s"
  by (simp add: upd_client_def client_at_def server_ok_length)

text \<open>Changing nothing but the message queue of one client.\<close>

lemma posted_queue:
  assumes "server_ok s" "i < MAX_CLIENTS" "queue_ok 1440 4 q" "queue_list q = outbox s i @ [x]" "P x"
    and "fits_packet x"
  shows "server_ok (upd_client i (\<lambda>c. c\<lparr>msg_queue := q\<rparr>) s)"
    "posted (mail_to i P) s (upd_client i (\<lambda>c. c\<lparr>msg_queue := q\<rparr>) s)"
proof -
  have "client_ok ((client_at s i)\<lparr>msg_queue := q\<rparr>)"
    using server_ok_client [OF assms(1,2)] assms(3,4,6) by (auto simp: client_ok_def outbox_def)
  then show "server_ok (upd_client i (\<lambda>c. c\<lparr>msg_queue := q\<rparr>) s)"
    using assms(1,2) by (intro server_ok_upd) simp_all
  show "posted (mail_to i P) s (upd_client i (\<lambda>c. c\<lparr>msg_queue := q\<rparr>) s)"
    using assms by (simp add: posted_def client_upd_client mail_to_def outbox_def)
qed

text \<open>What a call that posts \<open>F\<close> and does nothing else ensures.\<close>

definition only_posts :: "mail \<Rightarrow> 'w server \<Rightarrow> 'w server \<Rightarrow> bool" where
  "only_posts F s s' \<longleftrightarrow> server_ok s' \<and> posted F s s' \<and> world s' = world s"

lemma delivers_known: "delivers F s Q m \<Longrightarrow> delivers F s (\<lambda>x. Q x \<and> m = Inr x) m"
  by (auto simp: delivers_def split: if_splits)

text \<open>Reserving an element and filling it at once, the element being kept for later writes.\<close>

lemma reserve_write_delivers:
  assumes "server_ok s" "i < MAX_CLIENTS"
    and f: "\<And>p. p \<in> set (q_slots (msg_queue (client_at s i))) \<Longrightarrow> length p = PACKET_MAX_SIZE \<Longrightarrow>
      length (f p) = PACKET_MAX_SIZE \<and> fits_packet (f p) \<and> P (f p)"
  shows "delivers (mail_to i P) s
    (\<lambda>(k, s'). only_posts (mail_to i P) s s' \<and> last_slot k (msg_queue (client_at s' i)) \<and>
       (\<forall>j. j \<noteq> i \<longrightarrow> client_at s' j = client_at s j))
    (bindE (reserve i s) (\<lambda>(k, s1). Inr (k, write_slot i k f s1)))"
proof (cases "length (outbox s i) < QUEUE_LEN")
  case True
  from reserve_room [OF assms(1,2) True] obtain k q where
    r: "reserve i s = Inr (k, upd_client i (\<lambda>c. c\<lparr>msg_queue := q\<rparr>) s)" "queue_ok 1440 4 q"
      "last_slot k q" "queue_list q = outbox s i @ [slot k q]"
      "slot k q \<in> set (q_slots (msg_queue (client_at s i)))" "length (slot k q) = PACKET_MAX_SIZE" by blast
  note g = f [OF r(5,6)]
  let ?q = "set_slot k (f (slot k q)) q"
  have q: "queue_ok 1440 4 ?q" "last_slot k ?q" "queue_list ?q = outbox s i @ [f (slot k q)]"
    using last_slot_write [OF r(2,3), of "f (slot k q)"] g r(4) by simp_all
  let ?s = "upd_client i (\<lambda>c. c\<lparr>msg_queue := ?q\<rparr>) s"
  have run: "bindE (reserve i s) (\<lambda>(k, s1). Inr (k, write_slot i k f s1)) = Inr (k, ?s)"
    using r(1) assms(1,2) by (simp add: write_slot_def upd_client_twice)
  have "server_ok ?s" "posted (mail_to i P) s ?s" using posted_queue [OF assms(1,2) q(1,3)] g by blast+
  moreover have "fits (mail_to i P) s"
    using True fits_no_mail [OF assms(1)] by (simp add: fits_def mail_to_def no_mail_def)
  ultimately show ?thesis
    using run q(2) assms(1,2) by (simp add: delivers_def only_posts_def client_upd_client)
next
  case False
  have "length (outbox s i) \<le> QUEUE_LEN"
    using fits_no_mail [OF assms(1)] assms(2) by (simp add: fits_def no_mail_def)
  with False have full: "length (outbox s i) = QUEUE_LEN" by simp
  then have "\<not> fits (mail_to i P) s" using assms(2) by (auto simp: fits_def mail_to_def)
  with reserve_full [OF assms(1,2) full] show ?thesis by (simp add: delivers_def)
qed

text \<open>A later write through the pointer to the element reserved last.\<close>

lemma write_last:
  assumes ok: "server_ok s" "c < MAX_CLIENTS" and l: "last_slot k (msg_queue (client_at s c))"
    and old: "posted (then_mail (mail_to c P) N) s0 s" "N c = []"
    and f: "\<And>p. length p = PACKET_MAX_SIZE \<Longrightarrow> P p \<Longrightarrow> fits_packet p \<Longrightarrow>
      length (f p) = PACKET_MAX_SIZE \<and> fits_packet (f p) \<and> P' (f p)"
  shows "server_ok (write_slot c k f s)" "last_slot k (msg_queue (client_at (write_slot c k f s) c))"
    "posted (then_mail (mail_to c P') N) s0 (write_slot c k f s)" "world (write_slot c k f s) = world s"
    "\<And>j. j \<noteq> c \<Longrightarrow> client_at (write_slot c k f s) j = client_at s j" "\<And>F. fits F (write_slot c k f s) = fits F s"
    "cl_id (client_at (write_slot c k f s) c) = cl_id (client_at s c)"
    "cl_name (client_at (write_slot c k f s) c) = cl_name (client_at s c)"
proof -
  let ?q = "msg_queue (client_at s c)" and ?s = "write_slot c k f s"
  have c: "client_ok (client_at s c)" by (rule server_ok_client [OF ok])
  then have q: "queue_ok 1440 4 ?q" by (simp add: client_ok_def)
  have "\<exists>ps. outbox s c = outbox s0 c @ ps \<and> list_all2 (\<lambda>P p. P p) (then_mail (mail_to c P) N c) ps"
    using old(1) ok(2) unfolding posted_def by blast
  then obtain x where x: "outbox s c = outbox s0 c @ [x]" "P x"
    using old(2) by (auto simp: then_mail_def mail_to_def list_all2_Cons1)
  have "set_slot k (slot k ?q) ?q = ?q" by (simp add: set_slot_def slot_def)
  then have "queue_list ?q = butlast (queue_list ?q) @ [slot k ?q]"
    using last_slot_write(3,5) [OF q l, of "slot k ?q"] last_slot_write(5) [OF q l, of "replicate 1440 0"] by simp
  then have "slot k ?q = last (queue_list ?q)" by (metis last_snoc)
  with x(1) have xk: "slot k ?q = x" by (simp add: outbox_def)
  have len: "length x = 1440" using last_slot_write(5) [OF q l, of "replicate 1440 0"] xk by simp
  have "fits_packet x" using c x(1) by (auto simp: client_ok_def outbox_def)
  from f [OF len x(2) this] have fx: "length (f x) = 1440" "fits_packet (f x)" "P' (f x)" by auto
  let ?q' = "set_slot k (f x) ?q"
  have q': "queue_ok 1440 4 ?q'" "last_slot k ?q'" "queue_list ?q' = outbox s0 c @ [f x]"
    using last_slot_write [OF q l, of "f x"] fx x(1) by (simp_all add: outbox_def)
  have s': "?s = upd_client c (\<lambda>c. c\<lparr>msg_queue := ?q'\<rparr>) s"
    by (simp add: write_slot_def upd_client_def xk)
  have cl: "client_at ?s j = (if j = c then (client_at s c)\<lparr>msg_queue := ?q'\<rparr> else client_at s j)" for j
    unfolding s' by (simp add: client_upd_client ok)
  have "client_ok ((client_at s c)\<lparr>msg_queue := ?q'\<rparr>)"
    using c q' fx x(1) by (auto simp: client_ok_def outbox_def)
  then show "server_ok ?s" unfolding s' using ok by (intro server_ok_upd) simp_all
  show "last_slot k (msg_queue (client_at ?s c))" using q'(2) by (simp add: cl)
  show "world ?s = world s" by (simp add: s')
  show "client_at ?s j = client_at s j" if "j \<noteq> c" for j using that by (simp add: cl)
  have "length (outbox ?s i) = length (outbox s i)" for i
    using q'(3) x(1) by (simp add: outbox_def cl)
  then show "fits F ?s = fits F s" for F by (simp add: fits_def)
  show "cl_id (client_at ?s c) = cl_id (client_at s c)" "cl_name (client_at ?s c) = cl_name (client_at s c)" by (simp_all add: cl)
  show "posted (then_mail (mail_to c P') N) s0 ?s"
    unfolding posted_def
  proof (intro conjI allI impI)
    show "sock_fd ?s = sock_fd s0" "n_cli (clients ?s) = n_cli (clients s0)"
      using old(1) by (simp_all add: s' posted_def)
    fix i assume i: "i < MAX_CLIENTS"
    have "client_at ?s i = (client_at s i)\<lparr>msg_queue := msg_queue (client_at ?s i)\<rparr>" by (simp add: cl)
    moreover have "client_at s i = (client_at s0 i)\<lparr>msg_queue := msg_queue (client_at s i)\<rparr>"
      using old(1) i by (simp add: posted_def)
    ultimately show "client_at ?s i = (client_at s0 i)\<lparr>msg_queue := msg_queue (client_at ?s i)\<rparr>"
      by (rule only_queue_trans)
    show "\<exists>ps. outbox ?s i = outbox s0 i @ ps \<and> list_all2 (\<lambda>P p. P p) (then_mail (mail_to c P') N i) ps"
    proof (cases "i = c")
      case True
      with q'(3) fx(3) old(2) show ?thesis by (simp add: outbox_def cl then_mail_def mail_to_def)
    next
      case False
      then have "outbox ?s i = outbox s i" by (simp add: outbox_def cl)
      moreover have "\<exists>ps. outbox s i = outbox s0 i @ ps \<and>
          list_all2 (\<lambda>P p. P p) (then_mail (mail_to c P) N i) ps"
        using old(1) i unfolding posted_def by blast
      ultimately show ?thesis using False by (simp add: then_mail_def mail_to_def)
    qed
  qed
qed

lemma write_slot_twice:
  assumes "server_ok s" "c < MAX_CLIENTS" "last_slot k (msg_queue (client_at s c))"
    and f: "\<And>p. length p = PACKET_MAX_SIZE \<Longrightarrow> length (f p) = PACKET_MAX_SIZE"
  shows "write_slot c k g (write_slot c k f s) = write_slot c k (\<lambda>p. g (f p)) s"
proof -
  let ?q = "msg_queue (client_at s c)"
  have ok: "queue_ok 1440 4 ?q" using server_ok_client [OF assms(1,2)] by (simp add: client_ok_def)
  have "length (slot k ?q) = nat 1440" by (rule last_slot_write(5) [OF ok assms(3), of "replicate 1440 0"]) simp
  then have "slot k (set_slot k (f (slot k ?q)) ?q) = f (slot k ?q)"
    using f by (intro last_slot_write(4) [OF ok assms(3)]) simp
  then show ?thesis
    using assms(1,2) by (simp add: write_slot_def upd_client_twice) (simp add: upd_client_def set_slot_def)
qed

lemma client_write_slot:
  "server_ok s \<Longrightarrow> c < MAX_CLIENTS \<Longrightarrow> j \<noteq> c \<Longrightarrow> client_at (write_slot c k f s) j = client_at s j"
  by (simp add: write_slot_def client_upd_client)

lemma write_slot_fields:
  assumes "server_ok s" "c < MAX_CLIENTS"
  shows "cl_id (client_at (write_slot c k f s) j) = cl_id (client_at s j)"
    "cl_state (client_at (write_slot c k f s) j) = cl_state (client_at s j)"
    "cl_session_id (client_at (write_slot c k f s) j) = cl_session_id (client_at s j)"
    "cl_name (client_at (write_slot c k f s) j) = cl_name (client_at s j)"
  using assms by (simp_all add: write_slot_def client_upd_client)

lemma push_reserve: "push i f s = bindE (bindE (reserve i s) (\<lambda>(k, s1). Inr (k, write_slot i k f s1)))
    (\<lambda>(k, s'). Inr s')"
  by (cases "reserve i s") (auto simp: push_def)

lemma push_delivers_slots:
  assumes "server_ok s" "i < MAX_CLIENTS"
    and f: "\<And>p. p \<in> set (q_slots (msg_queue (client_at s i))) \<Longrightarrow> length p = PACKET_MAX_SIZE \<Longrightarrow>
      length (f p) = PACKET_MAX_SIZE \<and> fits_packet (f p) \<and> P (f p)"
  shows "delivers (mail_to i P) s
    (\<lambda>s'. only_posts (mail_to i P) s s' \<and> (\<forall>j. j \<noteq> i \<longrightarrow> client_at s' j = client_at s j)) (push i f s)"
  using reserve_write_delivers [where f = f and P = P, OF assms] unfolding push_reserve
  by (auto simp: delivers_def split: if_splits)

lemma push_delivers_other:
  assumes "server_ok s" "i < MAX_CLIENTS"
    and f: "\<And>p. length p = PACKET_MAX_SIZE \<Longrightarrow>
      length (f p) = PACKET_MAX_SIZE \<and> fits_packet (f p) \<and> P (f p)"
  shows "delivers (mail_to i P) s
    (\<lambda>s'. only_posts (mail_to i P) s s' \<and> (\<forall>j. j \<noteq> i \<longrightarrow> client_at s' j = client_at s j)) (push i f s)"
  using push_delivers_slots [OF assms(1,2), of f P] f by blast

lemma push_delivers:
  assumes "server_ok s" "i < MAX_CLIENTS"
    and f: "\<And>p. length p = PACKET_MAX_SIZE \<Longrightarrow>
      length (f p) = PACKET_MAX_SIZE \<and> fits_packet (f p) \<and> P (f p)"
  shows "delivers (mail_to i P) s (only_posts (mail_to i P) s) (push i f s)"
  by (rule delivers_mono [OF push_delivers_other [where f = f and P = P, OF assms]]) auto

text \<open>The messages of \<^verbatim>\<open>send_single_user\<close> and \<^verbatim>\<open>send_transfer_state\<close>.\<close>

definition user_notice :: "u32 \<Rightarrow> client_id \<Rightarrow> bytes \<Rightarrow> packet \<Rightarrow> bool" where
  "user_notice ty id' nm p \<longleftrightarrow> hdr_type p = ty \<and>
     (if ty = P_SERVER_NEW_USERS
      then hdr_size p = of_nat sizeof_new_users \<and> nu_users_len p = 1 \<and> nu_id 0 p = id' \<and> nu_name 0 p = nm
      else hdr_size p = of_nat sizeof_del_user \<and> du_id p = id' \<and> du_name p = nm)"

definition transfer_notice :: "u32 \<Rightarrow> client_id \<Rightarrow> transfer_id \<Rightarrow> packet \<Rightarrow> bool" where
  "transfer_notice ty from t_id p \<longleftrightarrow> hdr_type p = ty \<and> hdr_size p = of_nat sizeof_transfer_state \<and>
     th_t_id p = t_id \<and> th_from p = from"

lemma send_single_user_delivers:
  assumes "server_ok s" "i < MAX_CLIENTS" "j < MAX_CLIENTS" "ty = P_SERVER_NEW_USERS \<or> ty = P_SERVER_DEL_USERS"
  defines "F \<equiv> mail_to i (user_notice ty (cl_id (client_at s j)) (cl_name (client_at s j)))"
  shows "delivers F s (\<lambda>s'. only_posts F s s' \<and> (\<forall>j. j \<noteq> i \<longrightarrow> client_at s' j = client_at s j))
    (send_single_user i j ty s)"
proof -
  have "length (cl_name (client_at s j)) = 16"
    using server_ok_client [OF assms(1,3)] by (simp add: client_ok_def)
  moreover have "assertE (ty = P_SERVER_NEW_USERS \<or> ty = P_SERVER_DEL_USERS) = Inr ()"
    using assms(4) by simp
  ultimately show ?thesis
    unfolding F_def send_single_user_def Let_def
    by (simp only: bindE_simps, intro push_delivers_other [OF assms(1,2)])
      (use assms(4) in \<open>auto simp: user_notice_def fits_packet_def packet_field_defs byte_simps\<close>)
qed

lemma send_transfer_state_delivers:
  assumes "server_ok s" "i < MAX_CLIENTS"
  shows "delivers (mail_to i (transfer_notice ty from t_id)) s
    (only_posts (mail_to i (transfer_notice ty from t_id)) s) (send_transfer_state i from t_id ty s)"
  unfolding send_transfer_state_def
  by (intro push_delivers [OF assms(1,2)])
    (auto simp: transfer_notice_def fits_packet_def packet_field_defs byte_simps)

section \<open>What handlers leave alone\<close>

text \<open>
  \<open>handled E s s'\<close>: \<open>s'\<close> is well formed, its clients are those of \<open>s\<close> with their identity, connection
  and the progress of the packet being read. Every handler of a packet keeps this relation.
\<close>

definition handled :: "'w env \<Rightarrow> 'w server \<Rightarrow> 'w server \<Rightarrow> bool" where
  "handled E s s' \<longleftrightarrow> server_ok s' \<and> sock_fd s' = sock_fd s \<and> n_cli (clients s') = n_cli (clients s) \<and>
     db_steps E (world s) (world s') \<and>
     (\<forall>i < MAX_CLIENTS. cl_id (client_at s' i) = cl_id (client_at s i) \<and> cl_fd (client_at s' i) = cl_fd (client_at s i) \<and>
        cl_secure (client_at s' i) = cl_secure (client_at s i) \<and>
        in_use (client_at s' i) = in_use (client_at s i) \<and>
        b_len (decrypt_buf (client_at s' i)) = b_len (decrypt_buf (client_at s i)) \<and>
        b_size (decrypt_buf (client_at s' i)) = b_size (decrypt_buf (client_at s i)))"

lemma handled_refl: "server_ok s \<Longrightarrow> handled E s s"
  by (simp add: handled_def db_refl)

lemma handled_trans: "handled E s s1 \<Longrightarrow> handled E s1 s2 \<Longrightarrow> handled E s s2"
  unfolding handled_def by (auto intro: db_steps_trans)

lemma handled_ok: "handled E s s' \<Longrightarrow> server_ok s'"
  by (simp add: handled_def)

lemma handled_world: "server_ok s \<Longrightarrow> db_steps E (world s) w \<Longrightarrow> handled E s (s\<lparr>world := w\<rparr>)"
  by (simp add: handled_def)

lemma handled_on_world: "server_ok s \<Longrightarrow> on_world f s = (x, s1) \<Longrightarrow> db_only E f \<Longrightarrow> handled E s s1"
  by (auto simp: on_world_def db_only_def split: prod.splits intro!: handled_world) (metis snd_conv)

lemma handled_upd_world: "server_ok s \<Longrightarrow> db_upd E f \<Longrightarrow> handled E s (upd_world f s)"
  by (simp add: upd_world_def handled_world db_upd_def)

lemma handled_posted: "posted F s s' \<Longrightarrow> server_ok s' \<Longrightarrow> db_steps E (world s) (world s') \<Longrightarrow> handled E s s'"
  unfolding handled_def by (simp add: posted_client) (simp add: posted_def)

lemma handled_only_posts: "only_posts F s s' \<Longrightarrow> handled E s s'"
  unfolding only_posts_def by (metis handled_posted db_refl)

lemma keepsE_handled_bind:
  assumes "keepsE df (handled E s) m" "\<And>s1. handled E s s1 \<Longrightarrow> keepsE df (handled E s1) (k s1)"
  shows "keepsE df (handled E s) (bindE m k)"
  using assms by (cases m) (auto simp: keepsE_def intro: handled_trans)

lemma keepsE_handled_from: "handled E s s1 \<Longrightarrow> keepsE df (handled E s1) m \<Longrightarrow> keepsE df (handled E s) m"
  by (auto simp: keepsE_def intro: handled_trans)

lemma keepsE_after_world:
  assumes "on_world f s = (x, s1)" "server_ok s" "db_only E f" "server_ok s1 \<Longrightarrow> keepsE df (handled E s1) m"
  shows "keepsE df (handled E s) m"
  using handled_on_world [OF assms(2,1,3)] assms(4) by (metis keepsE_handled_from handled_ok)

lemma keepsE_case_world:
  "server_ok s \<Longrightarrow> db_only E f \<Longrightarrow> (\<And>x s1. server_ok s1 \<Longrightarrow> keepsE df (handled E s1) (k x s1)) \<Longrightarrow>
   keepsE df (handled E s) (case on_world f s of (x, s1) \<Rightarrow> k x s1)"
  by (cases "on_world f s") (simp add: keepsE_after_world)

lemma push_handled:
  assumes "server_ok s" "i < MAX_CLIENTS"
    and "\<And>p. length p = PACKET_MAX_SIZE \<Longrightarrow> length (f p) = PACKET_MAX_SIZE \<and> fits_packet (f p)"
  shows "keepsE df (handled E s) (push i f s)"
proof -
  have "delivers (mail_to i (\<lambda>_. True)) s (only_posts (mail_to i (\<lambda>_. True)) s) (push i f s)"
    by (rule push_delivers [OF assms(1,2)]) (use assms(3) in blast)
  then show ?thesis by (rule keepsE_mono [OF delivers_keepsE]) (rule handled_only_posts)
qed

lemma send_transfer_state_handled:
  "server_ok s \<Longrightarrow> i < MAX_CLIENTS \<Longrightarrow> keepsE df (handled E s) (send_transfer_state i from t_id ty s)"
  by (rule keepsE_mono [OF delivers_keepsE [OF send_transfer_state_delivers]]) (auto intro: handled_only_posts)

lemma send_single_user_handled:
  "server_ok s \<Longrightarrow> i < MAX_CLIENTS \<Longrightarrow> j < MAX_CLIENTS \<Longrightarrow> ty = P_SERVER_NEW_USERS \<or> ty = P_SERVER_DEL_USERS \<Longrightarrow>
   keepsE df (handled E s) (send_single_user i j ty s)"
  by (rule keepsE_mono [OF delivers_keepsE [OF send_single_user_delivers]]) (auto intro: handled_only_posts)

section \<open>Mail and other updates of a client\<close>

lemma posted_mono:
  assumes "posted F s s'" "\<And>i. list_all2 (\<lambda>P Q. \<forall>p. P p \<longrightarrow> Q p) (F i) (G i)"
  shows "posted G s s'"
proof -
  have "\<exists>ps. outbox s' i = outbox s i @ ps \<and> list_all2 (\<lambda>P p. P p) (G i) ps" if "i < MAX_CLIENTS" for i
  proof -
    from posted_outbox [OF assms(1) that] obtain ps
      where ps: "outbox s' i = outbox s i @ ps" "list_all2 (\<lambda>P p. P p) (F i) ps" by blast
    then have "list_all2 (\<lambda>P p. P p) (G i) ps"
      using assms(2) [of i] by (auto simp: list_all2_conv_all_nth)
    with ps(1) show ?thesis by blast
  qed
  with assms(1) show ?thesis by (simp add: posted_def)
qed

lemma posted_upd_client:
  fixes s s' :: "'w server"
  assumes "posted F s s'" "server_ok s" "server_ok s'" "c < MAX_CLIENTS"
    and "\<And>x q. g (x\<lparr>msg_queue := q\<rparr>) = (g x)\<lparr>msg_queue := q\<rparr>" "\<And>x. msg_queue (g x) = msg_queue x"
  shows "posted F (upd_client c g s) (upd_client c g s')"
  unfolding posted_def
proof (intro conjI allI impI)
  show "sock_fd (upd_client c g s') = sock_fd (upd_client c g s)"
    "n_cli (clients (upd_client c g s')) = n_cli (clients (upd_client c g s))"
    using assms(1) by (simp_all add: posted_def)
  fix i assume i: "i < MAX_CLIENTS"
  then have "client_at s' i = (client_at s i)\<lparr>msg_queue := msg_queue (client_at s' i)\<rparr>"
    using assms(1) by (simp add: posted_def)
  then have "g (client_at s' i) = (g (client_at s i))\<lparr>msg_queue := msg_queue (client_at s' i)\<rparr>"
    using assms(5) by metis
  moreover have "msg_queue (client_at (upd_client c g s') i) = msg_queue (client_at s' i)"
    using assms(3,4,6) by (simp add: client_upd_client)
  ultimately show "client_at (upd_client c g s') i =
      (client_at (upd_client c g s) i)\<lparr>msg_queue := msg_queue (client_at (upd_client c g s') i)\<rparr>"
    using assms(2-4) \<open>client_at s' i = _\<close> by (cases "i = c") (simp_all only: client_upd_client if_True if_False simp_thms)
  have "outbox (upd_client c g t) i = outbox t i" if "server_ok t" for t :: "'w server"
    using that assms(4,6) by (simp add: outbox_def client_upd_client)
  then show "\<exists>ps. outbox (upd_client c g s') i = outbox (upd_client c g s) i @ ps \<and> list_all2 (\<lambda>P p. P p) (F i) ps"
    using posted_outbox [OF assms(1) i] assms(2,3) by simp
qed

lemma posted_world:
  "posted F (s\<lparr>world := w\<rparr>) s' = posted F s s'" "posted F s (s'\<lparr>world := w\<rparr>) = posted F s s'"
  by (simp_all add: posted_def outbox_def)

lemma fits_world [simp]: "fits F (s\<lparr>world := w\<rparr>) = fits F s"
  by (simp add: fits_def outbox_def)

lemma delivers_case_world:
  assumes "f (world s) = (y, w)" "delivers G (s\<lparr>world := w\<rparr>) Q (k y (s\<lparr>world := w\<rparr>))"
    and "\<And>x. Q x \<Longrightarrow> R x"
  shows "delivers G s R (case on_world f s of (y, s1) \<Rightarrow> k y s1)"
proof -
  have "delivers G (s\<lparr>world := w\<rparr>) R (k y (s\<lparr>world := w\<rparr>))"
    by (rule delivers_mono [OF assms(2,3)])
  then show ?thesis by (simp add: delivers_def on_world_def assms(1))
qed

text \<open>The elements of a queue after a push, those not in use included.\<close>

lemma push_slots:
  assumes "push i f s = Inr s'" "server_ok s" "i < MAX_CLIENTS"
  shows "set (q_slots (msg_queue (client_at s' i))) \<subseteq>
    set (q_slots (msg_queue (client_at s i))) \<union> f ` set (q_slots (msg_queue (client_at s i)))"
proof -
  let ?q = "msg_queue (client_at s i)"
  have ok: "queue_ok 1440 4 ?q" using server_ok_client [OF assms(2,3)] by (simp add: client_ok_def)
  obtain k q where e: "enqueue ?q = (Some k, q)" "k = nat (q_head ?q)" "q_slots q = q_slots ?q"
    using assms(1) by (auto simp: push_def reserve_def enqueue_def split: if_splits prod.splits option.splits)
  have "msg_queue (client_at s' i) = set_slot k (f (slot k q)) q"
    using assms e by (auto simp: push_def reserve_def write_slot_def upd_client_twice client_upd_client)
  moreover have "slot k q \<in> set (q_slots ?q)" using head_bounds [OF ok] e by (simp add: slot_def)
  ultimately show ?thesis
    using e(3) by (auto simp: set_slot_def dest!: set_update_subset_insert [THEN subsetD])
qed

section \<open>Example servers\<close>

text \<open>
  A client in the table that has received the packet \<open>p\<close> and has nothing to send, and a server
  with some such clients in the first slots of its table.
\<close>

definition example_client :: "int \<Rightarrow> client_id \<Rightarrow> client_state \<Rightarrow> session_id \<Rightarrow> packet \<Rightarrow> client" where
  "example_client fd id' st session p = free_client\<lparr>cl_fd := fd, cl_id := id', cl_state := st,
     cl_session_id := session,
     decrypt_buf := \<lparr>b_addr = 8192, b_data = p, b_len = 8 + hdr_size p, b_size = hdr_size p, b_bytes = 1440\<rparr>\<rparr>"

definition example_server :: "client list \<Rightarrow> 'w \<Rightarrow> 'w server" where
  "example_server cs w = \<lparr>sock_fd = 3, clients = table_of cs, world = w\<rparr>"

lemma example_client_simps [simp]:
  "cl_fd (example_client fd k st ses p) = fd" "cl_id (example_client fd k st ses p) = k"
  "cl_state (example_client fd k st ses p) = st" "cl_session_id (example_client fd k st ses p) = ses"
  "b_data (decrypt_buf (example_client fd k st ses p)) = p"
  "queue_list (msg_queue (example_client fd k st ses p)) = []"
  by (simp_all add: example_client_def free_client_def queue_list_def)

lemma example_client_ok:
  assumes "length p = PACKET_MAX_SIZE" "fits_packet p" "st = C_COMPLETE \<longrightarrow> ses \<noteq> 0"
  shows "client_ok (example_client fd k st ses p)"
proof -
  have "unat (8 + hdr_size p) = 8 + unat (hdr_size p)"
    using assms(2) by (simp add: fits_packet_def unat_word_ariths)
  then show ?thesis
    using free_client_ok(1) assms
    by (simp add: example_client_def client_ok_def framed_def buffer_ok_def fits_packet_def)
qed

lemma example_server_ok:
  "length cs \<le> MAX_CLIENTS \<Longrightarrow> \<forall>c \<in> set cs. client_ok c \<and> in_use c \<Longrightarrow> server_ok (example_server cs w)"
  by (simp add: server_ok_def example_server_def table_of_ok)

lemma example_server_client:
  "client_at (example_server cs w) i = (if i < length cs then cs ! i else (replicate (32 - length cs) free_client) ! (i - length cs))"
  by (simp add: client_at_def example_server_def table_of_def nth_append)

lemma example_server_simps [simp]:
  "world (example_server cs w) = w" "clients (example_server cs w) = table_of cs"
  by (simp_all add: example_server_def)

lemma example_server_empty:
  assumes "\<forall>c \<in> set cs. queue_list (msg_queue c) = []" "length cs \<le> MAX_CLIENTS"
    and "\<forall>i < MAX_CLIENTS. length (F i) \<le> QUEUE_LEN"
  shows "fits F (example_server cs w)"
  using assms by (simp add: fits_def outbox_def example_server_client)
    (simp add: free_client_def queue_list_def)

end
