(* ===== verification/Net_Packet.thy ===== *)
theory Net_Packet
  imports Server
begin

text \<open>
  The packet handlers of \<^verbatim>\<open>qs_server/src/net_packet.c\<close>, one definition for each function.
  Loops over the rows of a query take a bound on their turns (\<open>fuel\<close>), because SQLite decides
  when a query ends. The theories \<open>Net_Intro\<close> and \<open>Net_Transfer\<close> hold what is proved of them.
\<close>

section \<open>Session packets\<close>

text \<open>
  The loop of \<^verbatim>\<open>send_session_users\<close> over the slots that remain: \<open>pk\<close> is the pointer \<^verbatim>\<open>packet\<close>
  (\<open>None\<close> for NULL), \<open>n\<close> (\<^verbatim>\<open>count\<close>) the number of users written through it.
\<close>

fun session_users_loop :: "nat list \<Rightarrow> nat \<Rightarrow> nat option \<Rightarrow> nat \<Rightarrow> 'w server \<Rightarrow> fault + 'w server" where
  "session_users_loop [] c pk n s = Inr s"
| "session_users_loop (i # is) c pk n s =
     (if cl_id (client_at s i) \<noteq> cl_id (client_at s c) \<and> cl_state (client_at s i) = C_COMPLETE \<and>
         cl_session_id (client_at s i) = cl_session_id (client_at s c)
      then bindE (case pk of
               Some k \<Rightarrow> Inr (k, s)
             | None \<Rightarrow> bindE (reserve c s) (\<lambda>(k, s1).
                 Inr (k, write_slot c k (PACKET_HDR P_SERVER_NEW_USERS sizeof_new_users) s1)))
             (\<lambda>(k, s1).
               let s2 = write_slot c k (set_nu_name n (cl_name (client_at s1 i))) s1;
                   s3 = write_slot c k (set_nu_id n (cl_id (client_at s2 i))) s2;
                   s4 = write_slot c k (\<lambda>p. set_nu_users_len (nu_users_len p + 1) p) s3
               in bindE (send_single_user i c P_SERVER_NEW_USERS s4) (\<lambda>s5.
                    session_users_loop is c (Some k) (n + 1) s5))
      else session_users_loop is c pk n s)"

declare session_users_loop.simps(2) [simp del]

definition send_session_users :: "nat \<Rightarrow> 'w server \<Rightarrow> fault + 'w server" where
  "send_session_users c s = session_users_loop [0..<MAX_CLIENTS] c None 0 s"

definition server_resposne :: "nat \<Rightarrow> u32 \<Rightarrow> 'w server \<Rightarrow> fault + 'w server" where
  "server_resposne c type s = push c (PACKET_HDR type 0) s"

text \<open>The packet being handled: the contents of the client's \<^verbatim>\<open>decrypt_buf\<close>.\<close>

definition received :: "'w server \<Rightarrow> nat \<Rightarrow> packet" where
  "received s c = b_data (decrypt_buf (client_at s c))"

definition terminate_strings :: "packet \<Rightarrow> packet" where
  "terminate_strings p =
     put_bytes (24 + SESSION_ID_MAX_LEN - 1) [0] (put_bytes (8 + PC_NAME_MAX_LEN - 1) [0] p)"

definition packet_intro :: "'w env \<Rightarrow> nat \<Rightarrow> 'w server \<Rightarrow> fault + 'w server" where
  "packet_intro E c s =
     (if cl_state (client_at s c) = C_COMPLETE \<or> intro_session (received s c) > 1
      then server_resposne c P_SERVER_DENY s
      else
        let s1 = upd_client c (\<lambda>x. x\<lparr>decrypt_buf := (decrypt_buf x)\<lparr>b_data :=
                   terminate_strings (b_data (decrypt_buf x))\<rparr>\<rparr>) s;
            p = received s1 c;
            (session, s2) =
              (if intro_session p = 0 then on_world (db_get_session E (intro_id p)) s1
               else if intro_session p = 1 then on_world (db_create_session E (intro_id p)) s1
               else (0, s1))
        in if session = 0 then server_resposne c P_SERVER_DENY s2
           else bindE (server_resposne c P_SERVER_OK s2) (\<lambda>s3.
             send_session_users c
               (upd_client c (\<lambda>x. x\<lparr>cl_state := C_COMPLETE, cl_session_id := session,
                                    cl_name := intro_name p\<rparr>) s3)))"

section \<open>Transfer requests\<close>

fun check_recipients_loop :: "'w env \<Rightarrow> nat \<Rightarrow> transfer_id \<Rightarrow> packet \<Rightarrow> nat list \<Rightarrow> 'w server \<Rightarrow>
    bool \<times> 'w server" where
  "check_recipients_loop E c t_id p [] s = (True, s)"
| "check_recipients_loop E c t_id p (i # is) s =
     (if th_to i p = 0 then (i \<noteq> 0, s)
      else case client_find_by_id (clients s) (th_to i p) of
             None \<Rightarrow> (False, s)
           | Some r \<Rightarrow>
               if cl_session_id (client_at s r) \<noteq> cl_session_id (client_at s c) then (False, s)
               else let (created, s1) = on_world (db_create_client E t_id (cl_id (client_at s r))) s
                    in if \<not> created then (False, s1) else check_recipients_loop E c t_id p is s1)"

definition check_recipients :: "'w env \<Rightarrow> nat \<Rightarrow> transfer_id \<Rightarrow> packet \<Rightarrow> 'w server \<Rightarrow> bool \<times> 'w server" where
  "check_recipients E c t_id p s = check_recipients_loop E c t_id p [0..<TRANSFER_CLIENTS_MAX] s"

fun echo_request_loop :: "nat \<Rightarrow> packet \<Rightarrow> transfer_id \<Rightarrow> nat list \<Rightarrow> 'w server \<Rightarrow> fault + 'w server" where
  "echo_request_loop c req t_id [] s = Inr s"
| "echo_request_loop c req t_id (i # is) s =
     (if th_to i req = 0 then Inr s
      else case client_find_by_id (clients s) (th_to i req) of
             None \<Rightarrow> Inl Assert_Failed
           | Some r \<Rightarrow>
               bindE (push r (\<lambda>_. set_th_t_id t_id (set_th_from (cl_id (client_at s c)) req)) s)
                 (\<lambda>s1. echo_request_loop c req t_id is s1))"

definition echo_transfer_request :: "nat \<Rightarrow> packet \<Rightarrow> transfer_id \<Rightarrow> 'w server \<Rightarrow> fault + 'w server" where
  "echo_transfer_request c req t_id s = echo_request_loop c req t_id [0..<TRANSFER_CLIENTS_MAX] s"

definition send_transfer_response :: "nat \<Rightarrow> packet \<Rightarrow> u32 \<Rightarrow> transfer_id \<Rightarrow> 'w server \<Rightarrow> fault + 'w server" where
  "send_transfer_response c req type t_id s =
     bindE (assertE (type = P_TRANSFER_INVALID \<or> type = P_TRANSFER_VALID)) (\<lambda>_.
       push c (\<lambda>_. let p = PACKET_HDR type sizeof_request req
                   in if type = P_TRANSFER_VALID then set_th_t_id t_id p else p) s)"

text \<open>
  \<^verbatim>\<open>debug_transfer\<close> formats a log message into a buffer of 124 bytes on the stack. What matters
  is the number of characters of each piece: \<open>digits\<close> of a number in decimal, 50 characters of
  title, 44 of labels around the three values, 4 around a client id. \<open>snprintf_at\<close> is the write
  of \<^verbatim>\<open>snprintf\<close> at offset \<open>pos\<close> of the buffer; its return value is \<open>n\<close> even when the text is cut.
  \<^verbatim>\<open>capacity\<close> is a \<^verbatim>\<open>size_t\<close> and wraps around.
\<close>

fun digits :: "nat \<Rightarrow> nat" where
  "digits n = (if n < 10 then 1 else 1 + digits (n div 10))"

declare digits.simps [simp del]

definition signed_digits :: "u64 \<Rightarrow> nat" where
  "signed_digits v = (if sint v < 0 then 1 + digits (nat (- sint v)) else digits (nat (sint v)))"

definition snprintf_at :: "nat \<Rightarrow> u64 \<Rightarrow> nat \<Rightarrow> fault + unit" where
  "snprintf_at pos capacity n =
     (if capacity = 0 \<or> pos + min n (unat capacity - 1) + 1 \<le> 124 then Inr () else Inl Undefined)"

fun debug_users :: "packet \<Rightarrow> nat list \<Rightarrow> nat \<Rightarrow> u64 \<Rightarrow> fault + unit" where
  "debug_users p [] pos capacity = Inr ()"
| "debug_users p (i # is) pos capacity =
     (if th_to i p = 0 then Inr ()
      else let n = 4 + signed_digits (th_to i p); capacity1 = capacity - of_nat n
           in bindE (snprintf_at pos capacity n) (\<lambda>_.
                if n \<ge> unat capacity1 then Inr () else debug_users p is (pos + n) capacity1))"

definition debug_transfer :: "packet \<Rightarrow> fault + unit" where
  "debug_transfer p =
     (let n1 = 50;
          n2 = 44 + length (cstr (rq_file_name p)) + digits (unat (rq_file_size p)) +
               digits (unat (rq_client_transfer_id p))
      in bindE (snprintf_at 0 124 n1) (\<lambda>_.
           if n1 + n2 + 1 \<le> 124
           then debug_users p [0..<TRANSFER_CLIENTS_MAX] (n1 + n2) (124 - of_nat n1 - of_nat n2)
           else Inl Undefined))"

definition packet_transfer :: "'w env \<Rightarrow> nat \<Rightarrow> 'w server \<Rightarrow> fault + 'w server" where
  "packet_transfer E c s =
     (let p = received s c;
          (begun, s1) = on_world (db_transaction E BEGIN_TRANSACTION) s
      in if \<not> begun then send_transfer_response c p P_TRANSFER_INVALID 0 s1
         else
           let (t_id, s2) = on_world (db_create_transfer E (cl_id (client_at s1 c))) s1;
               (valid, s3) = (if t_id = 0 then (False, s2) else check_recipients E c t_id p s2);
               (committed, s4) = (if \<not> valid then (False, s3)
                                  else on_world (db_transaction E COMMIT_TRANSACTION) s3)
           in if committed
              then bindE (send_transfer_response c p P_TRANSFER_VALID t_id s4) (\<lambda>s5.
                     echo_transfer_request c p t_id s5)
              else bindE (send_transfer_response c p P_TRANSFER_INVALID 0 s4) (\<lambda>s5.
                     let (_, s6) = on_world (db_transaction E ROLLBACK_TRANSACTION) s5
                     in bindE (debug_transfer p) (\<lambda>_. Inr s6)))"

section \<open>Packets of a running transfer\<close>

definition packet_reply :: "'w env \<Rightarrow> nat \<Rightarrow> 'w server \<Rightarrow> fault + 'w server" where
  "packet_reply E c s =
     (let p = received s c;
          s1 = upd_world (db_client_accept E (cl_id (client_at s c)) (th_t_id p) (tr_accept p \<noteq> 0)) s;
          (c_id, s2) = on_world (db_get_creator_by_tid E (th_t_id p)) s1
      in if c_id = 0 then Inr s2
         else case client_find_by_id (clients s2) c_id of
                None \<Rightarrow> Inl Assert_Failed
              | Some r \<Rightarrow> push r (\<lambda>_. set_th_from (cl_id (client_at s2 c)) p) s2)"

text \<open>
  The loop over the accepted recipients, in \<^verbatim>\<open>packet_data\<close> and again in \<^verbatim>\<open>packet_complete\<close>:
  \<open>recp_id\<close> is the id fetched last.
\<close>

fun echo_accepted :: "'w env \<Rightarrow> nat \<Rightarrow> packet \<Rightarrow> client_id \<Rightarrow> 'w server \<Rightarrow> fault + 'w server" where
  "echo_accepted E fuel p recp_id s =
     (if recp_id = 0 then Inr s
      else case fuel of 0 \<Rightarrow> Inl Out_Of_Fuel | Suc m \<Rightarrow>
        bindE (case client_find_by_id (clients s) recp_id of
                 None \<Rightarrow> Inr s | Some other \<Rightarrow> push other (\<lambda>_. p) s)
          (\<lambda>s1. let (next_id, s2) = on_world (db_client_all_step_accepted E) s1
                in echo_accepted E m p next_id s2))"

declare echo_accepted.simps [simp del]

definition packet_data :: "'w env \<Rightarrow> nat \<Rightarrow> nat \<Rightarrow> 'w server \<Rightarrow> fault + 'w server" where
  "packet_data E fuel c s =
     (let p = received s c;
          (recp_id, s1) = on_world (db_get_client_all_accepted E (td_t_id p)) s
      in echo_accepted E fuel p recp_id s1)"

text \<open>
  The loop over the clients of a transfer that tells each one that is connected of its end, in
  \<^verbatim>\<open>cancel_as_creator\<close> and again in \<^verbatim>\<open>cancel_transaction_creator\<close> of \<^verbatim>\<open>net_close.c\<close>.
\<close>

fun cancel_clients :: "'w env \<Rightarrow> nat \<Rightarrow> nat \<Rightarrow> transfer_id \<Rightarrow> client_id \<Rightarrow> 'w server \<Rightarrow> fault + 'w server" where
  "cancel_clients E fuel c t_id t_client_id s =
     (if t_client_id = 0 then Inr s
      else case fuel of 0 \<Rightarrow> Inl Out_Of_Fuel | Suc m \<Rightarrow>
        bindE (case client_find_by_id (clients s) t_client_id of
                 None \<Rightarrow> Inr s
               | Some r \<Rightarrow> send_transfer_state r (cl_id (client_at s c)) t_id P_TRANSFER_CANCEL s)
          (\<lambda>s1. let (next_id, s2) = on_world (db_client_all_step E) s1
                in cancel_clients E m c t_id next_id s2))"

declare cancel_clients.simps [simp del]

fun creator_loop :: "'w env \<Rightarrow> nat \<Rightarrow> nat \<Rightarrow> nat \<Rightarrow> transfer_id \<Rightarrow> transfer_id \<Rightarrow> 'w server \<Rightarrow>
    fault + (bool \<times> 'w server)" where
  "creator_loop E fuel n c target t_id s =
     (if t_id = 0 then Inr (False, s)
      else if t_id = target then
        let (t_client_id, s1) = on_world (db_get_client_all E t_id) s
        in bindE (cancel_clients E fuel c t_id t_client_id s1) (\<lambda>s2.
             Inr (True, upd_world (db_cleanup_transfer E t_id) s2))
      else case n of 0 \<Rightarrow> Inl Out_Of_Fuel | Suc m \<Rightarrow>
        let (next_id, s1) = on_world (db_transfer_step E) s
        in creator_loop E fuel m c target next_id s1)"

declare creator_loop.simps [simp del]

definition cancel_as_creator :: "'w env \<Rightarrow> nat \<Rightarrow> nat \<Rightarrow> transfer_id \<Rightarrow> 'w server \<Rightarrow>
    fault + (bool \<times> 'w server)" where
  "cancel_as_creator E fuel c target s =
     (let (t_id, s1) = on_world (db_get_transfer E (cl_id (client_at s c))) s
      in creator_loop E fuel fuel c target t_id s1)"

fun recipient_loop :: "'w env \<Rightarrow> nat \<Rightarrow> nat \<Rightarrow> transfer_id \<Rightarrow> transfer_info \<Rightarrow> 'w server \<Rightarrow>
    fault + (bool \<times> 'w server)" where
  "recipient_loop E n c target info s =
     (if creator info = 0 then Inr (False, s)
      else if info_t_id info = target then
        bindE (case client_find_by_id (clients s) (creator info) of
                 None \<Rightarrow> Inr s
               | Some r \<Rightarrow> send_transfer_state r (cl_id (client_at s c)) (info_t_id info) P_TRANSFER_CANCEL s)
          (\<lambda>s1. Inr (True, upd_world (db_client_delete E (cl_id (client_at s1 c))) s1))
      else case n of 0 \<Rightarrow> Inl Out_Of_Fuel | Suc m \<Rightarrow>
        let (next_info, s1) = on_world (db_creator_step E) s
        in recipient_loop E m c target next_info s1)"

declare recipient_loop.simps [simp del]

definition cancel_as_recipient :: "'w env \<Rightarrow> nat \<Rightarrow> nat \<Rightarrow> transfer_id \<Rightarrow> 'w server \<Rightarrow>
    fault + (bool \<times> 'w server)" where
  "cancel_as_recipient E fuel c target s =
     (let (info, s1) = on_world (db_get_creator E (cl_id (client_at s c))) s
      in recipient_loop E fuel c target info s1)"

definition packet_cancel :: "'w env \<Rightarrow> nat \<Rightarrow> nat \<Rightarrow> 'w server \<Rightarrow> fault + 'w server" where
  "packet_cancel E fuel c s =
     (let (begun, s1) = on_world (db_transaction E BEGIN_TRANSACTION) s
      in if \<not> begun then Inr s1
         else let t_id = th_t_id (received s1 c)
              in bindE (cancel_as_creator E fuel c t_id s1) (\<lambda>(done, s2).
                 bindE (if done then Inr (True, s2) else cancel_as_recipient E fuel c t_id s2) (\<lambda>(_, s3).
                   Inr (snd (on_world (db_transaction E COMMIT_TRANSACTION) s3)))))"

fun complete_loop :: "'w env \<Rightarrow> nat \<Rightarrow> nat \<Rightarrow> packet \<Rightarrow> transfer_id \<Rightarrow> 'w server \<Rightarrow> fault + 'w server" where
  "complete_loop E fuel n p creator_t_id s =
     (if creator_t_id = 0 then Inr s
      else if creator_t_id = td_t_id p then
        let (recp_id, s1) = on_world (db_get_client_all_accepted E creator_t_id) s
        in bindE (echo_accepted E fuel p recp_id s1) (\<lambda>s2.
             Inr (upd_world (db_cleanup_transfer E creator_t_id) s2))
      else case n of 0 \<Rightarrow> Inl Out_Of_Fuel | Suc m \<Rightarrow>
        let (next_id, s1) = on_world (db_transfer_step E) s
        in complete_loop E fuel m p next_id s1)"

declare complete_loop.simps [simp del]

definition packet_complete :: "'w env \<Rightarrow> nat \<Rightarrow> nat \<Rightarrow> 'w server \<Rightarrow> fault + 'w server" where
  "packet_complete E fuel c s =
     (let p = received s c;
          (t_id, s1) = on_world (db_get_transfer E (cl_id (client_at s c))) s
      in complete_loop E fuel fuel p t_id s1)"

definition analize_packet :: "'w env \<Rightarrow> nat \<Rightarrow> nat \<Rightarrow> 'w server \<Rightarrow> fault + 'w server" where
  "analize_packet E fuel c s =
     (let type = hdr_type (received s c)
      in if type = P_CLIENT_INTRO then packet_intro E c s
         else if type = P_TRANSFER_REQUEST then packet_transfer E c s
         else if type = P_TRANSFER_REPLY then packet_reply E c s
         else if type = P_TRANSFER_DATA then packet_data E fuel c s
         else if type = P_TRANSFER_COMPLETE then packet_complete E fuel c s
         else if type = P_TRANSFER_CANCEL then packet_cancel E fuel c s
         else Inr s)"

end
