(* ===== verification/Net_Intro.thy ===== *)
theory Net_Intro
  imports Net_Packet
begin

text \<open>
  What \<^verbatim>\<open>packet_intro\<close> and \<^verbatim>\<open>send_session_users\<close> of \<^verbatim>\<open>qs_server/src/net_packet.c\<close> do: the messages
  they post, the session they enter the client into, and that they keep the server well formed.
\<close>

section \<open>Announcing a new member of a session\<close>

definition session_peer :: "'w server \<Rightarrow> nat \<Rightarrow> nat \<Rightarrow> bool" where
  "session_peer s c i \<longleftrightarrow> cl_id (client_at s i) \<noteq> cl_id (client_at s c) \<and> cl_state (client_at s i) = C_COMPLETE \<and>
     cl_session_id (client_at s i) = cl_session_id (client_at s c)"

definition name_card :: "'w server \<Rightarrow> nat \<Rightarrow> client_id \<times> bytes" where
  "name_card s i = (cl_id (client_at s i), cl_name (client_at s i))"

text \<open>
  The list of users a joining client receives. The sender increments \<^verbatim>\<open>users_len\<close> once for each user and
  never sets it: it counts on from one of the numbers \<open>K\<close> that the elements of the queue held before.
\<close>

definition session_list :: "u8 set \<Rightarrow> (client_id \<times> bytes) list \<Rightarrow> packet \<Rightarrow> bool" where
  "session_list K us p \<longleftrightarrow> hdr_type p = P_SERVER_NEW_USERS \<and> hdr_size p = of_nat sizeof_new_users \<and>
     (\<forall>j < length us. (nu_id j p, nu_name j p) = us ! j) \<and>
     (\<exists>k \<in> K. nu_users_len p = k + of_nat (length us))"

definition notices :: "'w server \<Rightarrow> nat \<Rightarrow> u32 \<Rightarrow> nat list \<Rightarrow> mail" where
  "notices s c ty js = (\<lambda>i. if i \<in> set js then [user_notice ty (cl_id (client_at s c)) (cl_name (client_at s c))] else [])"

lemma notices_Nil [simp]: "notices s c ty [] = no_mail"
  by (simp add: notices_def no_mail_def)

lemma notices_Cons:
  "i \<notin> set js \<Longrightarrow> notices s c ty (i # js) =
     then_mail (mail_to i (user_notice ty (cl_id (client_at s c)) (cl_name (client_at s c)))) (notices s c ty js)"
  by (auto simp: notices_def then_mail_def mail_to_def)

lemma posted_peer:
  assumes "posted F s s'" "c < MAX_CLIENTS"
  shows "i < MAX_CLIENTS \<Longrightarrow> session_peer s' c i = session_peer s c i"
    "i < MAX_CLIENTS \<Longrightarrow> name_card s' i = name_card s i" "notices s' c ty js = notices s c ty js"
  using posted_client [OF assms(1)] assms(2) by (simp_all add: session_peer_def name_card_def notices_def cong: if_cong)

text \<open>Writing one more user.\<close>

definition add_user :: "nat \<Rightarrow> client_id \<times> bytes \<Rightarrow> packet \<Rightarrow> packet" where
  "add_user n u p = (let p1 = set_nu_id n (fst u) (set_nu_name n (snd u) p)
                     in set_nu_users_len (nu_users_len p1 + 1) p1)"

lemma add_user_list:
  assumes "length p = PACKET_MAX_SIZE" "session_list z us p" "length us < MAX_CLIENTS"
    and "length (snd u) = PC_NAME_MAX_LEN"
  shows "length (add_user (length us) u p) = PACKET_MAX_SIZE" "session_list z (us @ [u]) (add_user (length us) u p)"
proof -
  let ?n = "length us"
  show "length (add_user ?n u p) = PACKET_MAX_SIZE" using assms by (simp add: add_user_def Let_def)
  have "(nu_id j (add_user ?n u p), nu_name j (add_user ?n u p)) = (us @ [u]) ! j" if "j < Suc ?n" for j
  proof (cases "j = ?n")
    case True
    then show ?thesis using assms by (simp add: add_user_def packet_field_defs byte_simps Let_def)
  next
    case False
    with that have "j < ?n" by simp
    then have "nu_id j (add_user ?n u p) = nu_id j p" "nu_name j (add_user ?n u p) = nu_name j p"
      using assms by (simp_all add: add_user_def packet_field_defs byte_simps Let_def)
    with \<open>j < ?n\<close> assms(2) show ?thesis by (simp add: session_list_def nth_append)
  qed
  moreover have "nu_users_len (add_user ?n u p) = nu_users_len p + 1" "hdr_type (add_user ?n u p) = hdr_type p"
    "hdr_size (add_user ?n u p) = hdr_size p"
    using assms by (simp_all add: add_user_def packet_field_defs byte_simps Let_def)
  ultimately show "session_list z (us @ [u]) (add_user ?n u p)"
    using assms(2) by (auto simp: session_list_def add.commute add.left_commute)
qed

lemma write_user:
  assumes "server_ok s" "c < MAX_CLIENTS" "last_slot k (msg_queue (client_at s c))" "i \<noteq> c" "n < MAX_CLIENTS"
    and "length (cl_name (client_at s i)) = PC_NAME_MAX_LEN"
    and ok2: "server_ok (write_slot c k (set_nu_name n (cl_name (client_at s i))) s)"
    and l2: "last_slot k (msg_queue (client_at (write_slot c k (set_nu_name n (cl_name (client_at s i))) s) c))"
  shows "(let s2 = write_slot c k (set_nu_name n (cl_name (client_at s i))) s;
              s3 = write_slot c k (set_nu_id n (cl_id (client_at s2 i))) s2
          in write_slot c k (\<lambda>p. set_nu_users_len (nu_users_len p + 1) p) s3) =
         write_slot c k (add_user n (name_card s i)) s"
proof -
  let ?s2 = "write_slot c k (set_nu_name n (cl_name (client_at s i))) s"
  have "client_at ?s2 i = client_at s i" using client_write_slot assms(1,2,4) by blast
  moreover have "write_slot c k (\<lambda>p. set_nu_users_len (nu_users_len p + 1) p)
      (write_slot c k (set_nu_id n x) ?s2) =
    write_slot c k (\<lambda>p. let p1 = set_nu_id n x (set_nu_name n (cl_name (client_at s i)) p)
                        in set_nu_users_len (nu_users_len p1 + 1) p1) s" for x
    using assms by (simp add: write_slot_twice Let_def)
  ultimately show ?thesis by (simp add: add_user_def [abs_def] name_card_def Let_def)
qed

lemma session_skip:
  "\<not> session_peer s c i \<Longrightarrow> session_users_loop (i # xs) c pk n s = session_users_loop xs c pk n s"
  unfolding session_peer_def session_users_loop.simps(2) by (rule if_not_P)

lemma session_write:
  "session_peer s c i \<Longrightarrow> session_users_loop (i # xs) c pk n s =
     bindE (case pk of
               Some k \<Rightarrow> Inr (k, s)
             | None \<Rightarrow> bindE (reserve c s) (\<lambda>(k, s1).
                 Inr (k, write_slot c k (PACKET_HDR P_SERVER_NEW_USERS sizeof_new_users) s1)))
             (\<lambda>(k, s1).
               let s2 = write_slot c k (set_nu_name n (cl_name (client_at s1 i))) s1;
                   s3 = write_slot c k (set_nu_id n (cl_id (client_at s2 i))) s2;
                   s4 = write_slot c k (\<lambda>p. set_nu_users_len (nu_users_len p + 1) p) s3
               in bindE (send_single_user i c P_SERVER_NEW_USERS s4) (\<lambda>s5.
                    session_users_loop xs c (Some k) (n + 1) s5))"
  unfolding session_peer_def session_users_loop.simps(2) by (rule if_P)

text \<open>The loop once the packet exists, for the state \<open>s0\<close> in which the announcement started.\<close>

lemma session_loop_started:
  assumes "server_ok s" "c < MAX_CLIENTS" "\<forall>i \<in> set xs. i < MAX_CLIENTS" "distinct xs"
    and "last_slot k (msg_queue (client_at s c))" "posted (then_mail (mail_to c (session_list z us)) N) s0 s"
    and "N c = []" "length us + length xs \<le> MAX_CLIENTS" "n = length us"
  shows "delivers (notices s c P_SERVER_NEW_USERS (filter (session_peer s c) xs)) s
    (\<lambda>s'. server_ok s' \<and> world s' = world s \<and>
       posted (then_mail (mail_to c (session_list z (us @ map (name_card s) (filter (session_peer s c) xs))))
                 (then_mail N (notices s c P_SERVER_NEW_USERS (filter (session_peer s c) xs)))) s0 s')
    (session_users_loop xs c (Some k) n s)"
  using assms
proof (induction xs arbitrary: s us N n)
  case Nil
  then show ?case by (simp add: delivers_Inr)
next
  case (Cons i xs)
  show ?case
  proof (cases "session_peer s c i")
    case False
    with Cons show ?thesis by (simp add: session_skip)
  next
    case True
    note ok = Cons.prems(1,2) and l = Cons.prems(5)
    have i: "i < 32" "i \<noteq> c" and us: "length us < 32" "n = length us" and xs: "i \<notin> set xs" "distinct xs"
      using Cons.prems True by (auto simp: session_peer_def)
    have nm: "length (cl_name (client_at s i)) = 16" using server_ok_client [OF ok(1) i(1)] by (simp add: client_ok_def)
    let ?f = "set_nu_name n (cl_name (client_at s i))"
    have keep: "length p = 1440 \<Longrightarrow> length (?f p) = 1440 \<and> fits_packet (?f p) = fits_packet p" for p
      using nm us by (simp add: fits_packet_def packet_field_defs byte_simps)
    note w1 = write_last [OF ok l Cons.prems(6,7), where f = ?f and P' = "\<lambda>_. True"]
    have ok1: "server_ok (write_slot c k ?f s)" "last_slot k (msg_queue (client_at (write_slot c k ?f s) c))"
      using w1(1,2) keep by blast+
    let ?s4 = "write_slot c k (add_user n (name_card s i)) s"
    let ?us = "us @ [name_card s i]"
    have "length p = 1440 \<Longrightarrow> session_list z us p \<Longrightarrow> fits_packet p \<Longrightarrow>
        length (add_user n (name_card s i) p) = 1440 \<and> fits_packet (add_user n (name_card s i) p) \<and>
        session_list z ?us (add_user n (name_card s i) p)" for p
      using add_user_list [of p z us "name_card s i"] us nm
      by (simp add: name_card_def fits_packet_def session_list_def)
    note w = write_last [OF ok l Cons.prems(6,7), where f = "add_user n (name_card s i)" and
        P' = "session_list z ?us", OF this]
    have run: "session_users_loop (i # xs) c (Some k) n s =
        bindE (send_single_user i c P_SERVER_NEW_USERS ?s4) (\<lambda>s5. session_users_loop xs c (Some k) (n + 1) s5)"
      using True write_user [OF ok l i(2) _ nm ok1, unfolded Let_def] us
      by (simp add: session_write Let_def)
    let ?m = "mail_to i (user_notice P_SERVER_NEW_USERS (cl_id (client_at s c)) (cl_name (client_at s c)))"
    let ?js = "filter (session_peer s c) xs"
    have send: "delivers ?m ?s4 (\<lambda>s'. only_posts ?m ?s4 s' \<and> (\<forall>j. j \<noteq> i \<longrightarrow> client_at s' j = client_at ?s4 j))
        (send_single_user i c P_SERVER_NEW_USERS ?s4)"
      using send_single_user_delivers [OF w(1) i(1) ok(2), of P_SERVER_NEW_USERS] by (simp add: write_slot_fields [OF ok])
    have "delivers (then_mail ?m (notices s c P_SERVER_NEW_USERS ?js)) ?s4
      (\<lambda>s'. server_ok s' \<and> world s' = world s \<and>
         posted (then_mail (mail_to c (session_list z (?us @ map (name_card s) ?js)))
             (then_mail (then_mail N ?m) (notices s c P_SERVER_NEW_USERS ?js))) s0 s')
      (session_users_loop (i # xs) c (Some k) n s)"
      unfolding run
    proof (rule delivers_bind [OF send])
      fix s5 assume s5: "only_posts ?m ?s4 s5 \<and> (\<forall>j. j \<noteq> i \<longrightarrow> client_at s5 j = client_at ?s4 j)"
      then have p: "posted ?m ?s4 s5" and ok5: "server_ok s5" by (auto simp: only_posts_def)
      have "posted (then_mail (then_mail (mail_to c (session_list z ?us)) N) ?m) s0 s5"
        by (rule posted_trans [OF w(3) p])
      moreover have "posted ?m (?s4) s5" by (rule p)
      moreover have "last_slot k (msg_queue (client_at s5 c))" using s5 w(2) i(2) by simp
      moreover have "then_mail N ?m c = []" using Cons.prems(7) i(2) by (simp add: then_mail_def mail_to_def)
      ultimately have IH: "delivers (notices s5 c P_SERVER_NEW_USERS (filter (session_peer s5 c) xs)) s5
        (\<lambda>s'. server_ok s' \<and> world s' = world s5 \<and>
           posted (then_mail (mail_to c (session_list z (?us @ map (name_card s5) (filter (session_peer s5 c) xs))))
             (then_mail (then_mail N ?m) (notices s5 c P_SERVER_NEW_USERS (filter (session_peer s5 c) xs)))) s0 s')
        (session_users_loop xs c (Some k) (n + 1) s5)"
        using Cons.prems ok5 us by (intro Cons.IH) (simp_all add: then_mail_assoc)
      have old: "session_peer s5 c j = session_peer s c j" "name_card s5 j = name_card s j" if "j \<in> set xs" for j
      proof -
        have j: "j < 32" using that Cons.prems(3) by simp
        show "session_peer s5 c j = session_peer s c j" "name_card s5 j = name_card s j"
          using posted_peer [OF p ok(2)] j write_slot_fields [OF ok] by (simp_all add: session_peer_def name_card_def)
      qed
      then have js: "filter (session_peer s5 c) xs = ?js" "map (name_card s5) ?js = map (name_card s) ?js"
        by (auto cong: filter_cong)
      have no: "notices s5 c P_SERVER_NEW_USERS ?js = notices s c P_SERVER_NEW_USERS ?js"
        unfolding posted_peer(3) [OF p ok(2)] unfolding notices_def write_slot_fields [OF ok] ..
      have wd: "world s5 = world s" using s5 by (simp add: only_posts_def w(4))
      show "\<exists>s'. posted ?m ?s4 s' \<and> delivers (notices s c P_SERVER_NEW_USERS ?js) s'
         (\<lambda>s'. server_ok s' \<and> world s' = world s \<and>
         posted (then_mail (mail_to c (session_list z (?us @ map (name_card s) ?js)))
             (then_mail (then_mail N ?m) (notices s c P_SERVER_NEW_USERS ?js))) s0 s')
         (session_users_loop xs c (Some k) (n + 1) s5)"
        using p IH unfolding js no wd by blast
    qed
    moreover have "notices s c P_SERVER_NEW_USERS (i # ?js) = then_mail ?m (notices s c P_SERVER_NEW_USERS ?js)"
      using xs(1) by (intro notices_Cons) simp
    ultimately show ?thesis
      using True w(6) by (simp add: delivers_def then_mail_assoc)
  qed
qed

text \<open>The values in the field \<^verbatim>\<open>users_len\<close> of the elements of a queue: 0 in a new one, stale in elements used before.\<close>

definition old_counts :: "'w server \<Rightarrow> nat \<Rightarrow> u8 set" where
  "old_counts s c = nu_users_len ` set (q_slots (msg_queue (client_at s c)))"

definition announcement :: "'w server \<Rightarrow> nat \<Rightarrow> nat list \<Rightarrow> mail" where
  "announcement s c js =
     then_mail (if js = [] then no_mail else mail_to c (session_list (old_counts s c) (map (name_card s) js)))
       (notices s c P_SERVER_NEW_USERS js)"

lemma session_loop_delivers:
  assumes "server_ok s" "c < MAX_CLIENTS"
  shows "\<forall>i \<in> set xs. i < MAX_CLIENTS \<Longrightarrow> distinct xs \<Longrightarrow> length xs \<le> MAX_CLIENTS \<Longrightarrow>
    delivers (announcement s c (filter (session_peer s c) xs)) s
      (only_posts (announcement s c (filter (session_peer s c) xs)) s) (session_users_loop xs c None 0 s)"
proof (induction xs)
  case Nil
  with assms show ?case by (simp add: announcement_def delivers_Inr only_posts_def posted_no_mail)
next
  case (Cons i xs)
  show ?case
  proof (cases "session_peer s c i")
    case False
    with Cons show ?thesis by (simp add: session_skip)
  next
    case True
    let ?z = "old_counts s c" and ?f = "PACKET_HDR P_SERVER_NEW_USERS sizeof_new_users"
    let ?xs = "i # xs"
    let ?m = "mail_to c (session_list ?z [])"
    let ?get = "bindE (reserve c s) (\<lambda>(k, s1). Inr (k, write_slot c k ?f s1))"
    let ?js = "filter (session_peer s c) ?xs"
    have "delivers ?m s (\<lambda>(k, s'). only_posts ?m s s' \<and> last_slot k (msg_queue (client_at s' c)) \<and>
        (\<forall>j. j \<noteq> c \<longrightarrow> client_at s' j = client_at s j)) ?get"
    proof (rule reserve_write_delivers [OF assms])
      fix p assume "p \<in> set (q_slots (msg_queue (client_at s c)))" "length p = PACKET_MAX_SIZE"
      then show "length (?f p) = PACKET_MAX_SIZE \<and> fits_packet (?f p) \<and> session_list ?z [] (?f p)"
        by (auto simp: session_list_def fits_packet_def old_counts_def packet_field_defs byte_simps)
    qed
    from delivers_known [OF this]
    have get: "delivers ?m s (\<lambda>x. (case x of (k, s') \<Rightarrow> only_posts ?m s s' \<and>
        last_slot k (msg_queue (client_at s' c)) \<and> (\<forall>j. j \<noteq> c \<longrightarrow> client_at s' j = client_at s j)) \<and> ?get = Inr x) ?get" .
    show ?thesis
    proof (cases "fits ?m s")
      case False
      then have "?get = Inl Assert_Failed" using get by (simp add: delivers_def)
      moreover have "\<not> fits (announcement s c ?js) s"
        using False True by (auto simp: fits_def announcement_def then_mail_def mail_to_def)
      ultimately show ?thesis using True by (simp add: delivers_def session_write)
    next
      case room: True
      then obtain k s1 where g: "?get = Inr (k, s1)" "only_posts ?m s s1" "last_slot k (msg_queue (client_at s1 c))"
        using get by (auto simp: delivers_def)
      then have p: "posted ?m s s1" and ok1: "server_ok s1" and w1: "world s1 = world s"
        by (auto simp: only_posts_def)
      have "session_peer s1 c j = session_peer s c j" "name_card s1 j = name_card s j" if "j \<in> set ?xs" for j
        using posted_peer [OF p assms(2)] that Cons.prems(1) by auto
      then have js: "filter (session_peer s1 c) ?xs = ?js" "map (name_card s1) ?js = map (name_card s) ?js"
        by (auto cong: filter_cong)
      have peer1: "session_peer s1 c i" using posted_peer(1) [OF p assms(2)] True Cons.prems(1) by simp
      have run: "session_users_loop ?xs c None 0 s = session_users_loop ?xs c (Some k) 0 s1"
        using True peer1 g(1) by (simp add: session_write)
      have started: "delivers (notices s1 c P_SERVER_NEW_USERS ?js) s1
        (\<lambda>s'. server_ok s' \<and> world s' = world s1 \<and>
           posted (then_mail (mail_to c (session_list ?z ([] @ map (name_card s1) ?js)))
                     (then_mail no_mail (notices s1 c P_SERVER_NEW_USERS ?js))) s s')
        (session_users_loop ?xs c (Some k) 0 s1)"
        unfolding js(1) [symmetric]
        using Cons.prems p assms by (intro session_loop_started [OF ok1 _ _ _ g(3)]) (simp_all add: no_mail_def then_mail_def)
      have ann: "announcement s c ?js =
          then_mail (mail_to c (session_list ?z (map (name_card s) ?js))) (notices s c P_SERVER_NEW_USERS ?js)"
        using True by (simp add: announcement_def)
      have "delivers (notices s c P_SERVER_NEW_USERS ?js) s1
          (only_posts (announcement s c ?js) s) (session_users_loop ?xs c None 0 s)"
        using started unfolding run js(2) w1 posted_peer(3) [OF p assms(2)] append_Nil no_mail_then ann
        by (rule delivers_mono) (simp add: only_posts_def)
      moreover have "fits (announcement s c ?js) s = fits (notices s c P_SERVER_NEW_USERS ?js) s1"
        unfolding fits_then [OF p room, symmetric] ann
        by (rule fits_cong) (simp add: then_mail_def mail_to_def)
      ultimately show ?thesis by (simp add: delivers_def)
    qed
  qed
qed

lemma send_session_users_delivers:
  assumes "server_ok s" "c < MAX_CLIENTS"
  defines "F \<equiv> announcement s c (filter (session_peer s c) [0..<MAX_CLIENTS])"
  shows "delivers F s (only_posts F s) (send_session_users c s)"
  unfolding send_session_users_def F_def by (rule session_loop_delivers [OF assms(1,2)]) auto

section \<open>The intro packet\<close>

definition response :: "u32 \<Rightarrow> packet \<Rightarrow> bool" where
  "response ty p \<longleftrightarrow> hdr_type p = ty \<and> hdr_size p = 0"

lemma server_resposne_delivers:
  "server_ok s \<Longrightarrow> c < MAX_CLIENTS \<Longrightarrow>
     delivers (mail_to c (response ty)) s (only_posts (mail_to c (response ty)) s) (server_resposne c ty s)"
  unfolding server_resposne_def by (rule push_delivers) (auto simp: response_def fits_packet_def)

lemma terminate_strings:
  assumes "length p = PACKET_MAX_SIZE"
  shows "length (terminate_strings p) = PACKET_MAX_SIZE" "hdr_type (terminate_strings p) = hdr_type p"
    "hdr_size (terminate_strings p) = hdr_size p" "intro_session (terminate_strings p) = intro_session p"
    "intro_name (terminate_strings p) ! 15 = 0" "length (intro_name (terminate_strings p)) = PC_NAME_MAX_LEN"
    "intro_name (terminate_strings p) = take 15 (intro_name p) @ [0]"
    "intro_id (terminate_strings p) = take 15 (intro_id p) @ [0]"
proof -
  have t: "terminate_strings p = take 23 p @ [0] @ take 15 (drop 24 p) @ [0] @ drop 40 p"
    using assms by (simp add: terminate_strings_def put_bytes_def min_def)
  show "length (terminate_strings p) = PACKET_MAX_SIZE" "hdr_type (terminate_strings p) = hdr_type p"
    "hdr_size (terminate_strings p) = hdr_size p" "intro_session (terminate_strings p) = intro_session p"
    using assms by (simp_all add: terminate_strings_def packet_field_defs byte_simps)
  show "intro_name (terminate_strings p) = take 15 (intro_name p) @ [0]"
    "intro_id (terminate_strings p) = take 15 (intro_id p) @ [0]"
    unfolding t using assms by (simp_all add: intro_name_def intro_id_def get_bytes_def min_def take_drop)
  then show "intro_name (terminate_strings p) ! 15 = 0" "length (intro_name (terminate_strings p)) = PC_NAME_MAX_LEN"
    using assms by (simp_all add: nth_append intro_name_def get_bytes_def)
qed

text \<open>The state in which the strings of the packet are terminated, and the joined client.\<close>

definition cleaned :: "nat \<Rightarrow> 'w server \<Rightarrow> 'w server" where
  "cleaned c s = upd_client c (\<lambda>x. x\<lparr>decrypt_buf := (decrypt_buf x)\<lparr>b_data :=
     terminate_strings (b_data (decrypt_buf x))\<rparr>\<rparr>) s"

definition enter :: "session_id \<Rightarrow> bytes \<Rightarrow> client \<Rightarrow> client" where
  "enter session nm x = x\<lparr>cl_state := C_COMPLETE, cl_session_id := session, cl_name := nm\<rparr>"

definition joined :: "session_id \<Rightarrow> nat \<Rightarrow> 'w server \<Rightarrow> 'w server" where
  "joined session c s = upd_client c (enter session (intro_name (received (cleaned c s) c))) (cleaned c s)"

lemma received_cleaned:
  "server_ok s \<Longrightarrow> c < MAX_CLIENTS \<Longrightarrow> received (cleaned c s) c = terminate_strings (received s c)"
  by (simp add: received_def cleaned_def client_upd_client)

lemma length_received: "server_ok s \<Longrightarrow> c < MAX_CLIENTS \<Longrightarrow> length (received s c) = PACKET_MAX_SIZE"
  using server_ok_client [of s c] by (simp add: received_def client_ok_def buffer_ok_def)

lemma cleaned_handled:
  assumes "server_ok s" "c < MAX_CLIENTS"
  shows "handled E s (cleaned c s)" "fits F (cleaned c s) = fits F s"
proof -
  have "client_ok (client_at s c)" by (rule server_ok_client [OF assms])
  then have "client_ok ((client_at s c)\<lparr>decrypt_buf := (decrypt_buf (client_at s c))\<lparr>b_data :=
      terminate_strings (b_data (decrypt_buf (client_at s c)))\<rparr>\<rparr>)"
    by (auto simp: client_ok_def buffer_ok_def framed_def terminate_strings split: if_splits)
  then have "server_ok (cleaned c s)" unfolding cleaned_def using assms by (intro server_ok_upd) simp_all
  then show "handled E s (cleaned c s)"
    using assms by (simp add: handled_def cleaned_def client_upd_client db_refl)
  show "fits F (cleaned c s) = fits F s"
    using assms by (auto simp: fits_def outbox_def cleaned_def client_upd_client)
qed

lemma enter_handled:
  assumes "server_ok s" "c < MAX_CLIENTS" "in_use (client_at s c)" "session \<noteq> 0"
    and "length nm = PC_NAME_MAX_LEN" "nm ! 15 = 0"
  shows "handled E s (upd_client c (enter session nm) s)"
    "fits F (upd_client c (enter session nm) s) = fits F s"
proof -
  have "client_ok (enter session nm (client_at s c))" "in_use (enter session nm (client_at s c))"
    using server_ok_client [OF assms(1,2)] assms(4-6) by (simp_all add: client_ok_def enter_def)
  then have "server_ok (upd_client c (enter session nm) s)"
    using assms(1-3) by (intro server_ok_upd) simp_all
  then show "handled E s (upd_client c (enter session nm) s)"
    using assms by (simp add: handled_def client_upd_client enter_def db_refl)
  show "fits F (upd_client c (enter session nm) s) = fits F s"
    using assms by (auto simp: fits_def outbox_def client_upd_client enter_def)
qed

text \<open>The second half of \<^verbatim>\<open>packet_intro\<close>, once the session is known.\<close>

definition intro_accept :: "nat \<Rightarrow> session_id \<Rightarrow> bytes \<Rightarrow> 'w server \<Rightarrow> fault + 'w server" where
  "intro_accept c session nm s =
     bindE (server_resposne c P_SERVER_OK s) (\<lambda>s3.
       send_session_users c (upd_client c (enter session nm) s3))"

definition welcome_mail :: "'w server \<Rightarrow> nat \<Rightarrow> mail" where
  "welcome_mail s c = then_mail (mail_to c (response P_SERVER_OK))
     (announcement s c (filter (session_peer s c) [0..<MAX_CLIENTS]))"

lemma posted_announcement:
  assumes "posted F s s'" "c < MAX_CLIENTS" "old_counts s' c \<subseteq> old_counts s c"
  defines "js \<equiv> filter (session_peer s c) [0..<MAX_CLIENTS]"
  shows "filter (session_peer s' c) [0..<MAX_CLIENTS] = js"
    "list_all2 (\<lambda>P Q. \<forall>p. P p \<longrightarrow> Q p) (announcement s' c js i) (announcement s c js i)"
proof -
  have peer: "session_peer s' c j = session_peer s c j" "name_card s' j = name_card s j" if "j < 32" for j
    using posted_peer(1,2) [OF assms(1,2) that] by auto
  then show "filter (session_peer s' c) [0..<MAX_CLIENTS] = js"
    unfolding js_def by (intro filter_cong) auto
  have "map (name_card s') js = map (name_card s) js"
    using peer unfolding js_def by (intro map_cong) auto
  then show "list_all2 (\<lambda>P Q. \<forall>p. P p \<longrightarrow> Q p) (announcement s' c js i) (announcement s c js i)"
    using assms(3) posted_peer(3) [OF assms(1,2)]
    by (auto simp: announcement_def then_mail_def mail_to_def no_mail_def session_list_def list_all2_same
        intro!: list_all2_appendI)
qed

lemma intro_accept_delivers:
  assumes ok: "server_ok s" "c < MAX_CLIENTS" and u: "in_use (client_at s c)" "session \<noteq> 0"
    and nm: "length nm = PC_NAME_MAX_LEN" "nm ! 15 = 0"
  defines "s1 \<equiv> upd_client c (enter session nm) s"
  shows "delivers (welcome_mail s1 c) s (only_posts (welcome_mail s1 c) s1) (intro_accept c session nm s)"
proof -
  let ?m = "mail_to c (response P_SERVER_OK)" and ?G = "announcement s1 c (filter (session_peer s1 c) [0..<MAX_CLIENTS])"
  have ok1: "server_ok s1" unfolding s1_def by (rule handled_ok [OF enter_handled(1) [OF ok u nm]])
  show ?thesis
    unfolding welcome_mail_def intro_accept_def
  proof (rule delivers_bind [OF delivers_known [OF server_resposne_delivers [OF ok]]])
    fix s3 assume *: "only_posts ?m s s3 \<and> server_resposne c P_SERVER_OK s = Inr s3"
    then have p: "posted ?m s s3" and ok3: "server_ok s3" and w3: "world s3 = world s"
      by (auto simp: only_posts_def)
    let ?s4 = "upd_client c (enter session nm) s3"
    have u3: "in_use (client_at s3 c)" using posted_client(2) [OF p ok(2)] u(1) by simp
    note e = enter_handled [OF ok3 ok(2) u3 u(2) nm]
    have p4: "posted ?m s1 ?s4" unfolding s1_def
      by (rule posted_upd_client [OF p ok(1) ok3 ok(2)]) (simp_all add: enter_def)
    have "old_counts ?s4 c \<subseteq> old_counts s1 c"
    proof -
      have len: "length x = 1440" if "x \<in> set (q_slots (msg_queue (client_at s c)))" for x
        using that server_ok_client [OF ok] by (simp add: client_ok_def queue_ok_def)
      have "set (q_slots (msg_queue (client_at s3 c))) \<subseteq> set (q_slots (msg_queue (client_at s c))) \<union>
          PACKET_HDR P_SERVER_OK 0 ` set (q_slots (msg_queue (client_at s c)))"
        using * push_slots [OF _ ok] unfolding server_resposne_def by blast
      moreover have "nu_users_len (PACKET_HDR P_SERVER_OK 0 x) = nu_users_len x" if "length x = 1440" for x
        using that by (simp add: packet_field_defs byte_simps)
      ultimately have "old_counts s3 c \<subseteq> old_counts s c" using len by (fastforce simp: old_counts_def)
      moreover have "old_counts ?s4 c = old_counts s3 c" "old_counts s1 c = old_counts s c"
        using ok3 ok unfolding s1_def by (simp_all add: old_counts_def client_upd_client enter_def)
      ultimately show ?thesis by simp
    qed
    note an = posted_announcement [OF p4 ok(2) this]
    let ?js = "filter (session_peer s1 c) [0..<MAX_CLIENTS]"
    have d: "delivers (announcement ?s4 c ?js) ?s4 (only_posts (announcement ?s4 c ?js) ?s4)
        (send_session_users c ?s4)"
      using send_session_users_delivers [OF handled_ok [OF e(1)] ok(2)] unfolding an(1) .
    have len: "fits (announcement ?s4 c ?js) t = fits ?G t" for t
      by (rule fits_cong) (rule list_all2_lengthD [OF an(2)])
    have "only_posts (then_mail ?m ?G) s1 s'" if "only_posts (announcement ?s4 c ?js) ?s4 s'" for s'
    proof -
      have "posted ?G ?s4 s'" by (rule posted_mono [OF _ an(2)]) (use that in \<open>simp add: only_posts_def\<close>)
      from posted_trans [OF p4 this] that w3 show ?thesis by (simp add: only_posts_def s1_def)
    qed
    then have "delivers ?G s3 (only_posts (then_mail ?m ?G) s1) (send_session_users c ?s4)"
      using d unfolding delivers_def len e(2) by (auto split: if_splits)
    then show "\<exists>s'. posted ?m s s' \<and> delivers ?G s' (only_posts (then_mail ?m ?G) s1) (send_session_users c ?s4)"
      using p by blast
  qed
qed

lemma welcome_mail_world [simp]: "welcome_mail (s\<lparr>world := w\<rparr>) c = welcome_mail s c"
proof -
  have "client_at (s\<lparr>world := w\<rparr>) = client_at s" by (rule ext) simp
  then show ?thesis
    unfolding welcome_mail_def announcement_def session_peer_def name_card_def notices_def old_counts_def
    by (simp only:)
qed

lemma upd_client_world: "upd_client c g (s\<lparr>world := w\<rparr>) = (upd_client c g s)\<lparr>world := w\<rparr>"
  by (simp add: upd_client_def)

definition intro_lookup :: "'w env \<Rightarrow> packet \<Rightarrow> 'w \<Rightarrow> session_id \<times> 'w" where
  "intro_lookup E p w =
     (if intro_session p = 0 then db_get_session E (intro_id p) w else db_create_session E (intro_id p) w)"

lemma packet_intro_cases:
  assumes "server_ok s" "c < MAX_CLIENTS" and look: "intro_lookup E (received (cleaned c s) c) (world s) = (session, w)"
  shows "packet_intro E c s =
    (if cl_state (client_at s c) = C_COMPLETE \<or> 1 < intro_session (received s c)
     then server_resposne c P_SERVER_DENY s
     else if session = 0 then server_resposne c P_SERVER_DENY ((cleaned c s)\<lparr>world := w\<rparr>)
     else intro_accept c session (intro_name (received (cleaned c s) c)) ((cleaned c s)\<lparr>world := w\<rparr>))"
proof -
  have "intro_session (received (cleaned c s) c) = intro_session (received s c)"
    using assms(1,2) by (simp add: received_cleaned terminate_strings length_received)
  moreover have "intro_session (received s c) = 0 \<or> intro_session (received s c) = 1"
    if "\<not> 1 < intro_session (received s c)"
    using that by (auto simp: not_less word_le_nat_alt word_unat_eq_iff le_Suc_eq)
  moreover have "world (cleaned c s) = world s" by (simp add: cleaned_def)
  ultimately show ?thesis
    using look unfolding packet_intro_def cleaned_def [symmetric] intro_lookup_def on_world_def
      intro_accept_def enter_def Let_def
    by (auto split: prod.splits)
qed

lemma packet_intro_deny:
  assumes "server_ok s" "c < MAX_CLIENTS"
  defines "F \<equiv> mail_to c (response P_SERVER_DENY)"
  shows "delivers F s (\<lambda>s'. server_ok s' \<and> posted F (cleaned c s) s' \<and> world s' = w)
    (server_resposne c P_SERVER_DENY ((cleaned c s)\<lparr>world := w\<rparr>))"
proof -
  let ?s = "(cleaned c s)\<lparr>world := w\<rparr>"
  have "server_ok ?s" using handled_ok [OF cleaned_handled(1) [OF assms(1,2)]] by simp
  from server_resposne_delivers [OF this assms(2), of P_SERVER_DENY]
  show ?thesis
    unfolding F_def delivers_def fits_world cleaned_handled(2) [OF assms(1,2)]
    by (auto simp: only_posts_def posted_world split: if_splits)
qed

lemma packet_intro_accept:
  assumes "server_ok s" "c < MAX_CLIENTS" "in_use (client_at s c)" "session \<noteq> 0"
  defines "F \<equiv> welcome_mail (joined session c s) c"
  shows "delivers F s (\<lambda>s'. server_ok s' \<and> posted F (joined session c s) s' \<and> world s' = w)
    (intro_accept c session (intro_name (received (cleaned c s) c)) ((cleaned c s)\<lparr>world := w\<rparr>))"
proof -
  let ?s = "(cleaned c s)\<lparr>world := w\<rparr>" and ?nm = "intro_name (received (cleaned c s) c)"
  have ok: "server_ok ?s" using handled_ok [OF cleaned_handled(1) [OF assms(1,2)]] by simp
  have "in_use (client_at ?s c)" using assms(1-3) by (simp add: cleaned_def client_upd_client)
  moreover have "length ?nm = PC_NAME_MAX_LEN" "?nm ! 15 = 0"
    using assms(1,2) by (simp_all add: received_cleaned terminate_strings(1-6) length_received)
  ultimately have "delivers F ?s (only_posts F (upd_client c (enter session ?nm) ?s)) (intro_accept c session ?nm ?s)"
    using intro_accept_delivers [OF ok assms(2) _ assms(4), of ?nm]
    by (simp add: F_def joined_def upd_client_world)
  then show ?thesis
    unfolding delivers_def fits_world cleaned_handled(2) [OF assms(1,2)] upd_client_world
    by (auto simp: only_posts_def posted_world joined_def split: if_splits)
qed

lemma packet_intro_handled:
  assumes "server_ok s" "c < MAX_CLIENTS" "in_use (client_at s c)"
  shows "keepsE df (handled E s) (packet_intro E c s)"
proof -
  obtain session w where look: "intro_lookup E (received (cleaned c s) c) (world s) = (session, w)" by force
  have w: "db_steps E (world s) w"
    using look db_functions_only(2,3) [of E] unfolding intro_lookup_def db_only_def
    by (metis db_refl snd_conv)
  have clean: "handled E s (cleaned c s)" by (rule cleaned_handled(1) [OF assms(1,2)])
  have deny: "keepsE df (handled E s) (server_resposne c P_SERVER_DENY s)"
    by (rule keepsE_mono [OF delivers_keepsE [OF server_resposne_delivers [OF assms(1,2)]] handled_only_posts])
  have "keepsE df (handled E s) (server_resposne c P_SERVER_DENY ((cleaned c s)\<lparr>world := w\<rparr>))"
    by (rule keepsE_mono [OF delivers_keepsE [OF packet_intro_deny [OF assms(1,2)]]])
      (use w in \<open>auto intro!: handled_trans [OF clean handled_posted] simp: cleaned_def\<close>)
  moreover have "keepsE df (handled E s) (intro_accept c session (intro_name (received (cleaned c s) c))
      ((cleaned c s)\<lparr>world := w\<rparr>))" if "session \<noteq> 0"
  proof (rule keepsE_mono [OF delivers_keepsE [OF packet_intro_accept [OF assms that]]])
    fix s' assume *: "server_ok s' \<and> posted (welcome_mail (joined session c s) c) (joined session c s) s' \<and> world s' = w"
    have "handled E (cleaned c s) (joined session c s)"
      unfolding joined_def
      using assms handled_ok [OF clean] that
      by (intro enter_handled(1))
        (simp_all add: received_cleaned terminate_strings(1-6) length_received, simp add: cleaned_def client_upd_client)
    moreover have "world (joined session c s) = world s" by (simp add: joined_def cleaned_def)
    ultimately show "handled E s s'"
      using * w by (metis handled_trans clean handled_posted)
  qed
  ultimately show ?thesis
    unfolding packet_intro_cases [OF assms(1,2) look] using deny by simp
qed








end
