(* ===== verification/Net_Transfer.thy ===== *)
theory Net_Transfer
  imports Net_Intro
begin

text \<open>
  What the handlers of transfer packets in \<^verbatim>\<open>qs_server/src/net_packet.c\<close> do. First the
  invariants they keep whatever SQLite answers, then, for a SQLite that meets the contract of
  the theory \<open>Database\<close>, the messages they post and the rows they leave.
\<close>

section \<open>Handlers keep the server well formed\<close>

lemma find_range: "client_find_by_id (clients s) k = Some r \<Longrightarrow> r < MAX_CLIENTS"
  by (simp add: client_find_by_id_Some)

lemma push_packet_handled:
  "server_ok s \<Longrightarrow> i < MAX_CLIENTS \<Longrightarrow> length p = PACKET_MAX_SIZE \<Longrightarrow> fits_packet p \<Longrightarrow>
   keepsE df (handled E s) (push i (\<lambda>_. p) s)"
  by (rule push_handled) auto

lemma fits_packet_fields [simp]:
  assumes "length p = PACKET_MAX_SIZE"
  shows "fits_packet (set_th_t_id t p) = fits_packet p" "fits_packet (set_th_from k p) = fits_packet p"
    "fits_packet (PACKET_HDR ty n p) \<longleftrightarrow> 8 + unat (of_nat n :: u32) \<le> PACKET_MAX_SIZE"
  using assms by (simp_all add: fits_packet_def packet_field_defs byte_simps)

lemma check_recipients_handled:
  "server_ok s \<Longrightarrow> check_recipients_loop E c t p is s = (b, s') \<Longrightarrow> handled E s s'"
proof (induction "is" arbitrary: s)
  case Nil
  then show ?case by (simp add: handled_refl)
next
  case (Cons i "is")
  then show ?case
    by (auto simp: Let_def handled_refl split: if_splits option.splits prod.splits)
      (metis db_functions_only(5) handled_ok handled_on_world handled_trans)+
qed

lemma echo_request_handled:
  "server_ok s \<Longrightarrow> length req = PACKET_MAX_SIZE \<Longrightarrow> fits_packet req \<Longrightarrow>
   keepsE df (handled E s) (echo_request_loop c req t is s)"
proof (induction "is" arbitrary: s)
  case (Cons i "is")
  show ?case
  proof (cases "client_find_by_id (clients s) (th_to i req)")
    case (Some r)
    have "keepsE df (handled E s) (push r (\<lambda>_. set_th_t_id t (set_th_from (cl_id (client_at s c)) req)) s)"
      using Cons.prems by (intro push_packet_handled find_range [OF Some]) simp_all
    then show ?thesis
      using Some Cons by (auto simp: handled_refl intro!: keepsE_handled_bind dest: handled_ok)
  qed (use Cons in \<open>simp add: handled_refl\<close>)
qed (simp add: handled_refl)

lemma send_transfer_response_handled:
  assumes "server_ok s" "c < MAX_CLIENTS" "length req = PACKET_MAX_SIZE"
  shows "keepsE df (handled E s) (send_transfer_response c req ty t s)"
  unfolding send_transfer_response_def
  by (intro keepsE_bind_assert push_packet_handled assms) (simp_all add: Let_def assms)

lemma packet_transfer_handled:
  assumes "server_ok s" "c < MAX_CLIENTS" "fits_packet (received s c)"
    and log: "df \<Longrightarrow> debug_transfer (received s c) \<noteq> Inl Undefined"
  shows "keepsE df (handled E s) (packet_transfer E c s)"
proof -
  let ?p = "received s c"
  have len: "length ?p = PACKET_MAX_SIZE" by (rule length_received [OF assms(1,2)])
  obtain begun s1 where 1: "on_world (db_transaction E BEGIN_TRANSACTION) s = (begun, s1)" by force
  obtain t_id s2 where 2: "on_world (db_create_transfer E (cl_id (client_at s1 c))) s1 = (t_id, s2)" by force
  obtain valid s3 where 3: "(if t_id = 0 then (False, s2) else check_recipients E c t_id ?p s2) = (valid, s3)" by force
  obtain committed s4 where 4: "(if \<not> valid then (False, s3) else on_world (db_transaction E COMMIT_TRANSACTION) s3) =
      (committed, s4)" by force
  have h1: "handled E s s1" by (rule handled_on_world [OF assms(1) 1]) simp
  have h2: "handled E s1 s2" by (rule handled_on_world [OF handled_ok [OF h1] 2]) simp
  have h3: "handled E s2 s3"
    using 3 handled_refl [OF handled_ok [OF h2]] check_recipients_handled [OF handled_ok [OF h2]]
    by (auto simp: check_recipients_def split: if_splits)
  have "handled E s3 s4"
    using 4 handled_refl [OF handled_ok [OF h3]] handled_on_world [OF handled_ok [OF h3] _ db_functions_only(1)]
    by (auto split: if_splits)
  with h1 h2 h3 have h4: "handled E s s4" by (blast intro: handled_trans)
  have resp: "keepsE df (handled E t) (send_transfer_response c ?p ty k t)" if "server_ok t" for ty k t
    by (rule send_transfer_response_handled [OF that assms(2) len])
  have valid_branch: "keepsE df (handled E s4) (bindE (send_transfer_response c ?p P_TRANSFER_VALID t_id s4)
      (\<lambda>s5. echo_transfer_request c ?p t_id s5))"
    by (intro keepsE_handled_bind resp handled_ok [OF h4])
      (auto simp: echo_transfer_request_def intro!: echo_request_handled [OF _ len assms(3)] dest: handled_ok)
  have "keepsE df (handled E s4) (bindE (send_transfer_response c ?p P_TRANSFER_INVALID 0 s4) (\<lambda>s5.
      let (_, s6) = on_world (db_transaction E ROLLBACK_TRANSACTION) s5 in bindE (debug_transfer ?p) (\<lambda>_. Inr s6)))"
  proof (rule keepsE_handled_bind [OF resp [OF handled_ok [OF h4]]])
    fix s5 assume "handled E s4 s5"
    then have ok5: "server_ok s5" by (rule handled_ok)
    obtain b s6 where 6: "on_world (db_transaction E ROLLBACK_TRANSACTION) s5 = (b, s6)" by force
    from handled_on_world [OF ok5 6 db_functions_only(1)] show "keepsE df (handled E s5) (let (_, s6) =
        on_world (db_transaction E ROLLBACK_TRANSACTION) s5 in bindE (debug_transfer ?p) (\<lambda>_. Inr s6))"
      using log by (cases "debug_transfer ?p") (auto simp add: 6)
  qed
  with valid_branch resp [OF handled_ok [OF h1]] h1 h4 show ?thesis
    by (auto simp: packet_transfer_def Let_def 1 2 3 4 intro: keepsE_handled_from)
qed

lemma find_push_handled:
  assumes "server_ok s" "length p = PACKET_MAX_SIZE" "fits_packet p"
  shows "keepsE df (handled E s) (case client_find_by_id (clients s) k of None \<Rightarrow> Inr s | Some r \<Rightarrow> push r (\<lambda>_. p) s)"
  using assms push_packet_handled [OF assms(1) find_range assms(2,3)] by (auto simp: handled_refl split: option.split)

lemma find_cancel_handled:
  assumes "server_ok s"
  shows "keepsE df (handled E s) (case client_find_by_id (clients s) k of None \<Rightarrow> Inr s
    | Some r \<Rightarrow> send_transfer_state r from t ty s)"
  using assms send_transfer_state_handled [OF assms find_range] by (auto simp: handled_refl split: option.split)

lemma packet_reply_handled:
  assumes "server_ok s" "c < MAX_CLIENTS" "fits_packet (received s c)"
  shows "keepsE df (handled E s) (packet_reply E c s)"
proof -
  let ?p = "received s c"
  have len: "length ?p = PACKET_MAX_SIZE" by (rule length_received [OF assms(1,2)])
  let ?s1 = "upd_world (db_client_accept E (cl_id (client_at s c)) (th_t_id ?p) (tr_accept ?p \<noteq> 0)) s"
  obtain k s2 where 2: "on_world (db_get_creator_by_tid E (th_t_id ?p)) ?s1 = (k, s2)" by force
  have h: "handled E s s2"
    by (rule handled_trans [OF handled_upd_world [OF assms(1)] handled_on_world [OF _ 2]]) (simp_all add: assms(1))
  then have ok: "server_ok s2" by (rule handled_ok)
  show ?thesis
  proof (cases "client_find_by_id (clients s2) k")
    case None
    with h 2 show ?thesis by (simp add: packet_reply_def Let_def)
  next
    case (Some r)
    have "keepsE df (handled E s2) (push r (\<lambda>_. set_th_from (cl_id (client_at s2 c)) ?p) s2)"
      by (rule push_packet_handled [OF ok find_range [OF Some]]) (use len assms(3) in simp_all)
    with Some h 2 show ?thesis by (auto simp: packet_reply_def Let_def intro: keepsE_handled_from)
  qed
qed

lemma echo_accepted_handled:
  "server_ok s \<Longrightarrow> length p = PACKET_MAX_SIZE \<Longrightarrow> fits_packet p \<Longrightarrow>
   keepsE df (handled E s) (echo_accepted E fuel p r s)"
proof (induction fuel arbitrary: r s)
  case 0
  then show ?case by (subst echo_accepted.simps) (simp add: handled_refl)
next
  case (Suc fuel)
  show ?case
    by (subst echo_accepted.simps)
      (use Suc in \<open>auto simp: handled_refl intro!: keepsE_handled_bind find_push_handled split: prod.splits
        elim!: keepsE_after_world dest: handled_ok\<close>)
qed

lemma packet_data_handled:
  assumes "server_ok s" "c < MAX_CLIENTS" "fits_packet (received s c)"
  shows "keepsE df (handled E s) (packet_data E fuel c s)"
  using echo_accepted_handled [OF _ length_received [OF assms(1,2)] assms(3)] assms(1)
  by (auto simp: packet_data_def Let_def split: prod.splits elim!: keepsE_after_world)

lemma cancel_clients_handled:
  "server_ok s \<Longrightarrow> keepsE df (handled E s) (cancel_clients E fuel c t k s)"
proof (induction fuel arbitrary: k s)
  case 0
  then show ?case by (subst cancel_clients.simps) (simp add: handled_refl)
next
  case (Suc fuel)
  show ?case
    by (subst cancel_clients.simps)
      (use Suc in \<open>auto simp: handled_refl intro!: keepsE_handled_bind find_cancel_handled split: prod.splits
        elim!: keepsE_after_world dest: handled_ok\<close>)
qed

text \<open>Loops that also return whether they found their target.\<close>

abbreviation handled2 :: "'w env \<Rightarrow> 'w server \<Rightarrow> bool \<times> 'w server \<Rightarrow> bool" where
  "handled2 E s \<equiv> \<lambda>(_, s'). handled E s s'"

lemma keepsE_case_world2:
  assumes "server_ok s" "db_only E f" "\<And>x s1. server_ok s1 \<Longrightarrow> keepsE df (handled2 E s1) (k x s1)"
  shows "keepsE df (handled2 E s) (case on_world f s of (x, s1) \<Rightarrow> k x s1)"
proof -
  obtain x s1 where 1: "on_world f s = (x, s1)" by force
  have h: "handled E s s1" by (rule handled_on_world [OF assms(1) 1 assms(2)])
  have "keepsE df (handled2 E s1) (k x s1)" by (rule assms(3) [OF handled_ok [OF h]])
  then have "keepsE df (handled2 E s) (k x s1)" by (rule keepsE_mono) (auto intro: handled_trans [OF h])
  with 1 show ?thesis by simp
qed

lemmas keeps_steps = keepsE_case_world keepsE_case_world2 keepsE_handled_bind handled_upd_world

lemma keepsE_then_world:
  assumes "keepsE df (handled E s) m" "\<And>s1. db_upd E (f s1)"
  shows "keepsE df (handled2 E s) (bindE m (\<lambda>s1. Inr (b, upd_world (f s1) s1)))"
  by (rule keepsE_bind [OF assms(1)]) (auto intro: handled_trans handled_upd_world [OF handled_ok assms(2)])

lemma creator_loop_handled:
  "server_ok s \<Longrightarrow> keepsE df (handled2 E s) (creator_loop E fuel n c target t_id s)"
proof (induction n arbitrary: t_id s)
  case 0
  then show ?case
    by (subst creator_loop.simps)
      (auto simp: handled_refl Let_def
        intro!: keeps_steps keepsE_then_world cancel_clients_handled)
next
  case (Suc n)
  then show ?case
    by (subst creator_loop.simps)
      (auto simp: handled_refl Let_def
        intro!: keeps_steps keepsE_then_world cancel_clients_handled)
qed

lemma cancel_as_creator_handled:
  "server_ok s \<Longrightarrow> keepsE df (handled2 E s) (cancel_as_creator E fuel c target s)"
  by (auto simp: cancel_as_creator_def Let_def intro!: keeps_steps creator_loop_handled)

lemma recipient_loop_handled:
  "server_ok s \<Longrightarrow> keepsE df (handled2 E s) (recipient_loop E n c target info s)"
proof (induction n arbitrary: info s)
  case 0
  then show ?case
    by (subst recipient_loop.simps)
      (auto simp: handled_refl intro!: keepsE_then_world find_cancel_handled)
next
  case (Suc n)
  then show ?case
    by (subst recipient_loop.simps)
      (auto simp: handled_refl Let_def
        intro!: keeps_steps keepsE_then_world find_cancel_handled)
qed

lemma cancel_as_recipient_handled:
  "server_ok s \<Longrightarrow> keepsE df (handled2 E s) (cancel_as_recipient E fuel c target s)"
  by (auto simp: cancel_as_recipient_def Let_def intro!: keeps_steps recipient_loop_handled)

lemma packet_cancel_handled:
  assumes "server_ok s"
  shows "keepsE df (handled E s) (packet_cancel E fuel c s)"
proof -
  obtain begun s1 where 1: "on_world (db_transaction E BEGIN_TRANSACTION) s = (begun, s1)" by force
  have h1: "handled E s s1" by (rule handled_on_world [OF assms 1]) simp
  note ok1 = handled_ok [OF h1]
  let ?t = "th_t_id (received s1 c)"
  have commit: "handled E t (snd (on_world (db_transaction E COMMIT_TRANSACTION) t))" if "server_ok t" for t
    using handled_on_world [OF that _ db_functions_only(1)]
    by (cases "on_world (db_transaction E COMMIT_TRANSACTION) t") simp
  have "keepsE df (handled E s1) (bindE (cancel_as_creator E fuel c ?t s1) (\<lambda>(done, s2).
      bindE (if done then Inr (True, s2) else cancel_as_recipient E fuel c ?t s2) (\<lambda>(_, s3).
        Inr (snd (on_world (db_transaction E COMMIT_TRANSACTION) s3)))))"
  proof (rule keepsE_bind [OF cancel_as_creator_handled [OF ok1]])
    fix x assume "handled2 E s1 x"
    then obtain d s2 where x: "x = (d, s2)" "handled E s1 s2" by (cases x) auto
    have "keepsE df (handled2 E s2) (if d then Inr (True, s2) else cancel_as_recipient E fuel c ?t s2)"
      using handled_ok [OF x(2)] cancel_as_recipient_handled [OF handled_ok [OF x(2)]] by (simp add: handled_refl)
    then have "keepsE df (handled E s1) (bindE (if d then Inr (True, s2) else cancel_as_recipient E fuel c ?t s2)
        (\<lambda>(_, s3). Inr (snd (on_world (db_transaction E COMMIT_TRANSACTION) s3))))"
      by (rule keepsE_bind)
        (auto intro!: handled_trans [OF x(2)] intro: handled_trans [OF _ commit [OF handled_ok]])
    with x(1) show "keepsE df (handled E s1) (case x of (done, s2) \<Rightarrow>
        bindE (if done then Inr (True, s2) else cancel_as_recipient E fuel c ?t s2)
          (\<lambda>(_, s3). Inr (snd (on_world (db_transaction E COMMIT_TRANSACTION) s3))))" by simp
  qed
  with h1 show ?thesis by (auto simp: packet_cancel_def 1 Let_def intro: keepsE_handled_from)
qed

lemma complete_loop_handled:
  "server_ok s \<Longrightarrow> length p = PACKET_MAX_SIZE \<Longrightarrow> fits_packet p \<Longrightarrow>
   keepsE df (handled E s) (complete_loop E fuel n p t s)"
proof (induction n arbitrary: t s)
  case 0
  then show ?case
    by (subst complete_loop.simps)
      (auto simp: handled_refl Let_def
        intro!: keeps_steps echo_accepted_handled dest: handled_ok)
next
  case (Suc n)
  then show ?case
    by (subst complete_loop.simps)
      (auto simp: handled_refl Let_def
        intro!: keeps_steps echo_accepted_handled dest: handled_ok)
qed

lemma packet_complete_handled:
  assumes "server_ok s" "c < MAX_CLIENTS" "fits_packet (received s c)"
  shows "keepsE df (handled E s) (packet_complete E fuel c s)"
  using complete_loop_handled [OF _ length_received [OF assms(1,2)] assms(3)] assms(1)
  by (auto simp: packet_complete_def Let_def intro!: keeps_steps)

lemma analize_packet_handled:
  assumes "server_ok s" "c < MAX_CLIENTS" "in_use (client_at s c)" "fits_packet (received s c)"
    and log: "df \<Longrightarrow> hdr_type (received s c) = P_TRANSFER_REQUEST \<Longrightarrow> debug_transfer (received s c) \<noteq> Inl Undefined"
  shows "keepsE df (handled E s) (analize_packet E fuel c s)"
  using packet_intro_handled [OF assms(1-3)] packet_transfer_handled [OF assms(1,2,4) log]
    packet_reply_handled [OF assms(1,2,4)] packet_data_handled [OF assms(1,2,4)]
    packet_complete_handled [OF assms(1,2,4)] packet_cancel_handled [OF assms(1)]
  by (simp add: analize_packet_def Let_def handled_refl [OF assms(1)])

section \<open>Mail to lists of clients\<close>

text \<open>One message to each connected client of a list of ids.\<close>

definition mails :: "client_list \<Rightarrow> client_id list \<Rightarrow> (packet \<Rightarrow> bool) \<Rightarrow> mail" where
  "mails cl ks P = (\<lambda>i. map (\<lambda>_. P) (filter (\<lambda>k. client_find_by_id cl k = Some i) ks))"

definition mail_opt :: "nat option \<Rightarrow> (packet \<Rightarrow> bool) \<Rightarrow> mail" where
  "mail_opt r P = (case r of None \<Rightarrow> no_mail | Some i \<Rightarrow> mail_to i P)"

lemma mails_Nil [simp]: "mails cl [] P = no_mail"
  by (simp add: mails_def no_mail_def)

lemma mails_Cons: "mails cl (k # ks) P = then_mail (mail_opt (client_find_by_id cl k) P) (mails cl ks P)"
  by (auto simp: mails_def then_mail_def mail_to_def mail_opt_def no_mail_def fun_eq_iff split: option.splits)

lemma mails_perm:
  assumes "mset ks = mset ks'"
  shows "mails cl ks P = mails cl ks' P"
proof -
  have "length (filter Q ks) = length (filter Q ks')" for Q
    using assms by (metis mset_filter size_mset)
  then show ?thesis by (simp add: mails_def map_replicate_const)
qed

lemma mails_posted: "posted F s s' \<Longrightarrow> mails (clients s') ks P = mails (clients s) ks P"
  by (simp add: mails_def posted_find)

text \<open>\<open>sends_to r P\<close>: a message to \<open>r\<close>, if there is such a client.\<close>

lemma opt_push_delivers:
  assumes "server_ok s" "length p = PACKET_MAX_SIZE" "fits_packet p" "\<And>i. r = Some i \<Longrightarrow> i < MAX_CLIENTS"
  shows "delivers (mail_opt r (\<lambda>q. q = p)) s (only_posts (mail_opt r (\<lambda>q. q = p)) s)
    (case r of None \<Rightarrow> Inr s | Some i \<Rightarrow> push i (\<lambda>_. p) s)"
proof (cases r)
  case None
  with assms(1) show ?thesis by (simp add: mail_opt_def delivers_Inr only_posts_def posted_no_mail)
next
  case (Some i)
  have "delivers (mail_to i (\<lambda>q. q = p)) s (only_posts (mail_to i (\<lambda>q. q = p)) s) (push i (\<lambda>_. p) s)"
    using assms Some by (intro push_delivers) auto
  with Some show ?thesis by (simp add: mail_opt_def)
qed

lemma opt_cancel_delivers:
  assumes "server_ok s" "\<And>i. r = Some i \<Longrightarrow> i < MAX_CLIENTS"
  shows "delivers (mail_opt r (transfer_notice ty from t)) s (only_posts (mail_opt r (transfer_notice ty from t)) s)
    (case r of None \<Rightarrow> Inr s | Some i \<Rightarrow> send_transfer_state i from t ty s)"
  using assms send_transfer_state_delivers
  by (auto simp: mail_opt_def delivers_Inr only_posts_def posted_no_mail split: option.split)

section \<open>Handlers over a working database\<close>

text \<open>What a handler that posts \<open>F\<close> and only reads the database ensures.\<close>

definition reads :: "('w \<Rightarrow> sql_view) \<Rightarrow> stmt set \<Rightarrow> mail \<Rightarrow> 'w server \<Rightarrow> 'w server \<Rightarrow> bool" where
  "reads view S F s s' \<longleftrightarrow> server_ok s' \<and> posted F s s' \<and> frame S (view (world s)) (view (world s'))"

lemma reads_trans:
  "reads view S F s s1 \<Longrightarrow> reads view S G s1 s2 \<Longrightarrow> reads view S (then_mail F G) s s2"
  unfolding reads_def by (blast intro: posted_trans frame_trans)

text \<open>The rows that remain when a transfer, or a client of transfers, is removed.\<close>

definition drop_transfer :: "transfer_id \<Rightarrow> tables \<Rightarrow> tables" where
  "drop_transfer t T = T\<lparr>transfers := filter (\<lambda>(i, c). i \<noteq> t) (transfers T),
                         tclients := filter (\<lambda>(i, c, a). i \<noteq> t) (tclients T)\<rparr>"

definition drop_client :: "client_id \<Rightarrow> tables \<Rightarrow> tables" where
  "drop_client k T = T\<lparr>tclients := filter (\<lambda>(i, c, a). c \<noteq> k) (tclients T)\<rparr>"

text \<open>What a handler that posts \<open>F\<close> and leaves the tables \<open>T\<close> ensures; no transaction is left open.\<close>

definition leaves :: "('w \<Rightarrow> sql_view) \<Rightarrow> tables \<Rightarrow> mail \<Rightarrow> 'w server \<Rightarrow> 'w server \<Rightarrow> bool" where
  "leaves view T F s s' \<longleftrightarrow> server_ok s' \<and> posted F s s' \<and> tabs (view (world s')) = T \<and>
     saved (view (world s')) = saved (view (world s))"

lemma reads_leaves: "reads view S F s s' \<Longrightarrow> leaves view (tabs (view (world s))) F s s'"
  by (simp add: reads_def leaves_def frame_def)

lemma leaves_reads:
  "reads view S F s s1 \<Longrightarrow> leaves view T G s1 s2 \<Longrightarrow> leaves view T (then_mail F G) s s2"
  unfolding reads_def leaves_def frame_def by (auto intro: posted_trans)

lemma reads_world:
  "server_ok s \<Longrightarrow> frame S (view (world s)) (view w) \<Longrightarrow> reads view S no_mail s (s\<lparr>world := w\<rparr>)"
  by (simp add: reads_def posted_world posted_no_mail)

context sqlite
begin

lemma echo_accepted_delivers:
  assumes "length p = PACKET_MAX_SIZE" "fits_packet p"
  shows "server_ok s \<Longrightarrow> feed TRANSFER_CLIENT_GET_ALL_ACCEPTED 1 x vs (world s) \<Longrightarrow> 0 \<notin> set vs \<Longrightarrow>
    length vs \<le> fuel \<Longrightarrow>
    delivers (mails (clients s) vs (\<lambda>q. q = p)) s
      (reads view {TRANSFER_CLIENT_GET_ALL_ACCEPTED} (mails (clients s) vs (\<lambda>q. q = p)) s)
      (echo_accepted E fuel p x s)"
proof (induction vs arbitrary: fuel x s)
  case Nil
  then show ?case
    by (subst echo_accepted.simps) (simp add: feed_def delivers_Inr reads_def posted_no_mail)
next
  case (Cons v vs)
  let ?S = TRANSFER_CLIENT_GET_ALL_ACCEPTED and ?P = "\<lambda>q. q = p"
  obtain m where m: "fuel = Suc m" "length vs \<le> m" using Cons.prems(4) by (cases fuel) auto
  have x: "x = v" "x \<noteq> 0" "ready ?S 1 vs (world s)" using Cons.prems(2,3) by (auto simp: feed_def)
  let ?r = "client_find_by_id (clients s) v"
  let ?next = "\<lambda>s1. let (y, s2) = on_world (db_client_all_step_accepted E) s1 in echo_accepted E m p y s2"
  have run: "echo_accepted E fuel p x s = bindE (case ?r of None \<Rightarrow> Inr s | Some i \<Rightarrow> push i (\<lambda>_. p) s) ?next"
    using x(2) unfolding m(1) x(1) by (subst echo_accepted.simps) simp
  have push: "delivers (mail_opt ?r ?P) s (only_posts (mail_opt ?r ?P) s)
      (case ?r of None \<Rightarrow> Inr s | Some i \<Rightarrow> push i (\<lambda>_. p) s)"
    by (rule opt_push_delivers [OF Cons.prems(1) assms find_range])
  show ?case
    unfolding run mails_Cons
  proof (rule delivers_bind [OF push], intro exI conjI)
    fix s1 assume 1: "only_posts (mail_opt ?r ?P) s s1"
    then show "posted (mail_opt ?r ?P) s s1" by (simp add: only_posts_def)
    note mails1 = mails_posted [OF this]
    obtain y w where y: "db_client_all_step_accepted E (world s1) = (y, w)" by force
    have "world s1 = world s" using 1 by (simp add: only_posts_def)
    then have step: "feed ?S 1 y vs w" "frame {?S} (view (world s)) (view w)"
      using step_ready [OF x(3)] y by (auto simp: db_client_all_step_accepted_def)
    let ?s2 = "s1\<lparr>world := w\<rparr>"
    have first: "reads view {?S} (mail_opt ?r ?P) s ?s2"
      using 1 step(2) by (simp add: reads_def only_posts_def posted_world)
    have "delivers (mails (clients ?s2) vs ?P) ?s2 (reads view {?S} (mails (clients ?s2) vs ?P) ?s2)
        (echo_accepted E m p y ?s2)"
      using 1 step(1) Cons.prems(3) m(2) by (intro Cons.IH) (auto simp: only_posts_def)
    then have rest: "delivers (mails (clients s) vs ?P) ?s2 (reads view {?S} (mails (clients s) vs ?P) ?s2)
        (echo_accepted E m p y ?s2)"
      using mails1 by simp
    show "delivers (mails (clients s) vs ?P) s1
        (reads view {?S} (then_mail (mail_opt ?r ?P) (mails (clients s) vs ?P)) s) (?next s1)"
      unfolding Let_def by (rule delivers_case_world [where f = "db_client_all_step_accepted E" and s = s1, OF y], rule rest, rule reads_trans [OF first])
  qed
qed

lemma cancel_clients_delivers:
  assumes "c < MAX_CLIENTS"
  shows "server_ok s \<Longrightarrow> feed TRANSFER_CLIENT_GET_ALL 1 x vs (world s) \<Longrightarrow> 0 \<notin> set vs \<Longrightarrow>
    length vs \<le> fuel \<Longrightarrow> P = transfer_notice P_TRANSFER_CANCEL (cl_id (client_at s c)) t \<Longrightarrow>
    delivers (mails (clients s) vs P) s (reads view {TRANSFER_CLIENT_GET_ALL} (mails (clients s) vs P) s)
      (cancel_clients E fuel c t x s)"
proof (induction vs arbitrary: fuel x s)
  case Nil
  then show ?case
    by (subst cancel_clients.simps) (simp add: feed_def delivers_Inr reads_def posted_no_mail)
next
  case (Cons v vs)
  let ?S = TRANSFER_CLIENT_GET_ALL
  obtain m where m: "fuel = Suc m" "length vs \<le> m" using Cons.prems(4) by (cases fuel) auto
  have x: "x = v" "x \<noteq> 0" "ready ?S 1 vs (world s)" using Cons.prems(2,3) by (auto simp: feed_def)
  let ?r = "client_find_by_id (clients s) v" and ?k = "cl_id (client_at s c)"
  let ?send = "case ?r of None \<Rightarrow> Inr s | Some i \<Rightarrow> send_transfer_state i ?k t P_TRANSFER_CANCEL s"
  let ?next = "\<lambda>s1. let (y, s2) = on_world (db_client_all_step E) s1 in cancel_clients E m c t y s2"
  have run: "cancel_clients E fuel c t x s = bindE ?send ?next"
    using x(2) unfolding m(1) x(1) by (subst cancel_clients.simps) simp
  have send: "delivers (mail_opt ?r P) s (only_posts (mail_opt ?r P) s) ?send"
    unfolding Cons.prems(5) by (rule opt_cancel_delivers [OF Cons.prems(1) find_range])
  show ?case
    unfolding run mails_Cons
  proof (rule delivers_bind [OF send], intro exI conjI)
    fix s1 assume 1: "only_posts (mail_opt ?r P) s s1"
    then show p: "posted (mail_opt ?r P) s s1" by (simp add: only_posts_def)
    obtain y w where y: "db_client_all_step E (world s1) = (y, w)" by force
    have "world s1 = world s" using 1 by (simp add: only_posts_def)
    then have step: "feed ?S 1 y vs w" "frame {?S} (view (world s)) (view w)"
      using step_ready [OF x(3)] y by (auto simp: db_client_all_step_def)
    let ?s2 = "s1\<lparr>world := w\<rparr>"
    have first: "reads view {?S} (mail_opt ?r P) s ?s2"
      using 1 step(2) by (simp add: reads_def only_posts_def posted_world)
    have "delivers (mails (clients ?s2) vs P) ?s2 (reads view {?S} (mails (clients ?s2) vs P) ?s2)
        (cancel_clients E m c t y ?s2)"
      using 1 step(1) Cons.prems(3,5) m(2) posted_client(1) [OF p assms]
      by (intro Cons.IH) (auto simp: only_posts_def)
    then have rest: "delivers (mails (clients s) vs P) ?s2 (reads view {?S} (mails (clients s) vs P) ?s2)
        (cancel_clients E m c t y ?s2)"
      using mails_posted [OF p] by simp
    show "delivers (mails (clients s) vs P) s1
        (reads view {?S} (then_mail (mail_opt ?r P) (mails (clients s) vs P)) s) (?next s1)"
      unfolding Let_def
      by (rule delivers_case_world [where f = "db_client_all_step E" and s = s1, OF y], rule rest,
          rule reads_trans [OF first])
  qed
qed

text \<open>Telling all clients of a transfer and removing it.\<close>

lemma cancel_transfer_delivers:
  assumes "server_ok s" "c < MAX_CLIENTS" "T = tabs (view (world s))" "0 \<notin> set (clients_of t T)"
    and "length (clients_of t T) \<le> fuel" "db_get_client_all E t (world s) = (x, w)"
    and P: "P = transfer_notice P_TRANSFER_CANCEL (cl_id (client_at s c)) t"
  shows "delivers (mails (clients s) (clients_of t T) P) s
    (\<lambda>s'. reads view {TRANSFER_CLIENT_GET_ALL} (mails (clients s) (clients_of t T) P) s s')
    (cancel_clients E fuel c t x (s\<lparr>world := w\<rparr>))"
proof -
  obtain vs where vs: "mset vs = mset (clients_of t T)" "feed TRANSFER_CLIENT_GET_ALL 1 x vs w"
      "frame {TRANSFER_CLIENT_GET_ALL} (view (world s)) (view w)"
    using get_client_all [OF assms(6)] assms(3) by auto
  have vs0: "0 \<notin> set vs" "length vs \<le> fuel"
    using vs(1) assms(4,5) by (metis set_mset_mset, metis size_mset)
  have "delivers (mails (clients s) vs P) (s\<lparr>world := w\<rparr>)
      (reads view {TRANSFER_CLIENT_GET_ALL} (mails (clients s) vs P) (s\<lparr>world := w\<rparr>))
      (cancel_clients E fuel c t x (s\<lparr>world := w\<rparr>))"
    using cancel_clients_delivers [OF assms(2), of "s\<lparr>world := w\<rparr>" x vs fuel P t] assms(1) vs vs0 P by simp
  then have "delivers (mails (clients s) vs P) s (reads view {TRANSFER_CLIENT_GET_ALL} (mails (clients s) vs P) (s\<lparr>world := w\<rparr>))
      (cancel_clients E fuel c t x (s\<lparr>world := w\<rparr>))"
    by (simp add: delivers_def)
  then show ?thesis
    unfolding mails_perm [OF vs(1), symmetric]
    by (rule delivers_mono) (use reads_trans [OF reads_world [OF assms(1) vs(3)]] in force)
qed

end

end
