(* ===== verification/Net_Close.thy ===== *)
theory Net_Close
  imports Net_Transfer
begin

text \<open>
  Closing a connection, \<^verbatim>\<open>qs_server/src/net_close.c\<close>: the transfers of the client are cancelled
  and its partners told, the other members of its session learn that it is gone, its slot and
  its descriptor are given back.
\<close>

section \<open>The functions of net\_close.c\<close>

fun disconnect_loop :: "nat list \<Rightarrow> nat \<Rightarrow> 'w server \<Rightarrow> fault + 'w server" where
  "disconnect_loop [] c s = Inr s"
| "disconnect_loop (i # is) c s =
     (if cl_id (client_at s i) \<noteq> cl_id (client_at s c) \<and>
         cl_session_id (client_at s i) = cl_session_id (client_at s c) \<and>
         cl_state (client_at s i) = C_COMPLETE
      then bindE (send_single_user i c P_SERVER_DEL_USERS s) (\<lambda>s1. disconnect_loop is c s1)
      else disconnect_loop is c s)"

definition send_user_disconnect :: "nat \<Rightarrow> 'w server \<Rightarrow> fault + 'w server" where
  "send_user_disconnect c s = disconnect_loop [0..<MAX_CLIENTS] c s"

text \<open>The loop of \<^verbatim>\<open>cancel_transaction_creator\<close>; \<open>n\<close> bounds its turns, \<open>fuel\<close> those of the inner loop.\<close>

fun cancel_transaction_creator :: "'w env \<Rightarrow> nat \<Rightarrow> nat \<Rightarrow> nat \<Rightarrow> transfer_id \<Rightarrow> 'w server \<Rightarrow> fault + 'w server" where
  "cancel_transaction_creator E fuel n c t_id s =
     (let (t_client_id, s1) = on_world (db_get_client_all E t_id) s
      in bindE (cancel_clients E fuel c t_id t_client_id s1) (\<lambda>s2.
           let (next_id, s3) = on_world (db_transfer_step E) (upd_world (db_cleanup_transfer E t_id) s2)
           in if next_id = 0 then Inr s3
              else case n of 0 \<Rightarrow> Inl Out_Of_Fuel
                   | Suc m \<Rightarrow> cancel_transaction_creator E fuel m c next_id s3))"

declare cancel_transaction_creator.simps [simp del]

fun cancel_creators :: "'w env \<Rightarrow> nat \<Rightarrow> nat \<Rightarrow> transfer_info \<Rightarrow> 'w server \<Rightarrow> fault + 'w server" where
  "cancel_creators E n c info s =
     (if creator info = 0 then Inr s
      else case n of 0 \<Rightarrow> Inl Out_Of_Fuel | Suc m \<Rightarrow>
        bindE (case client_find_by_id (clients s) (creator info) of
                 None \<Rightarrow> Inr s
               | Some r \<Rightarrow> send_transfer_state r (cl_id (client_at s c)) (info_t_id info) P_TRANSFER_CANCEL s)
          (\<lambda>s1. let (next_info, s2) = on_world (db_creator_step E) s1
                in cancel_creators E m c next_info s2))"

declare cancel_creators.simps [simp del]

definition cancel_transaction_user :: "'w env \<Rightarrow> nat \<Rightarrow> nat \<Rightarrow> 'w server \<Rightarrow> fault + 'w server" where
  "cancel_transaction_user E fuel c s =
     (let (info, s1) = on_world (db_get_creator E (cl_id (client_at s c))) s
      in bindE (cancel_creators E fuel c info s1) (\<lambda>s2.
           Inr (upd_world (db_client_delete E (cl_id (client_at s2 c))) s2)))"

definition cancel_transaction :: "'w env \<Rightarrow> nat \<Rightarrow> nat \<Rightarrow> 'w server \<Rightarrow> fault + 'w server" where
  "cancel_transaction E fuel c s =
     (let (begun, s1) = on_world (db_transaction E BEGIN_TRANSACTION) s
      in if \<not> begun then Inr s1
         else let (t_id, s2) = on_world (db_get_transfer E (cl_id (client_at s1 c))) s1
              in bindE (if t_id \<noteq> 0 then cancel_transaction_creator E fuel fuel c t_id s2 else Inr s2) (\<lambda>s3.
                 bindE (cancel_transaction_user E fuel c s3) (\<lambda>s4.
                   Inr (snd (on_world (db_transaction E COMMIT_TRANSACTION) s4)))))"

definition close_slot :: "'w env \<Rightarrow> int \<Rightarrow> 'w server \<Rightarrow> 'w server" where
  "close_slot E fd s = (let (_, cl, w) = client_close E (clients s) fd (world s)
                        in s\<lparr>clients := cl, world := w\<rparr>)"

definition close_client :: "'w env \<Rightarrow> nat \<Rightarrow> int \<Rightarrow> 'w server \<Rightarrow> fault + 'w server" where
  "close_client E fuel fd s =
     (let (gone, s1) = new_client_event E EPOLL_CTL_DEL fd s
      in if \<not> gone then Inr s1
         else case client_find (clients s1) fd of
                None \<Rightarrow> Inr s1
              | Some c \<Rightarrow>
                  bindE (if cl_state (client_at s1 c) = C_COMPLETE
                         then bindE (cancel_transaction E fuel c s1) (\<lambda>s2. send_user_disconnect c s2)
                         else Inr s1) (\<lambda>s3.
                    let s4 = close_slot E fd s3
                    in Inr (upd_world (sys_close E (cl_fd (client_at s4 c))) s4)))"

section \<open>Closing keeps the server well formed\<close>

lemma disconnect_loop_handled:
  "server_ok s \<Longrightarrow> c < MAX_CLIENTS \<Longrightarrow> \<forall>i \<in> set is. i < MAX_CLIENTS \<Longrightarrow>
   keepsE df (handled E s) (disconnect_loop is c s)"
proof (induction "is" arbitrary: s)
  case (Cons i "is")
  then show ?case
    by (auto intro!: keepsE_handled_bind send_single_user_handled dest: handled_ok)
qed (simp add: handled_refl)

lemma keepsE_case_world_upd:
  "server_ok s \<Longrightarrow> db_upd E f \<Longrightarrow> db_only E g \<Longrightarrow>
   (\<And>x s1. server_ok s1 \<Longrightarrow> keepsE df (handled E s1) (k x s1)) \<Longrightarrow>
   keepsE df (handled E s) (case on_world g (upd_world f s) of (x, s1) \<Rightarrow> k x s1)"
  by (rule keepsE_handled_from [OF handled_upd_world [where f = f]]) (simp_all add: keepsE_case_world)

lemma cancel_transaction_creator_handled:
  "server_ok s \<Longrightarrow> keepsE df (handled E s) (cancel_transaction_creator E fuel n c t_id s)"
proof (induction n arbitrary: t_id s)
  case 0
  then show ?case
    by (subst cancel_transaction_creator.simps)
      (auto simp: handled_refl Let_def
        intro!: keeps_steps cancel_clients_handled keepsE_case_world_upd intro: handled_ok)
next
  case (Suc n)
  then show ?case
    by (subst cancel_transaction_creator.simps)
      (auto simp: handled_refl Let_def
        intro!: keeps_steps cancel_clients_handled keepsE_case_world_upd intro: handled_ok)
qed

lemma cancel_creators_handled:
  "server_ok s \<Longrightarrow> keepsE df (handled E s) (cancel_creators E n c info s)"
proof (induction n arbitrary: info s)
  case 0
  then show ?case by (subst cancel_creators.simps) (simp add: handled_refl)
next
  case (Suc n)
  show ?case
    by (subst cancel_creators.simps)
      (use Suc in \<open>auto simp: handled_refl Let_def intro!: keeps_steps find_cancel_handled dest: handled_ok\<close>)
qed

lemma cancel_transaction_user_handled:
  "server_ok s \<Longrightarrow> keepsE df (handled E s) (cancel_transaction_user E fuel c s)"
  by (auto simp: cancel_transaction_user_def Let_def intro!: keeps_steps cancel_creators_handled dest: handled_ok)

lemma handled_snd_world: "server_ok s \<Longrightarrow> db_only E f \<Longrightarrow> handled E s (snd (on_world f s))"
  by (cases "on_world f s") (simp add: handled_on_world)

lemma cancel_transaction_handled:
  "server_ok s \<Longrightarrow> keepsE df (handled E s) (cancel_transaction E fuel c s)"
  by (auto simp: cancel_transaction_def Let_def handled_refl
      intro!: handled_snd_world keeps_steps cancel_transaction_creator_handled cancel_transaction_user_handled)
    (metis handled_ok)+

lemma handled_find:
  assumes "handled E s s'"
  shows "client_find (clients s') fd = client_find (clients s) fd"
  unfolding client_find_def
  by (rule find_cong) (use assms in \<open>auto simp: handled_def client_at_def\<close>)

lemma close_slot_ok: "server_ok s \<Longrightarrow> server_ok (close_slot E fd s)"
  by (cases "client_close E (clients s) fd (world s)")
    (auto simp: close_slot_def server_ok_def dest: client_close_ok)

lemma new_client_event_world:
  assumes "new_client_event E op fd s = (b, s1)"
  shows "\<exists>w. s1 = s\<lparr>world := w\<rparr>"
  using assms by (auto simp: new_client_event_def on_world_def Let_def split: prod.splits)

lemma handled_in_use: "handled E s s' \<Longrightarrow> i < MAX_CLIENTS \<Longrightarrow> in_use (client_at s' i) = in_use (client_at s i)"
  by (simp add: handled_def)

text \<open>A close frees at most the slot with the descriptor; it frees it if epoll knows the descriptor.\<close>

definition only_closes :: "'w server \<Rightarrow> 'w server \<Rightarrow> bool" where
  "only_closes s s' \<longleftrightarrow> server_ok s' \<and> sock_fd s' = sock_fd s \<and>
     (\<forall>i < MAX_CLIENTS. in_use (client_at s' i) \<longrightarrow> in_use (client_at s i))"

lemma only_closes_refl: "server_ok s \<Longrightarrow> only_closes s s"
  by (simp add: only_closes_def)

lemma only_closes_trans: "only_closes s s1 \<Longrightarrow> only_closes s1 s2 \<Longrightarrow> only_closes s s2"
  by (simp add: only_closes_def)

lemma only_closes_ok: "only_closes s s' \<Longrightarrow> server_ok s'"
  by (simp add: only_closes_def)

lemma handled_only_closes: "handled E s s' \<Longrightarrow> only_closes s s'"
  by (simp add: only_closes_def handled_def)

lemma close_slot_closes:
  assumes "server_ok s"
  shows "only_closes s (close_slot E fd s)"
    "client_find (clients s) fd = Some c \<Longrightarrow> \<not> in_use (client_at (close_slot E fd s) c)"
proof -
  have ok: "server_ok (close_slot E fd s)" by (rule close_slot_ok [OF assms])
  show "only_closes s (close_slot E fd s)"
  proof (cases "client_find (clients s) fd")
    case None
    with ok show ?thesis by (simp add: only_closes_def close_slot_def client_close_def client_at_def)
  next
    case (Some c)
    with ok show ?thesis
      using server_ok_length [OF assms] client_find_range(1) [OF Some]
      by (auto simp: only_closes_def close_slot_def client_close_def client_at_def Let_def nth_list_update)
  qed
  show "\<not> in_use (client_at (close_slot E fd s) c)" if "client_find (clients s) fd = Some c"
    using that server_ok_length [OF assms] client_find_range(1) [OF that]
    by (simp add: close_slot_def client_close_def client_at_def Let_def)
qed

text \<open>\<^verbatim>\<open>close_client\<close> from the point where the slot is found.\<close>

lemma close_found:
  assumes "server_ok s" "client_find (clients s) fd = Some c"
  shows "keepsE df (\<lambda>s'. only_closes s s' \<and> \<not> in_use (client_at s' c))
    (bindE (if cl_state (client_at s c) = C_COMPLETE
            then bindE (cancel_transaction E fuel c s) (\<lambda>s2. send_user_disconnect c s2) else Inr s)
      (\<lambda>s3. let s4 = close_slot E fd s3 in Inr (upd_world (sys_close E (cl_fd (client_at s4 c))) s4)))"
proof -
  have "keepsE df (handled E s) (if cl_state (client_at s c) = C_COMPLETE
      then bindE (cancel_transaction E fuel c s) (\<lambda>s2. send_user_disconnect c s2) else Inr s)"
    using assms client_find_range(1) by (auto simp: handled_refl send_user_disconnect_def
        intro!: keepsE_handled_bind cancel_transaction_handled disconnect_loop_handled dest: handled_ok)
  then show ?thesis
  proof (rule keepsE_bind)
    fix s3 assume h: "handled E s s3"
    have "client_find (clients s3) fd = Some c" using assms(2) handled_find [OF h] by simp
    note close = close_slot_closes [OF handled_ok [OF h]] close_slot_closes(2) [OF handled_ok [OF h] this]
    have "only_closes s (close_slot E fd s3)"
      by (rule only_closes_trans [OF handled_only_closes [OF h] close(1)])
    then show "keepsE df (\<lambda>s'. only_closes s s' \<and> \<not> in_use (client_at s' c))
        (let s4 = close_slot E fd s3 in Inr (upd_world (sys_close E (cl_fd (client_at s4 c))) s4))"
      using close(3) by (simp add: Let_def only_closes_def upd_world_def)
  qed
qed

lemma only_closes_world: "only_closes (s\<lparr>world := w\<rparr>) s' = only_closes s s'"
  by (simp add: only_closes_def)

lemma close_client_only_closes:
  assumes "server_ok s"
  shows "keepsE df (only_closes s) (close_client E fuel fd s)"
proof -
  obtain gone s1 where 1: "new_client_event E EPOLL_CTL_DEL fd s = (gone, s1)" by force
  then obtain w where s1: "s1 = s\<lparr>world := w\<rparr>" using new_client_event_world by blast
  then have ok1: "server_ok s1" "only_closes s s1" using assms by (simp_all add: only_closes_def)
  show ?thesis
  proof (cases "client_find (clients s1) fd")
    case None
    with 1 ok1 show ?thesis by (simp add: close_client_def)
  next
    case (Some c)
    have "only_closes s s'" if "only_closes s1 s' \<and> \<not> in_use (client_at s' c)" for s'
      using that ok1(2) by (blast intro: only_closes_trans)
    note found = keepsE_mono [OF close_found [OF ok1(1) Some] this]
    have "close_client E fuel fd s = (if \<not> gone then Inr s1 else
        bindE (if cl_state (client_at s1 c) = C_COMPLETE
               then bindE (cancel_transaction E fuel c s1) (\<lambda>s2. send_user_disconnect c s2) else Inr s1)
          (\<lambda>s3. let s4 = close_slot E fd s3 in Inr (upd_world (sys_close E (cl_fd (client_at s4 c))) s4)))"
      using 1 Some by (simp add: close_client_def)
    with found ok1 show ?thesis by simp
  qed
qed

lemma close_client_closes:
  assumes "server_ok s" "client_find (clients s) fd = Some c" "\<And>ev w. fst (epoll_ctl E EPOLL_CTL_DEL fd ev w) \<noteq> - 1"
  shows "keepsE df (\<lambda>s'. only_closes s s' \<and> \<not> in_use (client_at s' c)) (close_client E fuel fd s)"
proof -
  obtain gone s1 where 1: "new_client_event E EPOLL_CTL_DEL fd s = (gone, s1)" by force
  then obtain w where s1: "s1 = s\<lparr>world := w\<rparr>" using new_client_event_world by blast
  have gone: "gone"
    using 1 assms(3) by (auto simp: new_client_event_def on_world_def Let_def split: prod.splits) (metis fst_conv)
  have ok1: "server_ok s1" "client_find (clients s1) fd = Some c" using assms s1 by simp_all
  have "only_closes s s' \<and> \<not> in_use (client_at s' c)" if "only_closes s1 s' \<and> \<not> in_use (client_at s' c)" for s'
    using that s1 by (simp add: only_closes_world)
  note found = keepsE_mono [OF close_found [OF ok1] this]
  have "close_client E fuel fd s =
      bindE (if cl_state (client_at s1 c) = C_COMPLETE
             then bindE (cancel_transaction E fuel c s1) (\<lambda>s2. send_user_disconnect c s2) else Inr s1)
        (\<lambda>s3. let s4 = close_slot E fd s3 in Inr (upd_world (sys_close E (cl_fd (client_at s4 c))) s4))"
    using 1 gone ok1(2) by (simp add: close_client_def)
  with found show ?thesis by simp
qed

lemma close_client_ok: "server_ok s \<Longrightarrow> keepsE df server_ok (close_client E fuel fd s)"
  by (rule keepsE_mono [OF close_client_only_closes]) (auto simp: only_closes_def)

end
