(* ===== verification/Machine.thy ===== *)
theory Machine
  imports Database
begin

text \<open>
  The byte streams of the foreign calls, as a contract, and a machine that meets it: an outside
  world with a database connection, sockets and TLS sessions, in which every example of the
  server that reads and writes runs.
\<close>

section \<open>The streams\<close>

text \<open>
  \<open>sent w fd\<close>: the bytes the kernel has accepted on a socket; \<open>wire w b\<close>: the bytes that wait in a
  memory BIO; \<open>taken w h\<close>: the plain bytes a TLS session has accepted; \<open>arriving w h\<close>: the plain
  bytes it is yet to deliver. Each call moves bytes in order and touches no other stream.
\<close>

locale streams = bounded_io E for E :: "'w env" +
  fixes sent :: "'w \<Rightarrow> int \<Rightarrow> bytes" and wire :: "'w \<Rightarrow> u64 \<Rightarrow> bytes" and taken :: "'w \<Rightarrow> u64 \<Rightarrow> bytes"
    and arriving :: "'w \<Rightarrow> u64 \<Rightarrow> bytes"
  assumes sys_write_sent: "sys_write E fd bs w = (k, w') \<Longrightarrow>
      sent w' = (sent w)(fd := sent w fd @ take (nat k) bs) \<and> wire w' = wire w \<and> taken w' = taken w \<and>
      arriving w' = arriving w"
    and BIO_read_wire: "BIO_read E b n w = (r, w') \<Longrightarrow>
      wire w b = (case r of Inl _ \<Rightarrow> [] | Inr bs \<Rightarrow> bs) @ wire w' b \<and> sent w' = sent w \<and> taken w' = taken w"
    and SSL_write_taken: "SSL_write E h bs w = (k, w') \<Longrightarrow>
      taken w' = (taken w)(h := taken w h @ take (nat k) bs) \<and> sent w' = sent w"
    and SSL_read_arriving: "SSL_read E h k w = (r, w') \<Longrightarrow>
      arriving w h = (case r of Inl _ \<Rightarrow> [] | Inr bs \<Rightarrow> bs) @ arriving w' h"
    and SSL_read_waits: "SSL_read E h k w = (r, w') \<Longrightarrow> 0 < k \<Longrightarrow> arriving w h \<noteq> [] \<Longrightarrow>
      \<exists>x xs. r = Inr (x # xs)"
    and sqlite_arriving: "arriving (sqlite3_reset E st w) = arriving w"
      "arriving (sqlite3_bind E st i v w) = arriving w"
      "sqlite3_step E st w = (rc, w') \<Longrightarrow> arriving w' = arriving w"
begin

lemma db_steps_arriving: "db_steps E w w' \<Longrightarrow> arriving w' = arriving w"
  by (induction rule: db_steps.induct) (auto simp: sqlite_arriving)

end

section \<open>The machine\<close>

text \<open>
  TLS sessions that do not encrypt: session \<open>h\<close> writes to the BIO \<open>h + 1\<close> and reads from \<open>h + 2\<close>.
  A socket takes bytes while there is room.
\<close>

record machine =
  m_db :: sql_view
  m_room :: nat
  m_net :: "int \<Rightarrow> bytes"
  m_sent :: "int \<Rightarrow> bytes"
  m_wire :: "u64 \<Rightarrow> bytes"
  m_taken :: "u64 \<Rightarrow> bytes"
  m_arriving :: "u64 \<Rightarrow> bytes"

text \<open>A read of at most \<open>n\<close> bytes of a stream: \<open>- 1\<close> when there is nothing.\<close>

definition some_bytes :: "nat \<Rightarrow> bytes \<Rightarrow> nat + bytes" where
  "some_bytes n bs = (if n = 0 \<or> bs = [] then Inl 1 else Inr (take n bs))"

definition rest_bytes :: "nat \<Rightarrow> bytes \<Rightarrow> bytes" where
  "rest_bytes n bs = (if n = 0 then bs else drop n bs)"

definition machine_env :: "machine env" where
  "machine_env = \<lparr>
     time_now = (\<lambda>w. (1, w)), errno_again = (\<lambda>_. True), server_running = (\<lambda>_. False),
     sys_read = (\<lambda>fd n w. (some_bytes n (m_net w fd), w\<lparr>m_net := (m_net w)(fd := rest_bytes n (m_net w fd))\<rparr>)),
     sys_write = (\<lambda>fd bs w. let k = min (m_room w) (length bs) in
       (if k = 0 then - 1 else int k,
        w\<lparr>m_room := m_room w - k, m_sent := (m_sent w)(fd := m_sent w fd @ take k bs)\<rparr>)),
     sys_close = (\<lambda>_ w. w),
     sys_accept = (\<lambda>_ w. ((- 1, \<lparr>sin_addr = 0, sin_port = 0\<rparr>), w)),
     fcntl_getfl = (\<lambda>_ w. (0, w)), fcntl_setfl = (\<lambda>_ _ w. (0, w)),
     epoll_ctl = (\<lambda>_ _ _ w. (0, w)), epoll_wait = (\<lambda>_ w. (Some [], w)),
     sqlite3_reset = (\<lambda>st w. w\<lparr>m_db := sql_reset st (m_db w)\<rparr>),
     sqlite3_bind = (\<lambda>st i x w. w\<lparr>m_db := sql_bind st i x (m_db w)\<rparr>),
     sqlite3_step = (\<lambda>st w. let (rc, v) = sql_step (ref_rid st (m_db w))
         (select_rows st (params (m_db w) st) (tabs (m_db w))) st (m_db w) in (rc, w\<lparr>m_db := v\<rparr>)),
     sqlite3_column_int64 = (\<lambda>st i w. sql_column st i (m_db w)),
     sqlite3_last_insert_rowid = (\<lambda>w. last_rowid (m_db w)),
     BIO_new_mem = (\<lambda>w. (1, w)), SSL_new = (\<lambda>w. (1, w)), SSL_set_accept_state = (\<lambda>_ w. w),
     SSL_set_bio = (\<lambda>_ _ _ w. w), SSL_do_handshake = (\<lambda>_ w. (1, w)),
     SSL_is_init_finished = (\<lambda>_ _. True),
     SSL_get_error = (\<lambda>_ k _. if 0 < k then SSL_ERROR_NONE else SSL_ERROR_WANT_READ),
     SSL_read = (\<lambda>h k w. (some_bytes (nat k) (m_arriving w h),
       w\<lparr>m_arriving := (m_arriving w)(h := rest_bytes (nat k) (m_arriving w h))\<rparr>)),
     SSL_write = (\<lambda>h bs w. (int (length bs),
       w\<lparr>m_taken := (m_taken w)(h := m_taken w h @ bs), m_wire := (m_wire w)(h + 1 := m_wire w (h + 1) @ bs)\<rparr>)),
     SSL_shutdown = (\<lambda>_ w. (1, w)), SSL_free = (\<lambda>_ w. w),
     BIO_read = (\<lambda>b n w. (some_bytes n (m_wire w b), w\<lparr>m_wire := (m_wire w)(b := rest_bytes n (m_wire w b))\<rparr>)),
     BIO_write = (\<lambda>b bs w. (int (length bs),
       w\<lparr>m_arriving := (m_arriving w)(b - 2 := m_arriving w (b - 2) @ bs)\<rparr>)),
     BIO_should_retry = (\<lambda>_ _. True)\<rparr>"

lemma some_bytes_rest: "bs = (case some_bytes n bs of Inl _ \<Rightarrow> [] | Inr xs \<Rightarrow> xs) @ rest_bytes n bs"
  "some_bytes n bs = Inr xs \<Longrightarrow> length xs \<le> n" "0 < n \<Longrightarrow> bs \<noteq> [] \<Longrightarrow> \<exists>x xs. some_bytes n bs = Inr (x # xs)"
  by (cases bs; cases n; auto simp: some_bytes_def rest_bytes_def)+

lemma some_bytes_int: "some_bytes (nat k) bs = Inr xs \<Longrightarrow> int (length xs) \<le> max 0 k"
  using some_bytes_rest(2) [of "nat k" bs xs] by linarith

interpretation mach_db: sqlite machine_env m_db
proof unfold_locales
  fix st :: stmt and w w' :: machine and rc
  assume s: "sqlite3_step machine_env st w = (rc, w')" and r: "inserts_id st \<longrightarrow> roomy (m_db w)"
  then have "(rc, m_db w') = sql_step (ref_rid st (m_db w))
      (select_rows st (params (m_db w) st) (tabs (m_db w))) st (m_db w)"
    by (auto simp: machine_env_def split: prod.splits)
  with ref_rid_valid [OF r] show "\<exists>rid rows. valid_choice st (m_db w) rid rows \<and>
      (rc, m_db w') = sql_step rid rows st (m_db w)"
    by blast
qed (simp_all add: machine_env_def)

interpretation mach: streams machine_env m_sent m_wire m_taken m_arriving
proof unfold_locales
  show "sys_write machine_env fd bs w = (k, w') \<Longrightarrow>
      m_sent w' = (m_sent w)(fd := m_sent w fd @ take (nat k) bs) \<and> m_wire w' = m_wire w \<and>
      m_taken w' = m_taken w \<and> m_arriving w' = m_arriving w" for fd bs w k w'
    by (auto simp: machine_env_def Let_def split: if_splits)
qed (auto simp: machine_env_def Let_def some_bytes_rest some_bytes_int split: if_splits prod.splits)

end
