(* ===== verification/Framing.thy ===== *)
theory Framing
  imports Packet
begin

text \<open>
  The reference for cutting a stream of bytes into packets, which both ends of a connection do as
  the bytes come.
\<close>

text \<open>
  A frame is a header followed by as many bytes as it announces. \<open>frames\<close> splits a stream into
  its complete frames and the rest: what \<^verbatim>\<open>decrypt_data\<close> of the server and \<^verbatim>\<open>read_data\<close> of the client
  do piece by piece.
\<close>

definition frame_len :: "bytes \<Rightarrow> nat" where
  "frame_len bs = 8 + unat (hdr_size bs)"

function frames :: "bytes \<Rightarrow> bytes list \<times> bytes" where
  "frames bs = (if length bs < 8 \<or> length bs < frame_len bs then ([], bs)
     else let (fs, rest) = frames (drop (frame_len bs) bs) in (take (frame_len bs) bs # fs, rest))"
  by pat_completeness auto
termination
  by (relation "measure length") (auto simp: frame_len_def)

declare frames.simps [simp del]

definition is_frame :: "bytes \<Rightarrow> bool" where
  "is_frame f \<longleftrightarrow> length f = frame_len f"

lemma hdr_size_append: "8 \<le> length f \<Longrightarrow> hdr_size (f @ r) = hdr_size f"
  by (simp add: hdr_size_def get_u32_def get_bytes_def)

lemma frames_concat:
  assumes "\<forall>f \<in> set fs. is_frame f" "length rest < 8 \<or> length rest < frame_len rest"
  shows "frames (concat fs @ rest) = (fs, rest)"
  using assms(1)
proof (induction fs)
  case Nil
  with assms(2) show ?case by (subst frames.simps) auto
next
  case (Cons f fs)
  then have f: "length f = frame_len f" "8 \<le> length f" by (simp_all add: is_frame_def frame_len_def)
  then have "frame_len (f @ concat fs @ rest) = length f" by (simp add: frame_len_def hdr_size_append)
  with f Cons show ?case by (subst frames.simps) simp
qed

text \<open>The number of bytes a packet lacks, as both ends compute it: it never exceeds what is missing.\<close>

lemma unat_u32_64: "unat (ucast (v :: u32) :: u64) = unat v"
  using unat_bounds(2) [of v] by (simp add: unsigned_ucast_eq take_bit_nat_eq_self)

lemma unat_packet_len: "unat (8 + ucast (v :: u32) :: u64) = 8 + unat v"
  using unat_bounds(2) [of v] unat_u32_64 [of v] by (simp add: unat_word_ariths)

lemma lacking_bytes:
  assumes "unat l \<le> 8 + unat (z :: u32)"
  shows "unat ((8 + ucast z - ucast (l :: u32)) :: u64) = 8 + unat z - unat l"
    "sint (ucast ((8 + ucast z - ucast l) :: u64) :: u32) \<le> int (8 + unat z - unat l)"
proof -
  let ?v = "(8 + ucast z - ucast l) :: u64"
  show v: "unat ?v = 8 + unat z - unat l"
    using assms unat_u32_64 [of l] unat_packet_len [of z] by (simp add: unat_sub_if')
  have "sint (ucast ?v :: u32) \<le> int (unat (ucast ?v :: u32))"
    using unsigned_greater_eq [of "ucast ?v :: u32"]
    by (simp add: sint_uint signed_take_bit_int_less_eq_self_iff order_trans [of _ 0])
  moreover have "unat (ucast ?v :: u32) \<le> unat ?v"
    by (simp add: unsigned_ucast_eq take_bit_nat_less_eq_self)
  ultimately have "sint (ucast ?v :: u32) \<le> int (unat ?v)" by linarith
  then show "sint (ucast ?v :: u32) \<le> int (8 + unat z - unat l)" by (simp only: v)
qed

end
