(* ===== verification/Net_Write.thy ===== *)
theory Net_Write
  imports Net_Close Machine Framing
begin

text \<open>
  Writing to a connection, \<^verbatim>\<open>qs_server/src/net_write.c\<close>: the bytes of the encrypted buffer go to
  the socket, and the messages of the queue, one per turn, through TLS into that buffer. The
  lemmas show that bytes leave in order, that the loops end, and that no read or write leaves
  its buffer.
\<close>

section \<open>Sending encrypted bytes\<close>

datatype write_result = WRITE_ERROR | WRITE_OK | WRITE_BLOCK

text \<open>\<^verbatim>\<open>memmove(buf->data, buf->data + n, buf->len - n); buf->len -= n;\<close>\<close>

definition shift_out :: "nat \<Rightarrow> buffer \<Rightarrow> buffer" where
  "shift_out n b = b\<lparr>b_data := put_bytes 0 (get_bytes n (unat (b_len b) - n) (b_data b)) (b_data b),
                     b_len := b_len b - of_nat n\<rparr>"

lemma shift_out_len: "n \<le> unat (b_len b) \<Longrightarrow> unat (b_len (shift_out n b)) = unat (b_len b) - n"
  by (simp add: shift_out_def unat_sub_if' unat_of_nat le_less_trans [OF _ unat_bounds(2)])

function write_bytes :: "'w env \<Rightarrow> int \<Rightarrow> buffer \<Rightarrow> 'w \<Rightarrow> fault + (write_result \<times> buffer \<times> 'w)" where
  "write_bytes E fd b w =
     (if b_len b = 0 then Inr (WRITE_OK, b, w)
      else if length (b_data b) < unat (b_len b) then Inl Undefined
      else let (n, w1) = sys_write E fd (take (unat (b_len b)) (b_data b)) w in
           if n = - 1 \<and> errno_again E w1 then Inr (WRITE_BLOCK, b, w1)
           else if n > 0
                then if int (unat (b_len b)) < n then Inl Undefined
                     else write_bytes E fd (shift_out (nat n) b) w1
                else Inr (WRITE_ERROR, b, w1))"
  by pat_completeness auto
termination
  by (relation "measure (\<lambda>(E, fd, b, w). unat (b_len b))") (auto simp: shift_out_len unat_gt_0 nat_le_iff)

declare write_bytes.simps [simp del]

section \<open>Encrypting a message\<close>

text \<open>
  The loop, here and in \<^verbatim>\<open>ssl_want_more\<close>, that moves what TLS wants to send into the encrypted
  buffer, 64 bytes at a time. It gives whether \<^verbatim>\<open>BIO_should_retry\<close> after the last read.
\<close>

function drain_bio :: "'w env \<Rightarrow> secure \<Rightarrow> 'w \<Rightarrow> fault + (bool \<times> secure \<times> 'w)" where
  "drain_bio E sec w =
     (case BIO_read E (w_bio sec) 64 w of
        (Inr (x # xs), w1) \<Rightarrow>
          (case secure_queue_write sec (x # xs) of
             Inl e \<Rightarrow> Inl e
           | Inr sec1 \<Rightarrow> drain_bio E sec1 w1)
      | (_, w1) \<Rightarrow> Inr (BIO_should_retry E (w_bio sec) w1, sec, w1))"
  by pat_completeness auto
termination
proof (relation "measure (\<lambda>(E, sec, w). unat (b_bytes (encrypted_buf sec)) - unat (b_len (encrypted_buf sec)))")
  fix E :: "'w env" and sec w r w1 x xs and sec1 :: secure
  assume "secure_queue_write sec (x # xs) = Inr sec1"
  then have w: "unat (b_len (encrypted_buf sec)) + length (x # xs) < unat (b_bytes (encrypted_buf sec))"
    "b_len (encrypted_buf sec1) = b_len (encrypted_buf sec) + of_nat (length (x # xs))"
    "b_bytes (encrypted_buf sec1) = b_bytes (encrypted_buf sec)"
    by (auto simp: secure_queue_write_def Let_def simp del: list.size split: if_splits)
  moreover have "unat (b_bytes (encrypted_buf sec)) < 2 ^ 32" using unat_bounds(2) by simp
  ultimately have "unat (b_len (encrypted_buf sec1)) = unat (b_len (encrypted_buf sec)) + length (x # xs)"
    by (simp add: unat_word_ariths unat_of_nat del: list.size)
  with w show "((E, sec1, w1), (E, sec, w)) \<in> measure (\<lambda>(E, sec, w).
      unat (b_bytes (encrypted_buf sec)) - unat (b_len (encrypted_buf sec)))"
    by simp
qed simp

declare drain_bio.simps [simp del]

text \<open>
  The loop of \<^verbatim>\<open>encrypt\<close>: \<open>off\<close> is \<^verbatim>\<open>data - (char*)p\<close>. A \<^verbatim>\<open>size\<close> beyond the element of the
  queue is a read outside it. The number of turns depends on how much \<^verbatim>\<open>SSL_write\<close> takes.
\<close>

fun encrypt_loop :: "'w env \<Rightarrow> nat \<Rightarrow> packet \<Rightarrow> nat \<Rightarrow> u64 \<Rightarrow> secure \<Rightarrow> 'w \<Rightarrow> fault + (bool \<times> secure \<times> 'w)" where
  "encrypt_loop E fuel p off size' sec w =
     (if size' = 0 then Inr (True, sec, w)
      else if length p < off + unat size' then Inl Undefined
      else case fuel of 0 \<Rightarrow> Inl Out_Of_Fuel | Suc m \<Rightarrow>
        let (n, w1) = SSL_write E (ssl sec) (get_bytes off (unat size') p) w;
            state = get_sslstate E sec n w1
        in bindE (assertE (state \<noteq> STATUS_MORE_IO)) (\<lambda>_.
             if n > 0
             then bindE (drain_bio E sec w1) (\<lambda>(retry, sec1, w2).
                    if \<not> retry \<or> state = STATUS_FAIL then Inr (False, sec1, w2)
                    else encrypt_loop E m p (off + nat n) (size' - of_int n) sec1 w2)
             else if state = STATUS_FAIL then Inr (False, sec, w1)
                  else encrypt_loop E m p off size' sec w1))"

declare encrypt_loop.simps [simp del]

definition encrypt :: "'w env \<Rightarrow> nat \<Rightarrow> packet \<Rightarrow> secure \<Rightarrow> 'w \<Rightarrow> fault + (bool \<times> secure \<times> 'w)" where
  "encrypt E fuel p sec w = encrypt_loop E fuel p 0 (8 + ucast (hdr_size p)) sec w"

section \<open>write\_data\<close>

definition set_secure :: "nat \<Rightarrow> secure \<Rightarrow> 'w \<Rightarrow> 'w server \<Rightarrow> 'w server" where
  "set_secure c sec w s = upd_client c (\<lambda>x. x\<lparr>cl_secure := sec\<rparr>) (s\<lparr>world := w\<rparr>)"

text \<open>Write what is encrypted; a failed connection is closed and the loop left.\<close>

definition flush :: "'w env \<Rightarrow> nat \<Rightarrow> int \<Rightarrow> nat \<Rightarrow> write_result \<Rightarrow> 'w server \<Rightarrow>
    fault + (write_result \<times> 'w server)" where
  "flush E fuel fd c w_state s =
     (let sec = cl_secure (client_at s c) in
      if b_len (encrypted_buf sec) = 0 then Inr (w_state, s)
      else bindE (write_bytes E (cl_fd (client_at s c)) (encrypted_buf sec) (world s)) (\<lambda>(r, b, w).
             let s1 = set_secure c (sec\<lparr>encrypted_buf := b\<rparr>) w s
             in if r = WRITE_ERROR
                then bindE (close_client E fuel fd s1) (\<lambda>s2. Inr (WRITE_ERROR, s2))
                else Inr (r, s1)))"

text \<open>Encrypt the oldest message; \<^verbatim>\<open>dequeue\<close> cannot fail on a queue that is not empty.\<close>

definition encrypt_next :: "'w env \<Rightarrow> nat \<Rightarrow> int \<Rightarrow> nat \<Rightarrow> 'w server \<Rightarrow> fault + 'w server" where
  "encrypt_next E fuel fd c s =
     (if queue_empty (msg_queue (client_at s c)) then Inr s
      else case dequeue (msg_queue (client_at s c)) of
             (None, q) \<Rightarrow> Inl Assert_Failed
           | (Some k, q) \<Rightarrow>
               let s1 = upd_client c (\<lambda>x. x\<lparr>msg_queue := q\<rparr>) s
               in bindE (encrypt E fuel (slot k q) (cl_secure (client_at s1 c)) (world s1)) (\<lambda>(ok, sec, w).
                    let s2 = set_secure c sec w s1
                    in if ok then Inr s2 else close_client E fuel fd s2))"

fun write_loop :: "'w env \<Rightarrow> nat \<Rightarrow> nat \<Rightarrow> int \<Rightarrow> nat \<Rightarrow> write_result \<Rightarrow> 'w server \<Rightarrow> fault + 'w server" where
  "write_loop E fuel n fd c w_state s =
     bindE (flush E fuel fd c w_state s) (\<lambda>(r, s1).
       if r = WRITE_ERROR then Inr s1
       else bindE (encrypt_next E fuel fd c s1) (\<lambda>s2.
         if r \<noteq> WRITE_BLOCK \<and> 0 < b_len (encrypted_buf (cl_secure (client_at s2 c)))
         then case n of 0 \<Rightarrow> Inl Out_Of_Fuel | Suc m \<Rightarrow> write_loop E fuel m fd c r s2
         else Inr s2))"

declare write_loop.simps [simp del]

definition write_data :: "'w env \<Rightarrow> nat \<Rightarrow> int \<Rightarrow> 'w server \<Rightarrow> fault + 'w server" where
  "write_data E fuel fd s =
     (case client_find (clients s) fd of
        None \<Rightarrow> Inr s
      | Some c \<Rightarrow> write_loop E fuel fuel fd c WRITE_OK s)"

section \<open>Buffers and loops\<close>

definition secure_ok :: "secure \<Rightarrow> bool" where
  "secure_ok sec \<longleftrightarrow> buffer_ok (2 * PACKET_MAX_SIZE) (encrypted_buf sec) \<and> b_size (encrypted_buf sec) = 0"

lemma client_ok_secure: "client_ok c \<Longrightarrow> secure_ok (cl_secure c)"
  by (simp add: client_ok_def secure_ok_def)

lemma server_ok_set_secure:
  assumes "server_ok s" "c < MAX_CLIENTS" "secure_ok sec"
  shows "server_ok (set_secure c sec w s)"
proof -
  have "client_ok (client_at s c)" by (rule server_ok_client [OF assms(1,2)])
  with assms(3) have "client_ok ((client_at s c)\<lparr>cl_secure := sec\<rparr>)"
    by (simp add: client_ok_def secure_ok_def)
  with assms(1,2) show ?thesis unfolding set_secure_def by (intro server_ok_upd) simp_all
qed

definition held :: "buffer \<Rightarrow> bytes" where
  "held b = take (unat (b_len b)) (b_data b)"

lemma shift_out_ok:
  assumes "buffer_ok n b" "k \<le> unat (b_len b)"
  shows "buffer_ok n (shift_out k b)" "b_size (shift_out k b) = b_size b" "held (shift_out k b) = drop k (held b)"
proof -
  have len: "unat (b_len b) \<le> length (b_data b)" using assms(1) by (simp add: buffer_ok_def)
  then have "length (get_bytes k (unat (b_len b) - k) (b_data b)) = unat (b_len b) - k"
    using assms(2) by (simp add: length_get_bytes)
  with assms len shift_out_len [OF assms(2)] show "buffer_ok n (shift_out k b)"
    by (auto simp: buffer_ok_def shift_out_def length_put_bytes)
  show "b_size (shift_out k b) = b_size b" by (simp add: shift_out_def)
  show "held (shift_out k b) = drop k (held b)"
    using shift_out_len [OF assms(2)] len assms(2)
    by (simp add: held_def shift_out_def put_bytes_def get_bytes_def drop_take)
qed

lemma held_empty: "buffer_ok n b \<Longrightarrow> held b = [] \<longleftrightarrow> b_len b = 0"
  by (auto simp: held_def buffer_ok_def unat_eq_zero)

text \<open>\<open>wire_form p\<close>: the bytes of a message that go through TLS, header and announced payload.\<close>

definition wire_form :: "packet \<Rightarrow> bytes" where
  "wire_form p = take (8 + unat (hdr_size p)) p"

lemma drain_bio_ok:
  "secure_ok sec \<Longrightarrow> keepsE df (\<lambda>(_, sec1, _). secure_ok sec1 \<and> ssl sec1 = ssl sec \<and> r_bio sec1 = r_bio sec \<and>
     w_bio sec1 = w_bio sec) (drain_bio E sec w)"
proof (induction E sec w rule: drain_bio.induct)
  case (1 E sec w)
  have ok: "buffer_ok 2880 (encrypted_buf sec)" using "1.prems" by (simp add: secure_ok_def)
  obtain r w1 where r: "BIO_read E (w_bio sec) 64 w = (r, w1)" by force
  show ?case
  proof (cases "\<exists>x xs. r = Inr (x # xs)")
    case False
    with r "1.prems" show ?thesis by (subst drain_bio.simps) (auto split: sum.split list.split)
  next
    case True
    then obtain x xs where x: "r = Inr (x # xs)" by blast
    show ?thesis
    proof (cases "secure_queue_write sec (x # xs)")
      case (Inl e)
      with secure_queue_write_Inl [OF ok] have "e = Assert_Failed" by blast
      with r x Inl show ?thesis by (subst drain_bio.simps) simp
    next
      case (Inr sec1)
      note q = secure_queue_write_Inr [OF Inr ok, simplified]
      then have "secure_ok sec1" using "1.prems" by (simp add: secure_ok_def)
      from "1.IH" [OF r [symmetric] x refl Inr this] q r x Inr show ?thesis by (subst drain_bio.simps) simp
    qed
  qed
qed

lemma get_bytes_add: "get_bytes off (m + n) p = get_bytes off m p @ get_bytes (off + m) n p"
  by (simp add: get_bytes_def take_add add.commute)

lemma unat_minus_of_int: "0 < n \<Longrightarrow> n \<le> int (unat v) \<Longrightarrow> unat (v - of_int n :: u64) = unat v - nat n"
proof -
  assume n: "0 < n" "n \<le> int (unat v)"
  then have le: "nat n \<le> unat v" by linarith
  then have "unat (of_nat (nat n) :: u64) = nat n"
    using unat_bounds(3) [of v] by (simp add: unat_of_nat)
  moreover have "(of_int n :: u64) = of_nat (nat n)" using n by (simp add: of_nat_nat)
  ultimately show ?thesis using le by (simp add: unat_sub_if')
qed

context streams
begin

lemma write_bytes_spec:
  "buffer_ok n b \<Longrightarrow> \<exists>r b1 w1. write_bytes E fd b w = Inr (r, b1, w1) \<and> buffer_ok n b1 \<and> b_size b1 = b_size b \<and>
     sent w1 = (sent w)(fd := sent w fd @ take (length (held b) - length (held b1)) (held b)) \<and> taken w1 = taken w \<and>
     held b1 = drop (length (held b) - length (held b1)) (held b) \<and> (r = WRITE_OK \<longleftrightarrow> b_len b1 = 0)"
proof (induction "unat (b_len b)" arbitrary: b w rule: less_induct)
  case less
  have len: "length (held b) = unat (b_len b)" "\<not> length (b_data b) < unat (b_len b)"
    using less.prems by (simp_all add: held_def buffer_ok_def)
  obtain k w1 where 1: "sys_write E fd (held b) w = (k, w1)" by force
  note s1 = sys_write_sent [OF 1] and k = sys_write_le [OF 1]
  have run: "write_bytes E fd b w = (if b_len b = 0 then Inr (WRITE_OK, b, w)
      else if k = - 1 \<and> errno_again E w1 then Inr (WRITE_BLOCK, b, w1)
      else if k > 0 then write_bytes E fd (shift_out (nat k) b) w1 else Inr (WRITE_ERROR, b, w1))"
    using 1 len k by (subst write_bytes.simps) (simp add: held_def)
  show ?case
  proof (cases "b_len b = 0 \<or> k \<le> 0")
    case True
    then show ?thesis using less.prems s1 unfolding run by auto
  next
    case False
    let ?b = "shift_out (nat k) b"
    have kn: "nat k \<le> unat (b_len b)" using k len by linarith
    note b = shift_out_ok [OF less.prems kn]
    have "0 < unat (b_len b)" using False by (simp add: unat_gt_0)
    then have "unat (b_len ?b) < unat (b_len b)" using shift_out_len [OF kn] False by simp
    from less.hyps [OF this b(1), of w1] obtain r b2 w2 where 2:
      "write_bytes E fd ?b w1 = Inr (r, b2, w2)" "buffer_ok n b2" "b_size b2 = b_size ?b"
      "sent w2 = (sent w1)(fd := sent w1 fd @ take (length (held ?b) - length (held b2)) (held ?b))" "taken w2 = taken w1"
      "held b2 = drop (length (held ?b) - length (held b2)) (held ?b)" "r = WRITE_OK \<longleftrightarrow> b_len b2 = 0" by blast
    have l: "length (held b2) \<le> length (held ?b)" "length (held ?b) = length (held b) - nat k"
      using 2(6) b(3) by (metis diff_le_self length_drop, simp)
    then have sum: "length (held b) - length (held b2) = nat k + (length (held ?b) - length (held b2))"
      using kn len by simp
    have "take (length (held b) - length (held b2)) (held b) =
        take (nat k) (held b) @ take (length (held ?b) - length (held b2)) (held ?b)"
      unfolding sum b(3) by (simp add: take_add)
    moreover have "drop (length (held b) - length (held b2)) (held b) = held b2"
      unfolding sum using 2(6) b(3) by (simp add: drop_drop add.commute)
    ultimately show ?thesis
      using 2 s1 b(2) False unfolding run by (auto simp: fun_eq_iff)
  qed
qed

lemma drain_bio_spec:
  "secure_ok sec \<Longrightarrow> case drain_bio E sec w of
      Inl e \<Rightarrow> e = Assert_Failed
    | Inr (retry, sec1, w1) \<Rightarrow> (\<exists>bs. wire w (w_bio sec) = bs @ wire w1 (w_bio sec) \<and>
        pending_out sec1 = pending_out sec @ bs) \<and> sent w1 = sent w \<and> taken w1 = taken w"
proof (induction "unat (b_bytes (encrypted_buf sec)) - unat (b_len (encrypted_buf sec))" arbitrary: sec w
    rule: less_induct)
  case less
  have ok: "buffer_ok 2880 (encrypted_buf sec)" using less.prems by (simp add: secure_ok_def)
  obtain r w1 where 1: "BIO_read E (w_bio sec) 64 w = (r, w1)" by force
  note wire = BIO_read_wire [OF 1]
  show ?case
  proof (cases "\<exists>x xs. r = Inr (x # xs)")
    case False
    with 1 wire show ?thesis by (subst drain_bio.simps) (auto split: sum.split list.split)
  next
    case True
    then obtain x xs where r: "r = Inr (x # xs)" by blast
    show ?thesis
    proof (cases "secure_queue_write sec (x # xs)")
      case (Inl e)
      with secure_queue_write_Inl [OF ok] have "e = Assert_Failed" by blast
      with 1 r Inl show ?thesis by (subst drain_bio.simps) simp
    next
      case (Inr sec1)
      note q = secure_queue_write_Inr [OF Inr ok, simplified]
      then have "secure_ok sec1" using less.prems by (simp add: secure_ok_def)
      moreover have "unat (b_bytes (encrypted_buf sec1)) - unat (b_len (encrypted_buf sec1)) <
          unat (b_bytes (encrypted_buf sec)) - unat (b_len (encrypted_buf sec))"
        using q ok by (simp add: buffer_ok_def)
      ultimately have "case drain_bio E sec1 w1 of
          Inl e \<Rightarrow> e = Assert_Failed
        | Inr (retry, sec2, w2) \<Rightarrow> (\<exists>bs. wire w1 (w_bio sec) = bs @ wire w2 (w_bio sec) \<and>
            pending_out sec2 = pending_out sec1 @ bs) \<and> sent w2 = sent w1 \<and> taken w2 = taken w1"
        using less.hyps [of sec1 w1, unfolded q(5)] by simp
      moreover have "drain_bio E sec w = drain_bio E sec1 w1"
        using 1 r Inr by (subst drain_bio.simps) simp
      ultimately show ?thesis
        using wire r q(2) by (auto split: sum.splits)
    qed
  qed
qed

end

context bounded_io
begin

text \<open>One turn of \<^verbatim>\<open>encrypt\<close>, with what a return value of \<^verbatim>\<open>SSL_write\<close> can be.\<close>

lemma encrypt_turn:
  assumes "size' \<noteq> 0" "off + unat size' \<le> length p" "SSL_write E (ssl sec) (get_bytes off (unat size') p) w = (k, w1)"
  shows "encrypt_loop E (Suc m) p off size' sec w =
    (if get_sslstate E sec k w1 = STATUS_MORE_IO then Inl Assert_Failed
     else if k \<le> 0 then Inr (False, sec, w1)
     else bindE (drain_bio E sec w1) (\<lambda>(retry, sec1, w2).
            if \<not> retry \<or> get_sslstate E sec k w1 = STATUS_FAIL then Inr (False, sec1, w2)
            else encrypt_loop E m p (off + nat k) (size' - of_int k) sec1 w2))"
    and "k \<le> int (unat size')"
proof -
  have "get_sslstate E sec k w1 = STATUS_OK \<Longrightarrow> 0 < k"
    using SSL_error_none [of "ssl sec" k w1] by (auto simp: get_sslstate_def split: ssl_error.splits)
  then show "encrypt_loop E (Suc m) p off size' sec w =
    (if get_sslstate E sec k w1 = STATUS_MORE_IO then Inl Assert_Failed
     else if k \<le> 0 then Inr (False, sec, w1)
     else bindE (drain_bio E sec w1) (\<lambda>(retry, sec1, w2).
            if \<not> retry \<or> get_sslstate E sec k w1 = STATUS_FAIL then Inr (False, sec1, w2)
            else encrypt_loop E m p (off + nat k) (size' - of_int k) sec1 w2))"
    using assms by (subst encrypt_loop.simps) (cases "get_sslstate E sec k w1"; auto)
  show "k \<le> int (unat size')" using SSL_write_le [OF assms(3)] assms(2) by (simp add: length_get_bytes)
qed

lemma encrypt_loop_ok:
  "secure_ok sec \<Longrightarrow> off + unat size' \<le> length p \<Longrightarrow>
   keepsE df (\<lambda>(_, sec1, _). secure_ok sec1) (encrypt_loop E fuel p off size' sec w)"
proof (induction fuel arbitrary: off size' sec w)
  case 0
  then show ?case by (subst encrypt_loop.simps) simp
next
  case (Suc m)
  show ?case
  proof (cases "size' = 0")
    case True
    with Suc.prems show ?thesis by (subst encrypt_loop.simps) simp
  next
    case False
    obtain k w1 where 1: "SSL_write E (ssl sec) (get_bytes off (unat size') p) w = (k, w1)" by force
    note turn = encrypt_turn [OF False Suc.prems(2) 1]
    have le: "nat k \<le> unat size'" using turn(2) by linarith
    have "keepsE df (\<lambda>(_, sec1, _). secure_ok sec1) (bindE (drain_bio E sec w1) (\<lambda>(retry, sec1, w2).
        if \<not> retry \<or> get_sslstate E sec k w1 = STATUS_FAIL then Inr (False, sec1, w2)
        else encrypt_loop E m p (off + nat k) (size' - of_int k) sec1 w2))" if "0 < k"
    proof (rule keepsE_bind [OF drain_bio_ok [OF Suc.prems(1)]], clarsimp)
      fix sec1 w2 assume "secure_ok sec1"
      then show "keepsE df (\<lambda>(_, sec1, _). secure_ok sec1)
          (encrypt_loop E m p (off + nat k) (size' - of_int k) sec1 w2)"
        using that le Suc.prems(2) by (intro Suc.IH) (simp_all add: unat_minus_of_int [OF that turn(2)])
    qed
    with Suc.prems(1) show ?thesis unfolding turn(1) by simp
  qed
qed

lemma encrypt_ok:
  assumes "secure_ok sec" "fits_packet p" "length p = PACKET_MAX_SIZE"
  shows "keepsE df (\<lambda>(_, sec1, _). secure_ok sec1) (encrypt E fuel p sec w)"
  using assms unfolding encrypt_def by (intro encrypt_loop_ok) (simp_all add: fits_packet_def unat_packet_len)

text \<open>Sending encrypted bytes.\<close>

lemma write_bytes_ok:
  "buffer_ok n b \<Longrightarrow> keepsE df (\<lambda>(r, b1, w1). buffer_ok n b1 \<and> b_size b1 = b_size b) (write_bytes E fd b w)"
proof (induction "unat (b_len b)" arbitrary: b w rule: less_induct)
  case less
  obtain k w1 where 1: "sys_write E fd (held b) w = (k, w1)" by force
  have len: "length (held b) = unat (b_len b)" "\<not> length (b_data b) < unat (b_len b)"
    using less.prems by (simp_all add: held_def buffer_ok_def)
  have run: "write_bytes E fd b w = (if b_len b = 0 then Inr (WRITE_OK, b, w)
      else if k = - 1 \<and> errno_again E w1 then Inr (WRITE_BLOCK, b, w1)
      else if k > 0 then write_bytes E fd (shift_out (nat k) b) w1 else Inr (WRITE_ERROR, b, w1))"
    using 1 len sys_write_le [OF 1] by (subst write_bytes.simps) (simp add: held_def)
  show ?case
  proof (cases "b_len b = 0 \<or> k \<le> 0")
    case True
    with less.prems show ?thesis unfolding run by auto
  next
    case False
    have kn: "nat k \<le> unat (b_len b)" using sys_write_le [OF 1] len by linarith
    have "0 < unat (b_len b)" using False by (simp add: unat_gt_0)
    then have "unat (b_len (shift_out (nat k) b)) < unat (b_len b)" using shift_out_len [OF kn] False by simp
    from less.hyps [OF this shift_out_ok(1) [OF less.prems kn], of w1] shift_out_ok(2) [OF less.prems kn] False
    show ?thesis unfolding run by (simp add: keepsE_def split: prod.splits)
  qed
qed

end

section \<open>Writing keeps the server well formed\<close>

lemma set_secure_closes:
  assumes "server_ok s" "c < MAX_CLIENTS" "secure_ok sec"
  shows "only_closes s (set_secure c sec w s)"
proof -
  have "server_ok (s\<lparr>world := w\<rparr>)" using assms(1) by simp
  then show ?thesis
    using assms server_ok_set_secure [OF assms, of w]
    by (simp add: only_closes_def set_secure_def client_upd_client)
qed

lemma dequeue_next:
  assumes "client_ok x" "\<not> queue_empty (msg_queue x)"
  shows "\<exists>k q. dequeue (msg_queue x) = (Some k, q) \<and> client_ok (x\<lparr>msg_queue := q\<rparr>) \<and>
    queue_list (msg_queue x) = slot k q # queue_list q \<and> length (slot k q) = PACKET_MAX_SIZE \<and> fits_packet (slot k q)"
proof -
  let ?q = "msg_queue x"
  have ok: "queue_ok 1440 4 ?q" and ne: "q_count ?q \<noteq> 0"
    using assms by (simp_all add: client_ok_def queue_empty_def)
  obtain k q where d: "dequeue ?q = (Some k, q)" "k = nat (q_tail ?q)" "q_slots q = q_slots ?q"
    using dequeue_some [OF ok ne] by simp
  have l: "queue_list ?q = slot k q # queue_list q" "queue_ok 1440 4 q"
    using dequeue_list [OF ok ne] dequeue_ok [OF ok] d by (simp_all add: slot_def)
  have "length (slot k q) = 1440"
    using tail_bounds [OF ok] d ok by (simp add: slot_def queue_ok_def)
  with d l assms(1) show ?thesis by (auto simp: client_ok_def)
qed

context bounded_io
begin

lemma flush_closes:
  assumes "server_ok s" "c < MAX_CLIENTS"
  shows "keepsE df (\<lambda>(_, s'). only_closes s s') (flush E fuel fd c w_state s)"
proof -
  let ?sec = "cl_secure (client_at s c)"
  have sec: "secure_ok ?sec" using server_ok_client [OF assms] by (rule client_ok_secure)
  have "keepsE df (\<lambda>(_, s'). only_closes s s') (bindE (write_bytes E (cl_fd (client_at s c)) (encrypted_buf ?sec) (world s))
      (\<lambda>(r, b, w). let s1 = set_secure c (?sec\<lparr>encrypted_buf := b\<rparr>) w s
        in if r = WRITE_ERROR then bindE (close_client E fuel fd s1) (\<lambda>s2. Inr (WRITE_ERROR, s2)) else Inr (r, s1)))"
  proof (rule keepsE_bind [OF write_bytes_ok [of 2880]])
    show "buffer_ok 2880 (encrypted_buf ?sec)" using sec by (simp add: secure_ok_def)
  next
    fix x :: "write_result \<times> buffer \<times> 'w" assume x: "case x of (r, b1, w1) \<Rightarrow> buffer_ok 2880 b1 \<and> b_size b1 = b_size (encrypted_buf ?sec)"
    obtain r b w where [simp]: "x = (r, b, w)" by (cases x)
    have "secure_ok (?sec\<lparr>encrypted_buf := b\<rparr>)" using x sec by (simp add: secure_ok_def)
    note set = set_secure_closes [OF assms this, of w]
    have close: "keepsE df (only_closes s) (close_client E fuel fd (set_secure c (?sec\<lparr>encrypted_buf := b\<rparr>) w s))"
      by (rule keepsE_mono [OF close_client_only_closes [OF only_closes_ok [OF set]]])
        (blast intro: only_closes_trans [OF set])
    show "keepsE df (\<lambda>(_, s'). only_closes s s') (case x of (r, b, w) \<Rightarrow>
        let s1 = set_secure c (?sec\<lparr>encrypted_buf := b\<rparr>) w s
        in if r = WRITE_ERROR then bindE (close_client E fuel fd s1) (\<lambda>s2. Inr (WRITE_ERROR, s2)) else Inr (r, s1))"
      using set by (auto simp: Let_def intro!: keepsE_bind [OF close])
  qed
  with assms(1) show ?thesis by (simp add: flush_def Let_def only_closes_refl)
qed

lemma encrypt_next_closes:
  assumes "server_ok s" "c < MAX_CLIENTS"
  shows "keepsE df (only_closes s) (encrypt_next E fuel fd c s)"
proof (cases "queue_empty (msg_queue (client_at s c))")
  case True
  with assms(1) show ?thesis by (simp add: encrypt_next_def only_closes_refl)
next
  case False
  obtain k q where d: "dequeue (msg_queue (client_at s c)) = (Some k, q)"
      "client_ok ((client_at s c)\<lparr>msg_queue := q\<rparr>)" "length (slot k q) = 1440" "fits_packet (slot k q)"
    using dequeue_next [OF server_ok_client [OF assms] False] by blast
  let ?s1 = "upd_client c (\<lambda>x. x\<lparr>msg_queue := q\<rparr>) s"
  have s1: "server_ok ?s1" "only_closes s ?s1"
    using assms d(2) by (simp_all add: server_ok_upd only_closes_def client_upd_client)
  have "secure_ok (cl_secure (client_at ?s1 c))" using server_ok_client [OF s1(1) assms(2)] by (rule client_ok_secure)
  from encrypt_ok [OF this d(4,3)] have "keepsE df (only_closes s)
      (bindE (encrypt E fuel (slot k q) (cl_secure (client_at ?s1 c)) (world ?s1)) (\<lambda>(ok, sec, w).
         let s2 = set_secure c sec w ?s1 in if ok then Inr s2 else close_client E fuel fd s2))"
  proof (rule keepsE_bind, clarsimp simp: Let_def)
    fix ok sec and w :: 'w assume "secure_ok sec"
    note set = only_closes_trans [OF s1(2) set_secure_closes [OF s1(1) assms(2) this, of w]]
    show "(ok \<longrightarrow> only_closes s (set_secure c sec w ?s1)) \<and>
        (\<not> ok \<longrightarrow> keepsE df (only_closes s) (close_client E fuel fd (set_secure c sec w ?s1)))"
      using set by (auto intro!: keepsE_mono [OF close_client_only_closes [OF only_closes_ok [OF set]]]
          intro: only_closes_trans [OF set])
  qed
  with d(1) False show ?thesis by (simp add: encrypt_next_def Let_def)
qed

lemma write_turn:
  assumes "server_ok s" "c < MAX_CLIENTS"
    and k: "\<And>r s2. only_closes s s2 \<Longrightarrow> keepsE df (only_closes s) (k r s2)"
  shows "keepsE df (only_closes s) (bindE (flush E fuel fd c w_state s) (\<lambda>(r, s1).
    if r = WRITE_ERROR then Inr s1 else bindE (encrypt_next E fuel fd c s1) (\<lambda>s2. k r s2)))"
proof (rule keepsE_bind [OF flush_closes [OF assms(1,2)]], clarsimp)
  fix r s1 assume 1: "only_closes s s1"
  have "keepsE df (only_closes s) (encrypt_next E fuel fd c s1)"
    by (rule keepsE_mono [OF encrypt_next_closes [OF only_closes_ok [OF 1] assms(2)]])
      (rule only_closes_trans [OF 1])
  then show "keepsE df (only_closes s) (bindE (encrypt_next E fuel fd c s1) (k r))"
    by (rule keepsE_bind) (rule k)
qed

lemma write_loop_closes:
  "server_ok s \<Longrightarrow> c < MAX_CLIENTS \<Longrightarrow> keepsE df (only_closes s) (write_loop E fuel n fd c w_state s)"
proof (induction n arbitrary: w_state s)
  case 0
  show ?case by (subst write_loop.simps, rule write_turn [OF 0]) auto
next
  case (Suc n)
  have "keepsE df (only_closes s) (write_loop E fuel n fd c r s2)" if "only_closes s s2" for r s2
    by (rule keepsE_mono [OF Suc.IH [OF only_closes_ok [OF that] Suc.prems(2)]])
      (rule only_closes_trans [OF that])
  then show ?case by (subst write_loop.simps, intro write_turn [OF Suc.prems]) simp
qed

lemma write_data_closes: "server_ok s \<Longrightarrow> keepsE df (only_closes s) (write_data E fuel fd s)"
  by (auto simp: write_data_def only_closes_refl client_find_range(1) intro!: write_loop_closes split: option.split)

end

section \<open>Messages leave in order\<close>

context streams
begin

lemma encrypt_loop_spec:
  "secure_ok sec \<Longrightarrow> off + unat size' \<le> length p \<Longrightarrow> unat size' \<le> fuel \<Longrightarrow>
   case encrypt_loop E fuel p off size' sec w of
     Inl e \<Rightarrow> e = Assert_Failed
   | Inr (ok, sec1, w1) \<Rightarrow> secure_ok sec1 \<and> ssl sec1 = ssl sec \<and>
       (\<exists>k \<le> unat size'. taken w1 = (taken w)(ssl sec := taken w (ssl sec) @ get_bytes off k p) \<and>
          (ok \<longrightarrow> k = unat size'))"
proof (induction fuel arbitrary: off size' sec w)
  case 0
  then have "size' = 0" by (simp add: unat_eq_zero)
  with 0 show ?case by (subst encrypt_loop.simps) (simp add: get_bytes_def)
next
  case (Suc m)
  show ?case
  proof (cases "size' = 0")
    case True
    with Suc.prems show ?thesis by (subst encrypt_loop.simps) (simp add: get_bytes_def)
  next
    case False
    obtain k w1 where 1: "SSL_write E (ssl sec) (get_bytes off (unat size') p) w = (k, w1)" by force
    note turn = encrypt_turn [OF False Suc.prems(2) 1]
    have le: "nat k \<le> unat size'" using turn(2) by linarith
    have t1: "taken w1 = (taken w)(ssl sec := taken w (ssl sec) @ get_bytes off (nat k) p)"
      using SSL_write_taken [OF 1] le by (simp add: get_bytes_def min_def)
    show ?thesis
    proof (cases "get_sslstate E sec k w1 = STATUS_MORE_IO \<or> k \<le> 0")
      case True
      with Suc.prems t1 show ?thesis unfolding turn(1) by (auto intro!: exI [of _ 0])
    next
      case k: False
      show ?thesis
      proof (cases "drain_bio E sec w1")
        case (Inl e)
        with drain_bio_spec [OF Suc.prems(1), of w1] k show ?thesis unfolding turn(1) by simp
      next
        case (Inr x)
        obtain retry sec1 w2 where x: "x = (retry, sec1, w2)" by (cases x)
        have d: "secure_ok sec1" "ssl sec1 = ssl sec" "taken w2 = taken w1"
          using keepsE_D [OF drain_bio_ok [OF Suc.prems(1)] Inr] drain_bio_spec [OF Suc.prems(1), of w1] Inr x
          by auto
        let ?size = "size' - of_int k"
        have u: "unat ?size = unat size' - nat k" "0 < nat k"
          using unat_minus_of_int [OF _ turn(2)] k by auto
        have "off + nat k + unat ?size \<le> length p" "unat ?size \<le> m" using u le Suc.prems by auto
        note IH = Suc.IH [OF d(1) this, of w2]
        let ?rec = "encrypt_loop E m p (off + nat k) ?size sec1 w2"
        have run: "encrypt_loop E (Suc m) p off size' sec w =
            (if \<not> retry \<or> get_sslstate E sec k w1 = STATUS_FAIL then Inr (False, sec1, w2) else ?rec)"
          using k Inr x unfolding turn(1) by simp
        show ?thesis
        proof (cases "\<not> retry \<or> get_sslstate E sec k w1 = STATUS_FAIL")
          case True
          with d t1 le show ?thesis unfolding run by (auto intro!: exI [of _ "nat k"])
        next
          case False
          show ?thesis
          proof (cases ?rec)
            case (Inl e)
            with IH False show ?thesis unfolding run by simp
          next
            case (Inr y)
            obtain ok sec2 w3 where y: "y = (ok, sec2, w3)" by (cases y)
            from IH Inr y obtain j where j: "secure_ok sec2" "ssl sec2 = ssl sec1" "j \<le> unat ?size"
                "taken w3 = (taken w2)(ssl sec1 := taken w2 (ssl sec1) @ get_bytes (off + nat k) j p)"
                "ok \<longrightarrow> j = unat ?size" by auto
            then have "taken w3 = (taken w)(ssl sec := taken w (ssl sec) @ get_bytes off (nat k + j) p)"
              using d t1 by (simp add: get_bytes_add)
            with False Inr y j d le u show ?thesis unfolding run by (auto intro!: exI [of _ "nat k + j"])
          qed
        qed
      qed
    qed
  qed
qed

lemma encrypt_spec:
  assumes "secure_ok sec" "fits_packet p" "length p = PACKET_MAX_SIZE" "PACKET_MAX_SIZE \<le> fuel"
  shows "case encrypt E fuel p sec w of
     Inl e \<Rightarrow> e = Assert_Failed
   | Inr (ok, sec1, w1) \<Rightarrow> secure_ok sec1 \<and> ssl sec1 = ssl sec \<and>
       (ok \<longrightarrow> taken w1 = (taken w)(ssl sec := taken w (ssl sec) @ wire_form p))"
proof -
  have n: "unat (8 + ucast (hdr_size p) :: u64) = 8 + unat (hdr_size p)" by (rule unat_packet_len)
  then have "get_bytes 0 (unat (8 + ucast (hdr_size p) :: u64)) p = wire_form p"
    by (simp add: get_bytes_def wire_form_def)
  with encrypt_loop_spec [of sec 0 "8 + ucast (hdr_size p)" p fuel w] assms n show ?thesis
    unfolding encrypt_def by (auto simp: fits_packet_def split: sum.splits)
qed

text \<open>
  \<open>forwards c fd s s'\<close>: unless the client was closed on the way, the messages gone from its queue
  are those TLS has taken, each with its header and announced payload, in their order.
\<close>

definition forwards :: "nat \<Rightarrow> int \<Rightarrow> 'w server \<Rightarrow> 'w server \<Rightarrow> bool" where
  "forwards c fd s s' \<longleftrightarrow> only_closes s s' \<and> (in_use (client_at s' c) \<longrightarrow>
     client_find (clients s') fd = client_find (clients s) fd \<and>
     ssl (cl_secure (client_at s' c)) = ssl (cl_secure (client_at s c)) \<and>
     (\<exists>ps. outbox s c = ps @ outbox s' c \<and> taken (world s') = (taken (world s))
        (ssl (cl_secure (client_at s c)) := taken (world s) (ssl (cl_secure (client_at s c))) @ concat (map wire_form ps))))"

lemma forwards_refl: "server_ok s \<Longrightarrow> forwards c fd s s"
  by (simp add: forwards_def only_closes_refl)

lemma forwards_trans:
  assumes "forwards c fd s s1" "forwards c fd s1 s2" "c < MAX_CLIENTS"
  shows "forwards c fd s s2"
proof -
  have cl: "only_closes s s2" using assms only_closes_trans unfolding forwards_def by blast
  have "in_use (client_at s1 c)" if "in_use (client_at s2 c)"
    using assms(2,3) that by (simp add: forwards_def only_closes_def)
  with assms(1,2) cl show ?thesis
    unfolding forwards_def
    by (auto simp: fun_eq_iff)
qed

lemma forwards_closed: "only_closes s s' \<Longrightarrow> \<not> in_use (client_at s' c) \<Longrightarrow> forwards c fd s s'"
  by (simp add: forwards_def)

lemma find_upd_client:
  assumes "server_ok s" "c < MAX_CLIENTS" "\<And>x. cl_state (f x) = cl_state x \<and> cl_fd (f x) = cl_fd x"
  shows "client_find (clients (upd_client c f s)) fd = client_find (clients s) fd"
proof -
  have "cl_state (client_at (upd_client c f s) i) = cl_state (client_at s i) \<and>
      cl_fd (client_at (upd_client c f s) i) = cl_fd (client_at s i)" for i
    using assms by (simp add: client_upd_client)
  then show ?thesis unfolding client_find_def client_at_def by simp
qed

lemma find_set_secure:
  "server_ok s \<Longrightarrow> c < MAX_CLIENTS \<Longrightarrow> client_find (clients (set_secure c sec w s)) fd = client_find (clients s) fd"
  unfolding set_secure_def by (subst find_upd_client) simp_all

text \<open>The first half of a turn: nothing is encrypted.\<close>

lemma flush_forwards:
  assumes "server_ok s" "c < MAX_CLIENTS" "in_use (client_at s c) \<longrightarrow> client_find (clients s) fd = Some c"
    and epoll: "\<And>ev w. fst (epoll_ctl E EPOLL_CTL_DEL fd ev w) \<noteq> - 1"
  shows "keepsE df (\<lambda>(_, s'). forwards c fd s s') (flush E fuel fd c w_state s)"
proof -
  let ?sec = "cl_secure (client_at s c)"
  have buf: "buffer_ok 2880 (encrypted_buf ?sec)" and sec: "secure_ok ?sec"
    using server_ok_client [OF assms(1,2)] by (simp_all add: client_ok_def secure_ok_def)
  from write_bytes_spec [OF buf, of "cl_fd (client_at s c)" "world s"] obtain r b w where
    wb: "write_bytes E (cl_fd (client_at s c)) (encrypted_buf ?sec) (world s) = Inr (r, b, w)" "buffer_ok 2880 b"
      "b_size b = b_size (encrypted_buf ?sec)" "taken w = taken (world s)" by blast
  have "secure_ok (?sec\<lparr>encrypted_buf := b\<rparr>)" using sec wb by (simp add: secure_ok_def)
  note set = set_secure_closes [OF assms(1,2) this, of w]
  let ?s = "set_secure c (?sec\<lparr>encrypted_buf := b\<rparr>) w s"
  have cl: "client_at ?s c = (client_at s c)\<lparr>cl_secure := ?sec\<lparr>encrypted_buf := b\<rparr>\<rparr>" "world ?s = w"
    using assms(1,2) by (simp_all add: set_secure_def client_upd_client)
  have fw: "forwards c fd s ?s"
    using set cl wb(4) find_set_secure [OF assms(1,2)] by (simp add: forwards_def outbox_def)
  have "keepsE df (forwards c fd s) (close_client E fuel fd ?s)"
  proof (cases "in_use (client_at s c)")
    case False
    then have "forwards c fd s s'" if "only_closes ?s s'" for s'
      using only_closes_trans [OF set that] assms(2) by (auto simp: forwards_def only_closes_def)
    then show ?thesis by (rule keepsE_mono [OF close_client_only_closes [OF only_closes_ok [OF set]]])
  next
    case True
    then have "client_find (clients ?s) fd = Some c" using assms(3) find_set_secure [OF assms(1,2)] by simp
    from close_client_closes [OF only_closes_ok [OF set] this epoll] show ?thesis
      by (rule keepsE_mono) (blast intro: forwards_closed only_closes_trans [OF set])
  qed
  then show ?thesis
    using wb(1) fw forwards_refl [OF assms(1)]
    by (auto simp: flush_def Let_def intro!: keepsE_bind [where P = "forwards c fd s"])
qed

text \<open>The second half: at most one message is encrypted.\<close>

lemma encrypt_next_forwards:
  assumes "server_ok s" "c < MAX_CLIENTS" "in_use (client_at s c) \<longrightarrow> client_find (clients s) fd = Some c"
    and epoll: "\<And>ev w. fst (epoll_ctl E EPOLL_CTL_DEL fd ev w) \<noteq> - 1" and fuel: "PACKET_MAX_SIZE \<le> fuel"
  shows "keepsE df (forwards c fd s) (encrypt_next E fuel fd c s)"
proof (cases "queue_empty (msg_queue (client_at s c))")
  case True
  with assms(1) show ?thesis by (simp add: encrypt_next_def forwards_refl)
next
  case False
  obtain k q where d: "dequeue (msg_queue (client_at s c)) = (Some k, q)"
      "client_ok ((client_at s c)\<lparr>msg_queue := q\<rparr>)" "queue_list (msg_queue (client_at s c)) = slot k q # queue_list q"
      "length (slot k q) = 1440" "fits_packet (slot k q)"
    using dequeue_next [OF server_ok_client [OF assms(1,2)] False] by blast
  let ?s1 = "upd_client c (\<lambda>x. x\<lparr>msg_queue := q\<rparr>) s" and ?sec = "cl_secure (client_at s c)"
  have s1: "server_ok ?s1" "only_closes s ?s1" "cl_secure (client_at ?s1 c) = ?sec"
    using assms(1,2) d(2) by (simp_all add: server_ok_upd only_closes_def client_upd_client)
  have sec: "secure_ok ?sec" using server_ok_client [OF assms(1,2)] by (rule client_ok_secure)
  show ?thesis
  proof (cases "encrypt E fuel (slot k q) ?sec (world s)")
    case (Inl e)
    with encrypt_spec [OF sec d(5,4) fuel, of "world s"] d(1) False s1(3) show ?thesis
      by (simp add: encrypt_next_def Let_def)
  next
    case (Inr x)
    obtain ok sec' w where x: "x = (ok, sec', w)" by (cases x)
    from encrypt_spec [OF sec d(5,4) fuel, of "world s"] Inr x have e: "secure_ok sec'" "ssl sec' = ssl ?sec"
      "ok \<longrightarrow> taken w = (taken (world s))(ssl ?sec := taken (world s) (ssl ?sec) @ wire_form (slot k q))" by auto
    let ?s2 = "set_secure c sec' w ?s1"
    have set: "only_closes s ?s2" by (rule only_closes_trans [OF s1(2) set_secure_closes [OF s1(1) assms(2) e(1)]])
    have find: "client_find (clients ?s2) fd = client_find (clients s) fd"
      unfolding find_set_secure [OF s1(1) assms(2)] by (rule find_upd_client [OF assms(1,2)]) simp
    have cl: "client_at ?s2 c = (client_at s c)\<lparr>msg_queue := q, cl_secure := sec'\<rparr>" "world ?s2 = w"
      using s1(1) assms(1,2) by (simp_all add: set_secure_def client_upd_client)
    have run: "encrypt_next E fuel fd c s = (if ok then Inr ?s2 else close_client E fuel fd ?s2)"
      using d(1) False s1(3) Inr x by (simp add: encrypt_next_def Let_def)
    have "forwards c fd s ?s2" if ok
      using set find cl e that d(3) by (auto simp: forwards_def outbox_def intro!: exI [of _ "[slot k q]"])
    moreover have "keepsE df (forwards c fd s) (close_client E fuel fd ?s2)"
    proof (cases "in_use (client_at s c)")
      case False
      then have "forwards c fd s s'" if "only_closes ?s2 s'" for s'
        using only_closes_trans [OF set that] assms(2) by (auto simp: forwards_def only_closes_def)
      then show ?thesis by (rule keepsE_mono [OF close_client_only_closes [OF only_closes_ok [OF set]]])
    next
      case True
      then have "client_find (clients ?s2) fd = Some c" using assms(3) find by simp
      from close_client_closes [OF only_closes_ok [OF set] this epoll] show ?thesis
        by (rule keepsE_mono) (blast intro: forwards_closed only_closes_trans [OF set])
    qed
    ultimately show ?thesis unfolding run by simp
  qed
qed

lemma forwards_found:
  "forwards c fd s s' \<Longrightarrow> c < MAX_CLIENTS \<Longrightarrow> in_use (client_at s c) \<longrightarrow> client_find (clients s) fd = Some c \<Longrightarrow>
   in_use (client_at s' c) \<longrightarrow> client_find (clients s') fd = Some c"
  by (auto simp: forwards_def only_closes_def)

lemma forwards_ok: "forwards c fd s s' \<Longrightarrow> server_ok s'"
  by (simp add: forwards_def only_closes_def)

lemma write_turn_forwards:
  assumes "server_ok s" "c < MAX_CLIENTS" "in_use (client_at s c) \<longrightarrow> client_find (clients s) fd = Some c"
    and epoll: "\<And>ev w. fst (epoll_ctl E EPOLL_CTL_DEL fd ev w) \<noteq> - 1" and fuel: "PACKET_MAX_SIZE \<le> fuel"
    and k: "\<And>r s2. forwards c fd s s2 \<Longrightarrow> keepsE df (forwards c fd s) (k r s2)"
  shows "keepsE df (forwards c fd s) (bindE (flush E fuel fd c w_state s) (\<lambda>(r, s1).
    if r = WRITE_ERROR then Inr s1 else bindE (encrypt_next E fuel fd c s1) (\<lambda>s2. k r s2)))"
proof (rule keepsE_bind [OF flush_forwards [OF assms(1-3) epoll]], clarsimp)
  fix r s1 assume 1: "forwards c fd s s1"
  have "keepsE df (forwards c fd s) (encrypt_next E fuel fd c s1)"
    by (rule keepsE_mono [OF encrypt_next_forwards [OF forwards_ok [OF 1] assms(2)
            forwards_found [OF 1 assms(2,3)] epoll fuel]])
      (rule forwards_trans [OF 1 _ assms(2)])
  then show "keepsE df (forwards c fd s) (bindE (encrypt_next E fuel fd c s1) (k r))"
    by (rule keepsE_bind) (rule k)
qed

lemma write_loop_forwards:
  assumes epoll: "\<And>ev w. fst (epoll_ctl E EPOLL_CTL_DEL fd ev w) \<noteq> - 1" and fuel: "PACKET_MAX_SIZE \<le> fuel"
    and c: "c < MAX_CLIENTS"
  shows "server_ok s \<Longrightarrow> in_use (client_at s c) \<longrightarrow> client_find (clients s) fd = Some c \<Longrightarrow>
    keepsE df (forwards c fd s) (write_loop E fuel n fd c w_state s)"
proof (induction n arbitrary: w_state s)
  case 0
  show ?case by (subst write_loop.simps, rule write_turn_forwards [OF 0(1) c 0(2) epoll fuel]) auto
next
  case (Suc n)
  have "keepsE df (forwards c fd s) (write_loop E fuel n fd c r s2)" if "forwards c fd s s2" for r s2
    by (rule keepsE_mono [OF Suc.IH [OF forwards_ok [OF that] forwards_found [OF that c Suc.prems(2)]]])
      (rule forwards_trans [OF that _ c])
  then show ?case by (subst write_loop.simps, intro write_turn_forwards [OF Suc.prems(1) c Suc.prems(2) epoll fuel]) simp
qed

end

section \<open>An example\<close>

text \<open>A client with one message in its queue, and a machine with an empty database.\<close>

definition with_message :: "packet \<Rightarrow> client \<Rightarrow> client" where
  "with_message p c = c\<lparr>msg_queue := (msg_queue c)\<lparr>q_slots := p # replicate 15 (replicate 1440 0),
     q_head := 1, q_tail := 0, q_count := 1\<rparr>\<rparr>"

lemma with_message_ok:
  assumes "client_ok c" "length p = PACKET_MAX_SIZE" "fits_packet p"
  shows "client_ok (with_message p c)" "queue_list (msg_queue (with_message p c)) = [p]"
proof -
  have "queue_ok 1440 4 (msg_queue c)" using assms(1) by (simp add: client_ok_def)
  then have q: "q_len (msg_queue c) = 16" "q_size (msg_queue c) = 1440" by (simp_all add: queue_ok_def)
  then show l: "queue_list (msg_queue (with_message p c)) = [p]"
    by (simp add: with_message_def queue_list_def)
  have "queue_ok 1440 4 (msg_queue (with_message p c))"
    using q assms(2) by (simp add: with_message_def queue_ok_def)
  with l assms show "client_ok (with_message p c)"
    by (simp add: client_ok_def) (simp add: with_message_def)
qed

definition example_machine :: machine where
  "example_machine = \<lparr>m_db = empty_view, m_room = 100, m_net = (\<lambda>_. []), m_sent = (\<lambda>_. []), m_wire = (\<lambda>_. []),
     m_taken = (\<lambda>_. []), m_arriving = (\<lambda>_. [])\<rparr>"

definition example_ok :: packet where
  "example_ok = PACKET_HDR P_SERVER_OK 0 zero_packet"

lemma zero_packet_fits: "length zero_packet = PACKET_MAX_SIZE" "fits_packet zero_packet"
  by (simp_all add: fits_packet_def zero_packet_def hdr_size_def get_zero)

lemma example_ok: "length example_ok = PACKET_MAX_SIZE" "hdr_size example_ok = 0" "fits_packet example_ok"
  by (simp_all add: example_ok_def fits_packet_def)

abbreviation example_writer :: "machine server" where
  "example_writer \<equiv> example_server [with_message example_ok (example_client 5 7 C_CONNECTED 0 zero_packet)] example_machine"

lemma client_set_secure:
  "server_ok s \<Longrightarrow> c < MAX_CLIENTS \<Longrightarrow> client_at (set_secure c sec w s) c = (client_at s c)\<lparr>cl_secure := sec\<rparr>"
  by (simp add: set_secure_def client_upd_client)

lemma mach_encrypt:
  assumes "length p = PACKET_MAX_SIZE" "fits_packet p" "m_wire w (w_bio sec) = []" "w_bio sec \<noteq> ssl sec + 1"
  shows "\<exists>w1. encrypt machine_env 1440 p sec w = Inr (True, sec, w1)"
proof -
  let ?n = "8 + unat (hdr_size p)"
  have n: "unat (8 + ucast (hdr_size p) :: u64) = ?n" by (rule unat_packet_len)
  then have nz: "(8 + ucast (hdr_size p) :: u64) \<noteq> 0" by (metis add_is_0 unat_eq_zero zero_neq_numeral)
  have le: "0 + unat (8 + ucast (hdr_size p) :: u64) \<le> length p" using assms n by (simp add: fits_packet_def)
  obtain k w1 where 1: "SSL_write machine_env (ssl sec) (get_bytes 0 (unat (8 + ucast (hdr_size p) :: u64)) p) w = (k, w1)"
    by force
  then have k: "k = int ?n" "m_wire w1 (w_bio sec) = []"
    using assms(3,4) le n by (auto simp: machine_env_def length_get_bytes)
  have d: "drain_bio machine_env sec w1 = Inr (True, sec, w1\<lparr>m_wire := (m_wire w1)(w_bio sec := [])\<rparr>)"
    using k(2) by (subst drain_bio.simps) (simp add: machine_env_def some_bytes_def rest_bytes_def)
  have pos: "0 < k" unfolding k(1) of_nat_0_less_iff by simp
  then have ok: "get_sslstate machine_env sec k w1 = STATUS_OK" by (simp add: get_sslstate_def machine_env_def)
  have "(8 + ucast (hdr_size p) :: u64) - of_int k = 0"
    unfolding k(1) n [symmetric] by simp
  then have "encrypt_loop machine_env (Suc 1439) p 0 (8 + ucast (hdr_size p)) sec w =
      Inr (True, sec, w1\<lparr>m_wire := (m_wire w1)(w_bio sec := [])\<rparr>)"
    unfolding mach.encrypt_turn(1) [OF nz le 1] using d ok pos by simp (subst encrypt_loop.simps, simp)
  then show ?thesis by (simp add: encrypt_def)
qed

lemma example_writer_client:
  "client_at example_writer 0 = with_message example_ok (example_client 5 7 C_CONNECTED 0 zero_packet)"
  by (simp add: example_server_client)

lemma example_writer_find: "client_find (clients example_writer) 5 = Some 0"
  by (simp add: client_find_Some table_of_def with_message_def)

lemma example_writer_ok: "server_ok example_writer" "client_ok (client_at example_writer 0)"
proof -
  let ?c = "with_message example_ok (example_client 5 7 C_CONNECTED 0 zero_packet)"
  have cok: "client_ok ?c"
    by (intro with_message_ok example_client_ok) (simp_all add: example_ok zero_packet_fits)
  then show "client_ok (client_at example_writer 0)" by (simp only: example_writer_client)
  have "in_use ?c" by (simp add: with_message_def)
  with cok show "server_ok example_writer" by (intro example_server_ok) auto
qed

lemma example_writer_run: "\<exists>s'. write_data machine_env 1440 5 example_writer = Inr s' \<and> in_use (client_at s' 0)"
proof -
  let ?c = "with_message example_ok (example_client 5 7 C_CONNECTED 0 zero_packet)"
  let ?q = "(msg_queue ?c)\<lparr>q_tail := 1, q_count := 0\<rparr>"
  note c = example_writer_client and ok = example_writer_ok(1) and cok = example_writer_ok(2) [unfolded example_writer_client]
  have find: "client_find (table_of [?c]) 5 = Some 0" using example_writer_find by simp
  have d: "dequeue (msg_queue ?c) = (Some 0, ?q)" "\<not> queue_empty (msg_queue ?c)" "slot 0 ?q = example_ok"
    by (simp_all add: dequeue_def queue_empty_def with_message_def example_client_def free_client_def slot_def)
  have sec: "cl_secure ?c = cl_secure free_client" "b_len (encrypted_buf (cl_secure free_client)) = 0"
    "ssl (cl_secure free_client) = 0" "w_bio (cl_secure free_client) = 0"
    by (simp_all add: with_message_def example_client_def free_client_def)
  obtain w1 where e: "encrypt machine_env 1440 example_ok (cl_secure free_client) example_machine =
      Inr (True, cl_secure free_client, w1)"
    using mach_encrypt [OF example_ok(1,3), of example_machine "cl_secure free_client"] sec
    by (auto simp: example_machine_def)
  let ?s1 = "upd_client 0 (\<lambda>x. x\<lparr>msg_queue := ?q\<rparr>) example_writer"
  have "client_ok (?c\<lparr>msg_queue := ?q\<rparr>)" using dequeue_next [OF cok d(2)] d(1) by auto
  then have ok1: "server_ok ?s1" using c by (intro server_ok_upd [OF ok]) simp_all
  have c1: "client_at ?s1 0 = ?c\<lparr>msg_queue := ?q\<rparr>" by (simp add: client_upd_client ok c)
  have c2: "client_at (set_secure 0 (cl_secure free_client) w1 ?s1) 0 = ?c\<lparr>msg_queue := ?q\<rparr>"
    unfolding client_set_secure [OF ok1 zero_less_numeral] c1 sec(1) [symmetric] by simp
  have "write_data machine_env 1440 5 example_writer = Inr (set_secure 0 (cl_secure free_client) w1 ?s1)"
    by (simp add: write_data_def find) (subst write_loop.simps,
      simp add: flush_def encrypt_next_def c sec d c1 e c2)
  with c2 show ?thesis by (simp add: with_message_def)
qed

section \<open>Properties\<close>

text \<open>
  C27: \<^verbatim>\<open>write_bytes\<close> always returns and loses, repeats and reorders nothing: the bytes the kernel
  has accepted on the socket, followed by those left in the buffer, are the bytes it had accepted
  before followed by those that waited. \<^verbatim>\<open>WRITE_OK\<close> is returned exactly when none is left.
\<close>

theorem write_bytes_order:
  assumes "streams E sent wire taken arriving" "buffer_ok n b"
  shows "\<exists>r b1 w1. write_bytes E fd b w = Inr (r, b1, w1) \<and> buffer_ok n b1 \<and>
    sent w1 fd @ held b1 = sent w fd @ held b \<and> (\<forall>g. g \<noteq> fd \<longrightarrow> sent w1 g = sent w g) \<and>
    (r = WRITE_OK \<longleftrightarrow> held b1 = [])"
proof -
  from streams.write_bytes_spec [OF assms, of fd w] obtain r b1 w1 where
    *: "write_bytes E fd b w = Inr (r, b1, w1)" "buffer_ok n b1"
      "sent w1 = (sent w)(fd := sent w fd @ take (length (held b) - length (held b1)) (held b))"
      "held b1 = drop (length (held b) - length (held b1)) (held b)" "r = WRITE_OK \<longleftrightarrow> b_len b1 = 0" by blast
  then have "sent w1 fd @ held b1 = sent w fd @ held b" by (metis append.assoc append_take_drop_id fun_upd_same)
  with * held_empty [OF *(2)] show ?thesis by auto
qed

theorem write_bytes_order_witness:
  "\<exists>r b1 w1. write_bytes machine_env 5 (encrypted_buf example_secure) example_machine = Inr (r, b1, w1) \<and>
     m_sent w1 5 @ held b1 = [7]"
  using write_bytes_order [OF mach.streams_axioms, of 4 "encrypted_buf example_secure" 5 example_machine]
  by (auto simp: example_secure_def buffer_ok_def held_def example_machine_def)

text \<open>
  C6: \<^verbatim>\<open>write_data\<close> sends a client's messages first in, first out: if the client is still
  connected when it returns, the messages that left its queue are the oldest ones, and the plain
  bytes TLS has taken for the client grew by exactly the header and announced payload of each,
  in order. One call has to succeed for this: \<^verbatim>\<open>EPOLL_CTL_DEL\<close> of the client's own descriptor, which
  is documented to fail only for a descriptor that is not watched. Otherwise \<^verbatim>\<open>close_client\<close> gives up,
  and the loop goes on with a client whose last message was taken from the queue but not sent.
\<close>

theorem write_data_fifo:
  assumes "streams E sent wire taken arriving" "\<forall>ev w. fst (epoll_ctl E EPOLL_CTL_DEL fd ev w) \<noteq> - 1"
    and "server_ok s" "client_find (clients s) fd = Some c" "PACKET_MAX_SIZE \<le> fuel"
    and "write_data E fuel fd s = Inr s'" "in_use (client_at s' c)" "ssl (cl_secure (client_at s c)) = h"
  shows "\<exists>ps. outbox s c = ps @ outbox s' c \<and>
    taken (world s') = (taken (world s))(h := taken (world s) h @ concat (map wire_form ps))"
proof -
  have c: "c < 32" using client_find_range(1) [OF assms(4)] .
  have "keepsE False (streams.forwards taken c fd s) (write_loop E fuel fuel fd c WRITE_OK s)"
    using assms(2,4) by (intro streams.write_loop_forwards [OF assms(1) _ assms(5) c assms(3)]) auto
  then have "streams.forwards taken c fd s s'"
    using assms(4,6) by (simp add: write_data_def keepsE_def)
  with assms(7,8) show ?thesis unfolding streams.forwards_def [OF assms(1)] by blast
qed

theorem write_data_fifo_witness:
  "\<exists>s' ps. write_data machine_env 1440 5 example_writer = Inr s' \<and> outbox example_writer 0 = ps @ outbox s' 0 \<and>
     m_taken (world s') = (\<lambda>_. [])(0 := concat (map wire_form ps))"
proof -
  obtain s' where s': "write_data machine_env 1440 5 example_writer = Inr s'" "in_use (client_at s' 0)"
    using example_writer_run by blast
  have epoll: "\<forall>ev w. fst (epoll_ctl machine_env EPOLL_CTL_DEL 5 ev w) \<noteq> - 1" by (simp add: machine_env_def)
  have h: "ssl (cl_secure (client_at example_writer 0)) = 0" "world example_writer = example_machine"
    by (simp_all add: example_server_client with_message_def example_client_def free_client_def zero_client_def)
  from write_data_fifo [OF mach.streams_axioms epoll example_writer_ok(1) example_writer_find order_refl s' h(1)] s'(1) h(2)
  show ?thesis by (auto simp: example_machine_def)
qed

text \<open>
  C26: on a well-formed server \<^verbatim>\<open>write_data\<close> never leaves the defined behaviour of C: no read
  past a message, no write past a buffer, whatever TLS and the socket answer; and the server it
  returns is well formed.
\<close>

theorem write_data_defined:
  assumes "bounded_io E" "server_ok s"
  shows "write_data E fuel fd s \<noteq> Inl Undefined \<and> keepsE True server_ok (write_data E fuel fd s)"
proof -
  have "keepsE True server_ok (write_data E fuel fd s)"
    by (rule keepsE_mono [OF bounded_io.write_data_closes [OF assms]]) (rule only_closes_ok)
  then show ?thesis by (simp add: keepsE_defined)
qed

theorem write_data_defined_witness:
  "write_data machine_env 1440 5 example_writer \<noteq> Inl Undefined"
  using write_data_defined [OF mach.bounded_io_axioms example_writer_ok(1), of 1440 5] by simp

end
