(* ===== verification/Net_Read.thy ===== *)
theory Net_Read
  imports Net_Write
begin

text \<open>
  Reading from a connection, \<^verbatim>\<open>qs_server/src/net_read.c\<close>: bytes from the socket go into TLS,
  which finishes its handshake or yields decrypted bytes; these are collected into packets,
  and each complete packet is handed to \<^verbatim>\<open>analize_packet\<close>.
\<close>

section \<open>The TLS side\<close>

definition ssl_want_more :: "'w env \<Rightarrow> nat \<Rightarrow> 'w server \<Rightarrow> fault + (secure_state \<times> 'w server)" where
  "ssl_want_more E c s =
     bindE (drain_bio E (cl_secure (client_at s c)) (world s)) (\<lambda>(retry, sec, w).
       Inr (if retry then STATUS_OK else STATUS_FAIL, set_secure c sec w s))"

definition complete_handshake :: "'w env \<Rightarrow> nat \<Rightarrow> 'w server \<Rightarrow> fault + (secure_state \<times> 'w server)" where
  "complete_handshake E c s =
     (let sec = cl_secure (client_at s c);
          (n, s1) = on_world (SSL_do_handshake E (ssl sec)) s;
          s2 = (if n = 1 then upd_client c (\<lambda>x. x\<lparr>cl_state := C_SECURE\<rparr>) s1 else s1);
          status = get_sslstate E sec n (world s2)
      in if status = STATUS_MORE_IO then ssl_want_more E c s2 else Inr (status, s2))"

section \<open>Collecting packets\<close>

text \<open>
  The third argument of \<^verbatim>\<open>SSL_read\<close>: the \<^verbatim>\<open>size_t\<close> difference, converted to \<^verbatim>\<open>int\<close>. \<open>append_read\<close>
  is the effect of a read of \<open>bs\<close> on the buffer, and of the test for a complete header.
\<close>

definition request :: "buffer \<Rightarrow> int" where
  "request b = sint (ucast ((8 + ucast (b_size b) - ucast (b_len b)) :: u64) :: u32)"

definition append_read :: "bytes \<Rightarrow> buffer \<Rightarrow> fault + buffer" where
  "append_read bs b =
     (if length (b_data b) < unat (b_len b) + length bs then Inl Undefined
      else let b1 = b\<lparr>b_data := put_bytes (unat (b_len b)) bs (b_data b),
                      b_len := b_len b + of_nat (length bs)\<rparr>
           in Inr (if b_len b1 = 8 then b1\<lparr>b_size := hdr_size (b_data b1)\<rparr> else b1))"

definition set_decrypt :: "nat \<Rightarrow> buffer \<Rightarrow> 'w server \<Rightarrow> 'w server" where
  "set_decrypt c b s = upd_client c (\<lambda>x. x\<lparr>decrypt_buf := b\<rparr>) s"

definition packet_complete_in :: "buffer \<Rightarrow> bool" where
  "packet_complete_in b \<longleftrightarrow> (ucast (b_len b) :: u64) = ucast (b_size b) + 8"

definition finish_packet :: "'w env \<Rightarrow> nat \<Rightarrow> nat \<Rightarrow> 'w server \<Rightarrow> fault + 'w server" where
  "finish_packet E fuel c s =
     (if packet_complete_in (decrypt_buf (client_at s c))
      then bindE (analize_packet E fuel c s) (\<lambda>s1.
             Inr (upd_client c (\<lambda>x. x\<lparr>decrypt_buf := (decrypt_buf x)\<lparr>b_len := 0, b_size := 0\<rparr>\<rparr>) s1))
      else Inr s)"

text \<open>The value is \<^verbatim>\<open>n\<close>, what the last \<^verbatim>\<open>SSL_read\<close> returned. How often it succeeds is up to TLS.\<close>

fun decrypt_data :: "'w env \<Rightarrow> nat \<Rightarrow> nat \<Rightarrow> nat \<Rightarrow> 'w server \<Rightarrow> fault + (int \<times> 'w server)" where
  "decrypt_data E fuel n c s =
     (let buf = decrypt_buf (client_at s c);
          (r, s1) = on_world (SSL_read E (ssl (cl_secure (client_at s c))) (request buf)) s
      in case r of
           Inr (x # xs) \<Rightarrow>
             bindE (append_read (x # xs) buf) (\<lambda>b1.
             bindE (finish_packet E fuel c (set_decrypt c b1 s1)) (\<lambda>s2.
               case n of 0 \<Rightarrow> Inl Out_Of_Fuel | Suc m \<Rightarrow> decrypt_data E fuel m c s2))
         | _ \<Rightarrow> Inr (read_rc r, s1))"

declare decrypt_data.simps [simp del]

section \<open>Feeding TLS\<close>

text \<open>
  What follows one \<^verbatim>\<open>BIO_write\<close> in \<^verbatim>\<open>decode_packet\<close>: \<open>Some b\<close> is \<^verbatim>\<open>return b;\<close>, \<open>None\<close> goes on with
  the loop.
\<close>

definition after_bio_write :: "'w env \<Rightarrow> nat \<Rightarrow> nat \<Rightarrow> 'w server \<Rightarrow> fault + (bool option \<times> 'w server)" where
  "after_bio_write E fuel c s =
     bindE (if SSL_is_init_finished E (ssl (cl_secure (client_at s c))) (world s) then Inr (None, s)
            else bindE (complete_handshake E c s) (\<lambda>(status, s1).
                   Inr (if status = STATUS_FAIL then Some False
                        else if SSL_is_init_finished E (ssl (cl_secure (client_at s1 c))) (world s1) then None
                        else Some True, s1)))
       (\<lambda>(stop, s1).
          if stop \<noteq> None then Inr (stop, s1)
          else bindE (decrypt_data E fuel fuel c s1) (\<lambda>(n, s2).
                 let status = get_sslstate E (cl_secure (client_at s2 c)) n (world s2)
                 in if status = STATUS_MORE_IO
                    then bindE (ssl_want_more E c s2) (\<lambda>(r, s3). Inr (Some (r = STATUS_OK), s3))
                    else Inr (if status = STATUS_FAIL then Some False else None, s2)))"

function decode_packet :: "'w env \<Rightarrow> nat \<Rightarrow> bytes \<Rightarrow> nat \<Rightarrow> 'w server \<Rightarrow> fault + (bool \<times> 'w server)" where
  "decode_packet E fuel bs c s =
     (if bs = [] then Inr (True, s)
      else let (n, s1) = on_world (BIO_write E (r_bio (cl_secure (client_at s c))) bs) s in
           if n \<le> 0 then Inr (False, s1)
           else if int (length bs) < n then Inl Undefined
           else case after_bio_write E fuel c s1 of
                  Inl e \<Rightarrow> Inl e
                | Inr (Some r, s2) \<Rightarrow> Inr (r, s2)
                | Inr (None, s2) \<Rightarrow> decode_packet E fuel (drop (nat n) bs) c s2)"
  by pat_completeness auto
termination
  by (relation "measure (\<lambda>(E, fuel, bs, c, s). length bs)") auto

declare decode_packet.simps [simp del]

section \<open>read\_data\<close>

text \<open>\<^verbatim>\<open>sizeof(Packet) / 4\<close> bytes are read at most; they stay in \<^verbatim>\<open>read_buf\<close>.\<close>

abbreviation READ_MAX :: nat where "READ_MAX \<equiv> 360"

definition read_data :: "'w env \<Rightarrow> nat \<Rightarrow> int \<Rightarrow> 'w server \<Rightarrow> fault + 'w server" where
  "read_data E fuel fd s =
     (case client_find (clients s) fd of
        None \<Rightarrow> Inl Assert_Failed
      | Some c \<Rightarrow>
          let (r, s1) = on_world (sys_read E (cl_fd (client_at s c)) READ_MAX) s
          in case r of
               Inr (x # xs) \<Rightarrow>
                 (if length (b_data (read_buf (client_at s1 c))) < length (x # xs) then Inl Undefined
                  else let s2 = upd_client c (\<lambda>y. y\<lparr>read_buf := (read_buf y)\<lparr>b_data :=
                                  put_bytes 0 (x # xs) (b_data (read_buf y))\<rparr>\<rparr>) s1
                       in bindE (decode_packet E fuel (x # xs) c s2) (\<lambda>(ok, s3).
                            if ok then Inr s3 else close_client E fuel (cl_fd (client_at s3 c)) s3))
             | _ \<Rightarrow> if read_rc r = - 1 then Inr s1 else close_client E fuel fd s1)"

section \<open>Reading keeps the server well formed\<close>

text \<open>\<open>serves s s'\<close>: the clients of \<open>s'\<close> are those of \<open>s\<close>, with their identity and descriptor.\<close>

definition serves :: "'w server \<Rightarrow> 'w server \<Rightarrow> bool" where
  "serves s s' \<longleftrightarrow> server_ok s' \<and> sock_fd s' = sock_fd s \<and> n_cli (clients s') = n_cli (clients s) \<and>
     (\<forall>i < MAX_CLIENTS. cl_id (client_at s' i) = cl_id (client_at s i) \<and> cl_fd (client_at s' i) = cl_fd (client_at s i) \<and>
        in_use (client_at s' i) = in_use (client_at s i))"

lemma serves_refl: "server_ok s \<Longrightarrow> serves s s"
  by (simp add: serves_def)

lemma serves_trans: "serves s s1 \<Longrightarrow> serves s1 s2 \<Longrightarrow> serves s s2"
  by (simp add: serves_def)

lemma serves_ok: "serves s s' \<Longrightarrow> server_ok s'"
  by (simp add: serves_def)

lemma serves_in_use: "serves s s' \<Longrightarrow> i < MAX_CLIENTS \<Longrightarrow> in_use (client_at s' i) = in_use (client_at s i)"
  by (simp add: serves_def)

lemma serves_world: "serves (s\<lparr>world := w\<rparr>) s' = serves s s'" "server_ok s \<Longrightarrow> serves s (s\<lparr>world := w\<rparr>)"
  by (simp_all add: serves_def)

lemma handled_serves: "handled E s s' \<Longrightarrow> serves s s'"
  by (simp add: handled_def serves_def)

lemma serves_closes: "serves s s' \<Longrightarrow> only_closes s s'"
  by (simp add: serves_def only_closes_def)

lemma serves_upd_client:
  assumes "server_ok s" "c < MAX_CLIENTS" "client_ok (f (client_at s c))"
    and "cl_id (f (client_at s c)) = cl_id (client_at s c)" "cl_fd (f (client_at s c)) = cl_fd (client_at s c)"
    and "in_use (f (client_at s c)) = in_use (client_at s c)"
  shows "serves s (upd_client c f s)"
  using assms server_ok_upd [of s c f] by (simp add: serves_def client_upd_client)

lemma set_secure_serves:
  assumes "server_ok s" "c < MAX_CLIENTS" "secure_ok sec"
  shows "serves s (set_secure c sec w s)"
  using assms server_ok_set_secure [OF assms, of w]
  by (simp add: serves_def set_secure_def client_upd_client)

lemma ssl_want_more_serves:
  assumes "server_ok s" "c < MAX_CLIENTS"
  shows "keepsE df (\<lambda>(_, s'). serves s s') (ssl_want_more E c s)"
  unfolding ssl_want_more_def
  by (rule keepsE_bind [OF drain_bio_ok [OF client_ok_secure [OF server_ok_client [OF assms]]]])
    (auto intro: set_secure_serves [OF assms])

lemma complete_handshake_serves:
  assumes "server_ok s" "c < MAX_CLIENTS" "in_use (client_at s c)"
  shows "keepsE df (\<lambda>(_, s'). serves s s') (complete_handshake E c s)"
proof -
  obtain n w where 1: "SSL_do_handshake E (ssl (cl_secure (client_at s c))) (world s) = (n, w)" by force
  let ?s = "s\<lparr>world := w\<rparr>"
  let ?s2 = "if n = 1 then upd_client c (\<lambda>x. x\<lparr>cl_state := C_SECURE\<rparr>) ?s else ?s"
  have "client_ok ((client_at ?s c)\<lparr>cl_state := C_SECURE\<rparr>)"
    using server_ok_client [OF assms(1,2)] by (simp add: client_ok_def)
  then have "serves ?s ?s2"
    using assms by (auto intro!: serves_upd_client serves_refl)
  then have s2: "serves s ?s2" by (simp only: serves_world(1))
  have "keepsE df (\<lambda>(_, s'). serves s s') (ssl_want_more E c ?s2)"
    by (rule keepsE_mono [OF ssl_want_more_serves [OF serves_ok [OF s2] assms(2)]]) (auto intro: serves_trans [OF s2])
  with s2 show ?thesis by (simp add: complete_handshake_def Let_def on_world_def 1)
qed

lemma unat_numeral_8: "unat (8 :: u32) = 8"
  by simp

text \<open>The number of bytes asked for never exceeds what the packet lacks.\<close>

lemma framed_len: "framed b \<Longrightarrow> unat (b_len b) \<le> 8 + unat (b_size b)"
  by (auto simp: framed_def split: if_splits)

lemma request_lacking:
  "framed b \<Longrightarrow> unat ((8 + ucast (b_size b) - ucast (b_len b)) :: u64) = 8 + unat (b_size b) - unat (b_len b)"
  by (rule lacking_bytes(1) [OF framed_len])

lemma request_le: "framed b \<Longrightarrow> request b \<le> int (8 + unat (b_size b) - unat (b_len b))"
  unfolding request_def by (rule lacking_bytes(2) [OF framed_len])

lemma append_read_ok:
  assumes "buffer_ok PACKET_MAX_SIZE b" "framed b" "bs \<noteq> []" "int (length bs) \<le> max 0 (request b)"
  shows "if PACKET_MAX_SIZE < unat (b_len b) + length bs then append_read bs b = Inl Undefined
    else \<exists>b1. append_read bs b = Inr b1 \<and> buffer_ok PACKET_MAX_SIZE b1 \<and> framed b1 \<and>
           held b1 = held b @ bs \<and> unat (b_len b1) = unat (b_len b) + length bs"
proof (cases "PACKET_MAX_SIZE < unat (b_len b) + length bs")
  case True
  with assms(1) show ?thesis by (simp add: append_read_def buffer_ok_def)
next
  case False
  have ok: "length (b_data b) = 1440" "unat (b_bytes b) = 1440" using assms(1) by (simp_all add: buffer_ok_def)
  have n: "unat (b_len b) + length bs \<le> 1440" "length bs \<le> 8 + unat (b_size b) - unat (b_len b)"
    using False assms(4) request_le [OF assms(2)] assms(3) by (auto simp: max_def split: if_splits)
  have len: "unat (b_len b + of_nat (length bs)) = unat (b_len b) + length bs"
    using n(1) by (simp add: unat_word_ariths unat_of_nat)
  let ?data = "put_bytes (unat (b_len b)) bs (b_data b)"
  have 8: "b_len b + of_nat (length bs) = 8 \<longleftrightarrow> unat (b_len b) + length bs = 8"
    using len by (metis unat_numeral_8 word_unat_eq_iff)
  have held: "take (unat (b_len b) + length bs) ?data = held b @ bs"
    using n(1) ok by (simp add: put_bytes_def held_def)
  have hdr: "hdr_size ?data = hdr_size (b_data b)" if "8 \<le> unat (b_len b)"
    using that n(1) ok by (simp add: hdr_size_def byte_simps)
  let ?b = "b\<lparr>b_data := ?data, b_len := b_len b + of_nat (length bs)\<rparr>"
  have run: "append_read bs b = Inr (if unat (b_len b) + length bs = 8 then ?b\<lparr>b_size := hdr_size ?data\<rparr> else ?b)"
    using ok n(1) 8 by (simp add: append_read_def Let_def)
  have "length ?data = 1440" using n(1) ok by (simp add: length_put_bytes)
  moreover have "framed (if unat (b_len b) + length bs = 8 then ?b\<lparr>b_size := hdr_size ?data\<rparr> else ?b)"
    using assms(2) hdr n(2) len assms(3) by (auto simp: framed_def split: if_splits)
  ultimately show ?thesis
    using False ok n(1) len held unfolding run by (auto simp: buffer_ok_def held_def)
qed

lemma set_decrypt_serves:
  assumes "server_ok s" "c < MAX_CLIENTS" "buffer_ok PACKET_MAX_SIZE b" "framed b"
  shows "serves s (set_decrypt c b s)" "client_at (set_decrypt c b s) c = (client_at s c)\<lparr>decrypt_buf := b\<rparr>"
proof -
  show "serves s (set_decrypt c b s)"
    unfolding set_decrypt_def using assms server_ok_client [OF assms(1,2)]
    by (intro serves_upd_client) (simp_all add: client_ok_def)
  show "client_at (set_decrypt c b s) c = (client_at s c)\<lparr>decrypt_buf := b\<rparr>"
    using assms(1,2) by (simp add: set_decrypt_def client_upd_client)
qed

text \<open>A complete packet fits into the buffer, so the handlers may rely on its announced size.\<close>

lemma complete_fits:
  assumes "server_ok s" "c < MAX_CLIENTS" "packet_complete_in (decrypt_buf (client_at s c))"
  shows "fits_packet (received s c)"
    "held (decrypt_buf (client_at s c)) = take (8 + unat (hdr_size (received s c))) (received s c)"
proof -
  let ?b = "decrypt_buf (client_at s c)"
  have b: "buffer_ok 1440 ?b" "framed ?b" using server_ok_client [OF assms(1,2)] by (simp_all add: client_ok_def)
  have "unat (b_len ?b) = 8 + unat (b_size ?b)"
    using assms(3) unat_packet_len [of "b_size ?b"] unat_bounds(2) [of "b_len ?b"]
    unfolding packet_complete_in_def
    by (metis add.commute unat_u32_64)
  with b show "fits_packet (received s c)"
    "held ?b = take (8 + unat (hdr_size (received s c))) (received s c)"
    by (auto simp: framed_def fits_packet_def received_def buffer_ok_def held_def)
qed

lemma finish_packet_serves:
  assumes "server_ok s" "c < MAX_CLIENTS" "in_use (client_at s c)"
    and log: "df \<Longrightarrow> packet_complete_in (decrypt_buf (client_at s c)) \<Longrightarrow>
      hdr_type (received s c) = P_TRANSFER_REQUEST \<Longrightarrow> debug_transfer (received s c) \<noteq> Inl Undefined"
  shows "keepsE df (serves s) (finish_packet E fuel c s)"
proof (cases "packet_complete_in (decrypt_buf (client_at s c))")
  case True
  from analize_packet_handled [OF assms(1-3) complete_fits(1) [OF assms(1,2) True] log [OF _ True]]
  have "keepsE df (serves s) (bindE (analize_packet E fuel c s) (\<lambda>s1.
      Inr (upd_client c (\<lambda>x. x\<lparr>decrypt_buf := (decrypt_buf x)\<lparr>b_len := 0, b_size := 0\<rparr>\<rparr>) s1)))"
  proof (rule keepsE_bind)
    fix s1 assume h: "handled E s s1"
    have "client_ok (client_at s1 c)" by (rule server_ok_client [OF handled_ok [OF h] assms(2)])
    then have "serves s1 (upd_client c (\<lambda>x. x\<lparr>decrypt_buf := (decrypt_buf x)\<lparr>b_len := 0, b_size := 0\<rparr>\<rparr>) s1)"
      using handled_ok [OF h] assms(2)
      by (intro serves_upd_client) (simp_all add: client_ok_def buffer_ok_def framed_def)
    then show "keepsE df (serves s)
        (Inr (upd_client c (\<lambda>x. x\<lparr>decrypt_buf := (decrypt_buf x)\<lparr>b_len := 0, b_size := 0\<rparr>\<rparr>) s1))"
      unfolding keepsE_simps by (rule serves_trans [OF handled_serves [OF h]])
  qed
  with True show ?thesis by (simp add: finish_packet_def)
next
  case False
  with assms(1) show ?thesis by (simp add: finish_packet_def serves_refl)
qed

subsection \<open>Where reading leaves the defined behaviour\<close>

text \<open>
  The calls that reading the bytes of client \<open>c\<close> is made of: bytes from the socket, bytes given to TLS,
  a step of the handshake, the answer of TLS sent back, a read of plain bytes that finds some or none,
  and the handling of a packet.
\<close>

inductive tls_step :: "'w env \<Rightarrow> nat \<Rightarrow> nat \<Rightarrow> 'w server \<Rightarrow> 'w server \<Rightarrow> bool" for E :: "'w env" and fuel c :: nat where
  t_receive: "sys_read E (cl_fd (client_at s c)) READ_MAX (world s) = (Inr bs, w) \<Longrightarrow> tls_step E fuel c s
    (upd_client c (\<lambda>y. y\<lparr>read_buf := (read_buf y)\<lparr>b_data := put_bytes 0 bs (b_data (read_buf y))\<rparr>\<rparr>) (s\<lparr>world := w\<rparr>))"
| t_feed: "BIO_write E (r_bio (cl_secure (client_at s c))) bs (world s) = (n, w) \<Longrightarrow> tls_step E fuel c s (s\<lparr>world := w\<rparr>)"
| t_handshake: "complete_handshake E c s = Inr (st, s') \<Longrightarrow> tls_step E fuel c s s'"
| t_more: "ssl_want_more E c s = Inr (st, s') \<Longrightarrow> tls_step E fuel c s s'"
| t_plain: "SSL_read E (ssl (cl_secure (client_at s c))) (request (decrypt_buf (client_at s c))) (world s) = (Inr bs, w) \<Longrightarrow>
    bs \<noteq> [] \<Longrightarrow> append_read bs (decrypt_buf (client_at s c)) = Inr b \<Longrightarrow> tls_step E fuel c s (set_decrypt c b (s\<lparr>world := w\<rparr>))"
| t_nothing: "SSL_read E (ssl (cl_secure (client_at s c))) (request (decrypt_buf (client_at s c))) (world s) = (r, w) \<Longrightarrow>
    (\<nexists>x xs. r = Inr (x # xs)) \<Longrightarrow> tls_step E fuel c s (s\<lparr>world := w\<rparr>)"
| t_packet: "finish_packet E fuel c s = Inr s' \<Longrightarrow> tls_step E fuel c s s'"

text \<open>
  The two reads and writes outside of a buffer: TLS yields more bytes than the buffer of the packet has
  left, or the complete packet is a request for a transfer whose log line does not fit.
\<close>

definition buffer_overflows :: "'w env \<Rightarrow> nat \<Rightarrow> 'w server \<Rightarrow> bool" where
  "buffer_overflows E c s \<longleftrightarrow>
     (case SSL_read E (ssl (cl_secure (client_at s c))) (request (decrypt_buf (client_at s c))) (world s) of
        (Inr bs, w) \<Rightarrow> bs \<noteq> [] \<and> PACKET_MAX_SIZE < unat (b_len (decrypt_buf (client_at s c))) + length bs
      | _ \<Rightarrow> False)"

definition log_overflows :: "nat \<Rightarrow> 'w server \<Rightarrow> bool" where
  "log_overflows c s \<longleftrightarrow> packet_complete_in (decrypt_buf (client_at s c)) \<and>
     hdr_type (received s c) = P_TRANSFER_REQUEST \<and> debug_transfer (received s c) = Inl Undefined"

definition reads_safely :: "'w env \<Rightarrow> nat \<Rightarrow> nat \<Rightarrow> 'w server \<Rightarrow> bool" where
  "reads_safely E fuel c s \<longleftrightarrow> (\<forall>t. (tls_step E fuel c)\<^sup>*\<^sup>* s t \<longrightarrow> \<not> buffer_overflows E c t \<and> \<not> log_overflows c t)"

definition served :: "'w env \<Rightarrow> nat \<Rightarrow> nat \<Rightarrow> 'w server \<Rightarrow> 'w server \<Rightarrow> bool" where
  "served E fuel c s s' \<longleftrightarrow> serves s s' \<and> (tls_step E fuel c)\<^sup>*\<^sup>* s s'"

lemma served_serves: "served E fuel c s s' \<Longrightarrow> serves s s'"
  by (simp add: served_def)

lemma served_refl: "server_ok s \<Longrightarrow> served E fuel c s s"
  by (simp add: served_def serves_refl)

lemma served_trans: "served E fuel c s s1 \<Longrightarrow> served E fuel c s1 s2 \<Longrightarrow> served E fuel c s s2"
  by (auto simp: served_def intro: serves_trans rtranclp_trans)

lemma served_step: "serves s s' \<Longrightarrow> tls_step E fuel c s s' \<Longrightarrow> served E fuel c s s'"
  by (simp add: served_def)

lemma reads_safely_served: "reads_safely E fuel c s \<Longrightarrow> served E fuel c s s1 \<Longrightarrow> reads_safely E fuel c s1"
  by (auto simp: served_def reads_safely_def intro: rtranclp_trans)

text \<open>What the buffer lacks is at most what its header announces: only a header of more than a packet overflows it.\<close>

lemma overflow_header:
  assumes "bounded_io E" "server_ok s" "c < MAX_CLIENTS" "buffer_overflows E c s"
  shows "8 \<le> unat (b_len (decrypt_buf (client_at s c))) \<and> PACKET_MAX_SIZE < 8 + unat (b_size (decrypt_buf (client_at s c)))"
proof -
  let ?b = "decrypt_buf (client_at s c)"
  have b: "framed ?b" using server_ok_client [OF assms(2,3)] by (simp add: client_ok_def)
  obtain bs w where r: "SSL_read E (ssl (cl_secure (client_at s c))) (request ?b) (world s) = (Inr bs, w)"
    "bs \<noteq> []" "1440 < unat (b_len ?b) + length bs"
    using assms(4) by (auto simp: buffer_overflows_def split: prod.splits sum.splits)
  have "int (length bs) \<le> max 0 (request ?b)" using bounded_io.SSL_read_le [OF assms(1) r(1)] .
  then have n: "length bs \<le> 8 + unat (b_size ?b) - unat (b_len ?b)"
    using request_le [OF b] r(2) by (auto simp: max_def split: if_splits)
  then have "1440 < 8 + unat (b_size ?b)" using r(3) framed_len [OF b] by simp
  with b show ?thesis by (auto simp: framed_def split: if_splits)
qed

context bounded_io
begin

text \<open>One read of decrypted bytes: nothing to read, or the buffer \<open>b1\<close> that the bytes were added to.\<close>

lemma decrypt_turn:
  assumes "server_ok s" "c < MAX_CLIENTS"
    and r: "SSL_read E (ssl (cl_secure (client_at s c))) (request (decrypt_buf (client_at s c))) (world s) = (r, w)"
  shows "(\<nexists>x xs. r = Inr (x # xs)) \<Longrightarrow> decrypt_data E fuel n c s = Inr (read_rc r, s\<lparr>world := w\<rparr>)"
    "r = Inr (x # xs) \<Longrightarrow> PACKET_MAX_SIZE < unat (b_len (decrypt_buf (client_at s c))) + length (x # xs) \<Longrightarrow>
      decrypt_data E fuel n c s = Inl Undefined"
    "r = Inr (x # xs) \<Longrightarrow> unat (b_len (decrypt_buf (client_at s c))) + length (x # xs) \<le> PACKET_MAX_SIZE \<Longrightarrow>
      \<exists>b1. buffer_ok PACKET_MAX_SIZE b1 \<and> framed b1 \<and> held b1 = held (decrypt_buf (client_at s c)) @ x # xs \<and>
        serves s (set_decrypt c b1 (s\<lparr>world := w\<rparr>)) \<and>
        client_at (set_decrypt c b1 (s\<lparr>world := w\<rparr>)) c = (client_at s c)\<lparr>decrypt_buf := b1\<rparr> \<and>
        decrypt_data E fuel n c s = bindE (finish_packet E fuel c (set_decrypt c b1 (s\<lparr>world := w\<rparr>))) (\<lambda>s2.
          case n of 0 \<Rightarrow> Inl Out_Of_Fuel | Suc m \<Rightarrow> decrypt_data E fuel m c s2)"
proof -
  let ?b = "decrypt_buf (client_at s c)" and ?s = "s\<lparr>world := w\<rparr>"
  have b: "buffer_ok 1440 ?b" "framed ?b" using server_ok_client [OF assms(1,2)] by (simp_all add: client_ok_def)
  show "(\<nexists>x xs. r = Inr (x # xs)) \<Longrightarrow> decrypt_data E fuel n c s = Inr (read_rc r, ?s)"
    using r by (subst decrypt_data.simps) (auto simp: on_world_def split: sum.split list.split)
  assume x: "r = Inr (x # xs)"
  then have "int (length (x # xs)) \<le> max 0 (request ?b)" using SSL_read_le r by blast
  note app = append_read_ok [OF b _ this]
  have run: "decrypt_data E fuel n c s = bindE (append_read (x # xs) ?b) (\<lambda>b1.
      bindE (finish_packet E fuel c (set_decrypt c b1 ?s)) (\<lambda>s2.
        case n of 0 \<Rightarrow> Inl Out_Of_Fuel | Suc m \<Rightarrow> decrypt_data E fuel m c s2))"
    using r x by (subst decrypt_data.simps) (simp add: on_world_def)
  show "1440 < unat (b_len ?b) + length (x # xs) \<Longrightarrow> decrypt_data E fuel n c s = Inl Undefined"
    using app unfolding run by simp
  assume "unat (b_len ?b) + length (x # xs) \<le> 1440"
  with app obtain b1 where b1: "append_read (x # xs) ?b = Inr b1" "buffer_ok 1440 b1" "framed b1"
      "held b1 = held ?b @ x # xs" by auto
  have "server_ok ?s" using assms(1) by simp
  from set_decrypt_serves [OF this assms(2) b1(2,3)] b1
  show "\<exists>b1. buffer_ok 1440 b1 \<and> framed b1 \<and> held b1 = held ?b @ x # xs \<and> serves s (set_decrypt c b1 ?s) \<and>
      client_at (set_decrypt c b1 ?s) c = (client_at s c)\<lparr>decrypt_buf := b1\<rparr> \<and>
      decrypt_data E fuel n c s = bindE (finish_packet E fuel c (set_decrypt c b1 ?s)) (\<lambda>s2.
          case n of 0 \<Rightarrow> Inl Out_Of_Fuel | Suc m \<Rightarrow> decrypt_data E fuel m c s2)"
    unfolding run by (intro exI [of _ b1]) (simp add: serves_world)
qed

lemma decrypt_turn_step:
  assumes "server_ok s" "c < MAX_CLIENTS"
    and r: "SSL_read E (ssl (cl_secure (client_at s c))) (request (decrypt_buf (client_at s c))) (world s) = (Inr (x # xs), w)"
    and "unat (b_len (decrypt_buf (client_at s c))) + length (x # xs) \<le> PACKET_MAX_SIZE"
  shows "\<exists>b1. served E fuel c s (set_decrypt c b1 (s\<lparr>world := w\<rparr>)) \<and>
    decrypt_data E fuel n c s = bindE (finish_packet E fuel c (set_decrypt c b1 (s\<lparr>world := w\<rparr>))) (\<lambda>s2.
      case n of 0 \<Rightarrow> Inl Out_Of_Fuel | Suc m \<Rightarrow> decrypt_data E fuel m c s2)"
proof -
  let ?b = "decrypt_buf (client_at s c)" and ?s = "s\<lparr>world := w\<rparr>"
  have b: "buffer_ok 1440 ?b" "framed ?b" using server_ok_client [OF assms(1,2)] by (simp_all add: client_ok_def)
  have "int (length (x # xs)) \<le> max 0 (request ?b)" using SSL_read_le r by blast
  from append_read_ok [OF b _ this] assms(4) obtain b1 where
    b1: "append_read (x # xs) ?b = Inr b1" "buffer_ok 1440 b1" "framed b1" by auto
  have "server_ok ?s" using assms(1) by simp
  from set_decrypt_serves(1) [OF this assms(2) b1(2,3)] have "serves s (set_decrypt c b1 ?s)" by (simp add: serves_world)
  then have "served E fuel c s (set_decrypt c b1 ?s)" by (rule served_step) (rule t_plain [OF r _ b1(1)], simp)
  moreover have "decrypt_data E fuel n c s = bindE (finish_packet E fuel c (set_decrypt c b1 ?s)) (\<lambda>s2.
      case n of 0 \<Rightarrow> Inl Out_Of_Fuel | Suc m \<Rightarrow> decrypt_data E fuel m c s2)"
    using r b1(1) by (subst decrypt_data.simps) (simp add: on_world_def)
  ultimately show ?thesis by blast
qed

lemma decrypt_data_serves:
  "server_ok s \<Longrightarrow> c < MAX_CLIENTS \<Longrightarrow> in_use (client_at s c) \<Longrightarrow> (df \<Longrightarrow> reads_safely E fuel c s) \<Longrightarrow>
   keepsE df (\<lambda>(_, s'). served E fuel c s s') (decrypt_data E fuel n c s)"
proof (induction n arbitrary: s rule: less_induct)
  case (less n)
  obtain r w where r: "SSL_read E (ssl (cl_secure (client_at s c))) (request (decrypt_buf (client_at s c))) (world s) = (r, w)"
    by force
  note turn = decrypt_turn [OF less.prems(1,2) r]
  consider "\<nexists>x xs. r = Inr (x # xs)"
    | x xs where "r = Inr (x # xs)" "1440 < unat (b_len (decrypt_buf (client_at s c))) + length (x # xs)"
    | x xs where "r = Inr (x # xs)" "unat (b_len (decrypt_buf (client_at s c))) + length (x # xs) \<le> 1440"
    by (metis not_less)
  then show ?case
  proof cases
    case 1
    have "served E fuel c s (s\<lparr>world := w\<rparr>)"
      using less.prems(1) 1 r by (intro served_step t_nothing) (simp_all add: serves_world)
    with 1 turn(1) show ?thesis by simp
  next
    case 2
    then have "buffer_overflows E c s" using r by (simp add: buffer_overflows_def)
    then have "\<not> df" using less.prems(4) by (auto simp: reads_safely_def)
    with 2 turn(2) show ?thesis by simp
  next
    case (3 x xs)
    from decrypt_turn_step [OF less.prems(1,2) r [unfolded 3(1)] 3(2)] obtain b1 where
      b1: "served E fuel c s (set_decrypt c b1 (s\<lparr>world := w\<rparr>))"
        "decrypt_data E fuel n c s = bindE (finish_packet E fuel c (set_decrypt c b1 (s\<lparr>world := w\<rparr>))) (\<lambda>s2.
          case n of 0 \<Rightarrow> Inl Out_Of_Fuel | Suc m \<Rightarrow> decrypt_data E fuel m c s2)" by blast
    let ?s1 = "set_decrypt c b1 (s\<lparr>world := w\<rparr>)"
    note v1 = served_serves [OF b1(1)]
    have use1: "in_use (client_at ?s1 c)" using serves_in_use [OF v1 less.prems(2)] less.prems(3) by simp
    have "df \<Longrightarrow> \<not> log_overflows c ?s1"
      using reads_safely_served [OF less.prems(4) b1(1)] by (auto simp: reads_safely_def)
    then have "keepsE df (serves ?s1) (finish_packet E fuel c ?s1)"
      by (intro finish_packet_serves [OF serves_ok [OF v1] less.prems(2) use1]) (auto simp: log_overflows_def)
    then have "keepsE df (served E fuel c ?s1) (finish_packet E fuel c ?s1)"
      by (auto simp: keepsE_def intro: served_step t_packet)
    then show ?thesis unfolding b1(2)
    proof (rule keepsE_bind)
      fix s2 assume "served E fuel c ?s1 s2"
      with b1(1) have s2: "served E fuel c s s2" by (rule served_trans)
      note v2 = served_serves [OF s2]
      have "keepsE df (\<lambda>(_, s'). served E fuel c s s') (decrypt_data E fuel m c s2)" if "m < n" for m
        by (rule keepsE_mono [OF less.IH [OF that serves_ok [OF v2] less.prems(2) _ reads_safely_served [OF less.prems(4) s2]]])
          (use serves_in_use [OF v2 less.prems(2)] less.prems(3) in \<open>auto intro: served_trans [OF s2]\<close>)
      then show "keepsE df (\<lambda>(_, s'). served E fuel c s s') (case n of 0 \<Rightarrow> Inl Out_Of_Fuel | Suc m \<Rightarrow> decrypt_data E fuel m c s2)"
        by (cases n) simp_all
    qed
  qed
qed

lemma tls_step_serves:
  assumes "tls_step E fuel c s s'" "server_ok s" "c < MAX_CLIENTS" "in_use (client_at s c)"
  shows "serves s s'"
  using assms(1)
proof cases
  case (t_receive bs w)
  have c: "client_ok (client_at s c)" by (rule server_ok_client [OF assms(2,3)])
  have "length bs \<le> 360" by (rule sys_read_le [OF t_receive(2)])
  then have "client_ok ((client_at s c)\<lparr>read_buf := (read_buf (client_at s c))\<lparr>b_data :=
      put_bytes 0 bs (b_data (read_buf (client_at s c)))\<rparr>\<rparr>)"
    using c by (simp add: client_ok_def buffer_ok_def length_put_bytes)
  with assms(2,3) have "serves (s\<lparr>world := w\<rparr>) s'" unfolding t_receive(1) by (intro serves_upd_client) simp_all
  then show ?thesis by (simp add: serves_world)
next
  case (t_handshake st)
  from keepsE_D [OF complete_handshake_serves [OF assms(2-4), of False] this] show ?thesis by simp
next
  case (t_more st)
  from keepsE_D [OF ssl_want_more_serves [OF assms(2,3), of False] this] show ?thesis by simp
next
  case (t_plain bs w b)
  let ?b = "decrypt_buf (client_at s c)"
  have b: "buffer_ok 1440 ?b" "framed ?b" using server_ok_client [OF assms(2,3)] by (simp_all add: client_ok_def)
  from append_read_ok [OF b t_plain(3) SSL_read_le [OF t_plain(2)]] t_plain(4) have "buffer_ok 1440 b" "framed b"
    by (auto split: if_splits)
  from set_decrypt_serves(1) [OF _ assms(3) this, of "s\<lparr>world := w\<rparr>"] assms(2) show ?thesis
    unfolding t_plain(1) by (simp add: serves_world)
next
  case t_packet
  have "keepsE False (serves s) (finish_packet E fuel c s)" by (rule finish_packet_serves [OF assms(2-4)]) simp
  from keepsE_D [OF this t_packet] show ?thesis .
qed (use assms(2) in \<open>simp_all add: serves_world\<close>)

lemma tls_steps_serves:
  "(tls_step E fuel c)\<^sup>*\<^sup>* s t \<Longrightarrow> server_ok s \<Longrightarrow> c < MAX_CLIENTS \<Longrightarrow> in_use (client_at s c) \<Longrightarrow> serves s t"
proof (induction rule: rtranclp_induct)
  case (step t u)
  then have t: "serves s t" by simp
  then have "in_use (client_at t c)" using serves_in_use step.prems by blast
  from serves_trans [OF t tls_step_serves [OF step.hyps(2) serves_ok [OF t] step.prems(2) this]] show ?case .
qed (rule serves_refl)

lemma ssl_want_more_served:
  assumes "server_ok s" "c < MAX_CLIENTS"
  shows "keepsE df (\<lambda>(_, s'). served E fuel c s s') (ssl_want_more E c s)"
  using ssl_want_more_serves [OF assms, of df E] by (auto simp: keepsE_def intro: served_step t_more)

lemma complete_handshake_served:
  assumes "server_ok s" "c < MAX_CLIENTS" "in_use (client_at s c)"
  shows "keepsE df (\<lambda>(_, s'). served E fuel c s s') (complete_handshake E c s)"
  using complete_handshake_serves [OF assms, of df E] by (auto simp: keepsE_def intro: served_step t_handshake)

lemma after_bio_write_serves:
  assumes "server_ok s" "c < MAX_CLIENTS" "in_use (client_at s c)" "df \<Longrightarrow> reads_safely E fuel c s"
  shows "keepsE df (\<lambda>(_, s'). served E fuel c s s') (after_bio_write E fuel c s)"
proof -
  have handshake: "keepsE df (\<lambda>(_, s'). served E fuel c s s')
      (if SSL_is_init_finished E (ssl (cl_secure (client_at s c))) (world s) then Inr (None, s)
       else bindE (complete_handshake E c s) (\<lambda>(status, s1).
              Inr (if status = STATUS_FAIL then Some False
                   else if SSL_is_init_finished E (ssl (cl_secure (client_at s1 c))) (world s1) then None
                   else Some True, s1)))"
    using assms(1) by (auto simp: served_refl intro!: keepsE_bind [OF complete_handshake_served [OF assms(1-3)]])
  show ?thesis
    unfolding after_bio_write_def
  proof (rule keepsE_bind [OF handshake])
    fix y :: "bool option \<times> 'w server" assume "case y of (_, s1) \<Rightarrow> served E fuel c s s1"
    then obtain stop s1 where y: "y = (stop, s1)" and 1: "served E fuel c s s1" by (cases y) auto
    then have ok: "server_ok s1" "in_use (client_at s1 c)"
      using serves_ok serves_in_use [OF served_serves [OF 1] assms(2)] served_serves [OF 1] assms(3) by auto
    have "keepsE df (\<lambda>(_, s'). served E fuel c s s') (decrypt_data E fuel fuel c s1)"
      by (rule keepsE_mono [OF decrypt_data_serves [OF ok(1) assms(2) ok(2) reads_safely_served [OF assms(4) 1]]])
        (auto intro: served_trans [OF 1])
    then have "keepsE df (\<lambda>(_, s'). served E fuel c s s') (bindE (decrypt_data E fuel fuel c s1) (\<lambda>(n, s2).
        let status = get_sslstate E (cl_secure (client_at s2 c)) n (world s2)
        in if status = STATUS_MORE_IO
           then bindE (ssl_want_more E c s2) (\<lambda>(r, s3). Inr (Some (r = STATUS_OK), s3))
           else Inr (if status = STATUS_FAIL then Some False else None, s2)))"
    proof (rule keepsE_bind)
      fix y :: "int \<times> 'w server" assume "case y of (_, s2) \<Rightarrow> served E fuel c s s2"
      then have 2: "served E fuel c s (snd y)" by (cases y) simp
      have "keepsE df (\<lambda>(_, s'). served E fuel c s s') (ssl_want_more E c (snd y))"
        by (rule keepsE_mono [OF ssl_want_more_served [OF serves_ok [OF served_serves [OF 2]] assms(2)]])
          (auto intro: served_trans [OF 2])
      then have "keepsE df (\<lambda>(_, s'). served E fuel c s s')
          (bindE (ssl_want_more E c (snd y)) (\<lambda>(r, s3). Inr (Some (r = STATUS_OK), s3)))"
        by (rule keepsE_bind) auto
      with 2 show "keepsE df (\<lambda>(_, s'). served E fuel c s s') (case y of (n, s2) \<Rightarrow>
          let status = get_sslstate E (cl_secure (client_at s2 c)) n (world s2)
          in if status = STATUS_MORE_IO
             then bindE (ssl_want_more E c s2) (\<lambda>(r, s3). Inr (Some (r = STATUS_OK), s3))
             else Inr (if status = STATUS_FAIL then Some False else None, s2))"
        by (cases y) (simp add: Let_def)
    qed
    with 1 show "keepsE df (\<lambda>(_, s'). served E fuel c s s') (case y of (stop, s1) \<Rightarrow>
        if stop \<noteq> None then Inr (stop, s1)
        else bindE (decrypt_data E fuel fuel c s1) (\<lambda>(n, s2).
          let status = get_sslstate E (cl_secure (client_at s2 c)) n (world s2)
          in if status = STATUS_MORE_IO
             then bindE (ssl_want_more E c s2) (\<lambda>(r, s3). Inr (Some (r = STATUS_OK), s3))
             else Inr (if status = STATUS_FAIL then Some False else None, s2)))"
      by (simp add: y)
  qed
qed

lemma decode_packet_serves:
  "server_ok s \<Longrightarrow> c < MAX_CLIENTS \<Longrightarrow> in_use (client_at s c) \<Longrightarrow> (df \<Longrightarrow> reads_safely E fuel c s) \<Longrightarrow>
   keepsE df (\<lambda>(_, s'). served E fuel c s s') (decode_packet E fuel bs c s)"
proof (induction "length bs" arbitrary: bs s rule: less_induct)
  case less
  show ?case
  proof (cases "bs = []")
    case True
    with less.prems(1) show ?thesis by (subst decode_packet.simps) (simp add: served_refl)
  next
    case False
    obtain n w where 1: "BIO_write E (r_bio (cl_secure (client_at s c))) bs (world s) = (n, w)" by force
    let ?s = "s\<lparr>world := w\<rparr>"
    have run: "decode_packet E fuel bs c s = (if n \<le> 0 then Inr (False, ?s)
        else case after_bio_write E fuel c ?s of
               Inl e \<Rightarrow> Inl e
             | Inr (Some r, s2) \<Rightarrow> Inr (r, s2)
             | Inr (None, s2) \<Rightarrow> decode_packet E fuel (drop (nat n) bs) c s2)"
      using False 1 BIO_write_le [OF 1] by (subst decode_packet.simps) (simp add: on_world_def)
    have s: "served E fuel c s ?s" "server_ok ?s" "in_use (client_at ?s c)"
      using less.prems served_step [OF _ t_feed [OF 1]] by (simp_all add: serves_world)
    note after = after_bio_write_serves [OF s(2) less.prems(2) s(3) reads_safely_served [OF less.prems(4) s(1)]]
    show ?thesis
    proof (cases "after_bio_write E fuel c ?s")
      case (Inl e)
      with s(1) after show ?thesis unfolding run by simp
    next
      case (Inr x)
      obtain stop s2 where x: "x = (stop, s2)" by (cases x)
      have s2: "served E fuel c s s2" using after Inr x served_trans [OF s(1)] by (auto simp: keepsE_def)
      note v2 = served_serves [OF s2]
      show ?thesis
      proof (cases "stop = None \<and> 0 < n")
        case True
        then have "length (drop (nat n) bs) < length bs" using False by simp
        from less.hyps [OF this serves_ok [OF v2] less.prems(2) _ reads_safely_served [OF less.prems(4) s2]]
          less.prems(3) serves_in_use [OF v2 less.prems(2)]
        have "keepsE df (\<lambda>(_, s'). served E fuel c s2 s') (decode_packet E fuel (drop (nat n) bs) c s2)" by simp
        then have "keepsE df (\<lambda>(_, s'). served E fuel c s s') (decode_packet E fuel (drop (nat n) bs) c s2)"
          by (rule keepsE_mono) (auto intro: served_trans [OF s2])
        with True Inr x s(1) show ?thesis unfolding run by simp
      next
        case False
        with Inr x s(1) s2 show ?thesis unfolding run by (auto split: option.splits)
      qed
    qed
  qed
qed

lemma read_data_closes:
  assumes "server_ok s" "\<And>c. df \<Longrightarrow> client_find (clients s) fd = Some c \<Longrightarrow> reads_safely E fuel c s"
  shows "keepsE df (only_closes s) (read_data E fuel fd s)"
proof (cases "client_find (clients s) fd")
  case None
  then show ?thesis by (simp add: read_data_def)
next
  case (Some c)
  then have c: "c < 32" "in_use (client_at s c)" by (simp_all add: client_find_Some client_at_def)
  obtain r w where 1: "sys_read E (cl_fd (client_at s c)) 360 (world s) = (r, w)" by force
  let ?s = "s\<lparr>world := w\<rparr>"
  have s: "server_ok ?s" "only_closes s ?s" using assms(1) by (simp_all add: only_closes_def)
  have close: "keepsE df (only_closes s) (close_client E fuel f s1)" if "only_closes s s1" for f s1
    by (rule keepsE_mono [OF close_client_only_closes [OF only_closes_ok [OF that]]]) (rule only_closes_trans [OF that])
  show ?thesis
  proof (cases "\<exists>x xs. r = Inr (x # xs)")
    case False
    with Some 1 s close show ?thesis by (auto simp: read_data_def on_world_def split: sum.split list.split)
  next
    case True
    then obtain x xs where r: "r = Inr (x # xs)" by blast
    let ?f = "\<lambda>y. y\<lparr>read_buf := (read_buf y)\<lparr>b_data := put_bytes 0 (x # xs) (b_data (read_buf y))\<rparr>\<rparr>"
    have buf: "length (b_data (read_buf (client_at s c))) = 1440"
      using server_ok_client [OF assms(1) c(1)] by (simp add: client_ok_def buffer_ok_def)
    have n: "length (x # xs) \<le> 360" using sys_read_le 1 r by blast
    have "client_ok (?f (client_at ?s c))"
      using server_ok_client [OF assms(1) c(1)] n by (simp add: client_ok_def buffer_ok_def length_put_bytes)
    then have 2: "serves ?s (upd_client c ?f ?s)"
      by (intro serves_upd_client s c) simp_all
    then have u: "in_use (client_at (upd_client c ?f ?s) c)" "only_closes s (upd_client c ?f ?s)"
      using serves_in_use [OF 2 c(1)] c(2) by (simp_all add: serves_world serves_closes)
    have "served E fuel c s (upd_client c ?f ?s)"
      by (rule served_step [OF 2 [unfolded serves_world(1)] t_receive]) (use 1 r in simp)
    then have safe: "df \<Longrightarrow> reads_safely E fuel c (upd_client c ?f ?s)"
      using assms(2) Some reads_safely_served by blast
    have go: "only_closes s s3" if "serves (upd_client c ?f ?s) s3" for s3
      by (rule only_closes_trans [OF u(2) serves_closes [OF that]])
    have "keepsE df (only_closes s) (bindE (decode_packet E fuel (x # xs) c (upd_client c ?f ?s)) (\<lambda>(ok, s3).
        if ok then Inr s3 else close_client E fuel (cl_fd (client_at s3 c)) s3))"
    proof (rule keepsE_bind [OF decode_packet_serves [OF serves_ok [OF 2] c(1) u(1) safe]])
      fix y :: "bool \<times> 'w server" assume "case y of (_, s3) \<Rightarrow> served E fuel c (upd_client c ?f ?s) s3"
      then have "only_closes s (snd y)" by (cases y) (auto intro: go served_serves)
      with close show "keepsE df (only_closes s)
          (case y of (ok, s3) \<Rightarrow> if ok then Inr s3 else close_client E fuel (cl_fd (client_at s3 c)) s3)"
        by (cases y) simp
    qed
    with Some 1 r buf n show ?thesis by (simp add: read_data_def on_world_def Let_def del: list.size)
  qed
qed

end

section \<open>Packets are the frames of the plain byte stream\<close>

text \<open>
  \<open>reading c s s1\<close>: the call has only read into the buffer of client \<open>c\<close>. \<open>dispatches\<close>: it has
  handed the frames \<open>fs\<close> to \<^verbatim>\<open>analize_packet\<close>, in this order, with only reads in between.
\<close>

definition reading :: "nat \<Rightarrow> 'w server \<Rightarrow> 'w server \<Rightarrow> bool" where
  "reading c s s1 \<longleftrightarrow> (\<exists>b w. s1 = set_decrypt c b (s\<lparr>world := w\<rparr>))"

inductive dispatches :: "'w env \<Rightarrow> nat \<Rightarrow> nat \<Rightarrow> 'w server \<Rightarrow> bytes list \<Rightarrow> 'w server \<Rightarrow> bool"
  for E :: "'w env" and fuel c :: nat where
  d_done: "reading c s s' \<Longrightarrow> dispatches E fuel c s [] s'"
| d_frame: "reading c s s1 \<Longrightarrow> packet_complete_in (decrypt_buf (client_at s1 c)) \<Longrightarrow>
    take (length f) (received s1 c) = f \<Longrightarrow> analize_packet E fuel c s1 = Inr s2 \<Longrightarrow>
    dispatches E fuel c (upd_client c (\<lambda>x. x\<lparr>decrypt_buf := (decrypt_buf x)\<lparr>b_len := 0, b_size := 0\<rparr>\<rparr>) s2) fs s' \<Longrightarrow>
    dispatches E fuel c s (f # fs) s'"

lemma set_decrypt_twice: "set_decrypt c b2 ((set_decrypt c b1 s)\<lparr>world := w\<rparr>) = set_decrypt c b2 (s\<lparr>world := w\<rparr>)"
proof (cases "c < length (c_list (clients s))")
  case True
  then show ?thesis by (simp add: set_decrypt_def upd_client_def client_at_def)
next
  case False
  then show ?thesis by (simp add: set_decrypt_def upd_client_def client_at_def list_update_beyond)
qed

lemma reading_same: "reading c s (s\<lparr>world := w\<rparr>)"
proof -
  have "set_decrypt c (decrypt_buf (client_at s c)) (s\<lparr>world := w\<rparr>) = s\<lparr>world := w\<rparr>"
    by (simp add: set_decrypt_def upd_client_def client_at_def)
  then show ?thesis unfolding reading_def by metis
qed

lemma reading_set: "reading c s (set_decrypt c b (s\<lparr>world := w\<rparr>))"
  unfolding reading_def by blast

lemma reading_trans:
  assumes "reading c s s1" "reading c s1 s2"
  shows "reading c s s2"
proof -
  from assms obtain b w b2 w2 where "s1 = set_decrypt c b (s\<lparr>world := w\<rparr>)" "s2 = set_decrypt c b2 (s1\<lparr>world := w2\<rparr>)"
    unfolding reading_def by blast
  then have "s2 = set_decrypt c b2 (s\<lparr>world := w2\<rparr>)" by (simp add: set_decrypt_twice)
  then show ?thesis unfolding reading_def by blast
qed

lemma dispatches_reading: "dispatches E fuel c s1 fs s2 \<Longrightarrow> reading c s s1 \<Longrightarrow> dispatches E fuel c s fs s2"
  by (induction rule: dispatches.cases) (auto intro: dispatches.intros reading_trans)

context streams
begin

text \<open>The plain bytes that have reached the client's session and are not yet part of a handled packet.\<close>

definition pending_in :: "nat \<Rightarrow> 'w server \<Rightarrow> bytes" where
  "pending_in c s = held (decrypt_buf (client_at s c)) @ arriving (world s) (ssl (cl_secure (client_at s c)))"

lemma decrypt_dispatches:
  "server_ok s \<Longrightarrow> c < MAX_CLIENTS \<Longrightarrow> in_use (client_at s c) \<Longrightarrow>
   \<not> packet_complete_in (decrypt_buf (client_at s c)) \<Longrightarrow> decrypt_data E fuel n c s = Inr (k, s') \<Longrightarrow>
   \<exists>fs. dispatches E fuel c s fs s' \<and> pending_in c s = concat fs @ pending_in c s' \<and> (\<forall>f \<in> set fs. is_frame f) \<and>
     \<not> packet_complete_in (decrypt_buf (client_at s' c)) \<and> serves s s' \<and>
     ssl (cl_secure (client_at s' c)) = ssl (cl_secure (client_at s c)) \<and>
     (0 < request (decrypt_buf (client_at s' c)) \<longrightarrow> arriving (world s') (ssl (cl_secure (client_at s' c))) = [])"
proof (induction n arbitrary: s rule: less_induct)
  case (less n)
  let ?h = "ssl (cl_secure (client_at s c))" and ?b = "decrypt_buf (client_at s c)"
  obtain r w where r: "SSL_read E ?h (request ?b) (world s) = (r, w)" by force
  note turn = decrypt_turn [OF less.prems(1,2) r] and arr = SSL_read_arriving [OF r]
  show ?case
  proof (cases "\<exists>x xs. r = Inr (x # xs)")
    case False
    then have "k = read_rc r" "s' = s\<lparr>world := w\<rparr>" using turn(1) less.prems(5) by auto
    moreover have "arriving w ?h = arriving (world s) ?h" using arr False by (auto split: sum.splits list.splits) (metis append_Nil list.exhaust)
    moreover have "0 < request ?b \<Longrightarrow> arriving (world s) ?h = []" using SSL_read_waits [OF r] False by blast
    moreover have "dispatches E fuel c s [] (s\<lparr>world := w\<rparr>)" by (rule d_done [OF reading_same])
    ultimately show ?thesis
      using less.prems(1,4) by (intro exI [of _ "[]"]) (auto simp: pending_in_def serves_world)
  next
    case True
    then obtain x xs where x: "r = Inr (x # xs)" by blast
    have "unat (b_len ?b) + length (x # xs) \<le> 1440" using turn(2) [OF x] less.prems(5) by (metis Inl_Inr_False not_less)
    from turn(3) [OF x this] obtain b1 where b1: "buffer_ok 1440 b1" "framed b1" "held b1 = held ?b @ x # xs"
        "serves s (set_decrypt c b1 (s\<lparr>world := w\<rparr>))"
        "client_at (set_decrypt c b1 (s\<lparr>world := w\<rparr>)) c = (client_at s c)\<lparr>decrypt_buf := b1\<rparr>"
        "decrypt_data E fuel n c s = bindE (finish_packet E fuel c (set_decrypt c b1 (s\<lparr>world := w\<rparr>))) (\<lambda>s2.
          case n of 0 \<Rightarrow> Inl Out_Of_Fuel | Suc m \<Rightarrow> decrypt_data E fuel m c s2)" by blast
    let ?s1 = "set_decrypt c b1 (s\<lparr>world := w\<rparr>)"
    have w1: "world ?s1 = w" by (simp add: set_decrypt_def)
    have pend1: "pending_in c s = pending_in c ?s1"
      using b1(3,5) arr x w1 by (simp add: pending_in_def)
    have ok1: "server_ok ?s1" "in_use (client_at ?s1 c)"
      using serves_ok [OF b1(4)] serves_in_use [OF b1(4) less.prems(2)] less.prems(3) by auto
    from less.prems(5) [unfolded b1(6)] obtain s2 m where m: "finish_packet E fuel c ?s1 = Inr s2" "n = Suc m"
        "decrypt_data E fuel m c s2 = Inr (k, s')" by (auto split: nat.splits)
    show ?thesis
    proof (cases "packet_complete_in b1")
      case False
      with m(1) b1(5) have "s2 = ?s1" by (simp add: finish_packet_def)
      with less.IH [OF _ ok1(1) less.prems(2) ok1(2), of m] m False b1(5) obtain fs where fs:
        "dispatches E fuel c ?s1 fs s'" "pending_in c ?s1 = concat fs @ pending_in c s'" "\<forall>f \<in> set fs. is_frame f"
        "\<not> packet_complete_in (decrypt_buf (client_at s' c))" "serves ?s1 s'"
        "ssl (cl_secure (client_at s' c)) = ssl (cl_secure (client_at ?s1 c))"
        "0 < request (decrypt_buf (client_at s' c)) \<longrightarrow> arriving (world s') (ssl (cl_secure (client_at s' c))) = []"
        by auto
      with dispatches_reading [OF fs(1) reading_set] pend1 serves_trans [OF b1(4)] b1(5) show ?thesis by auto
    next
      case True
      then have complete: "packet_complete_in (decrypt_buf (client_at ?s1 c))" using b1(5) by simp
      with m(1) obtain t where t: "analize_packet E fuel c ?s1 = Inr t"
          "s2 = upd_client c (\<lambda>x. x\<lparr>decrypt_buf := (decrypt_buf x)\<lparr>b_len := 0, b_size := 0\<rparr>\<rparr>) t"
        by (auto simp: finish_packet_def)
      note fit = complete_fits [OF ok1(1) less.prems(2) complete]
      have h: "handled E ?s1 t" by (rule keepsE_D [OF analize_packet_handled [OF ok1(1) less.prems(2) ok1(2) fit(1)] t(1)]) simp
      have "keepsE False (serves ?s1) (finish_packet E fuel c ?s1)"
        by (rule finish_packet_serves [OF ok1(1) less.prems(2) ok1(2)]) simp
      then have sv2: "serves ?s1 s2" using m(1) by (simp add: keepsE_def)
      have c2: "client_at s2 c = (client_at t c)\<lparr>decrypt_buf := (decrypt_buf (client_at t c))\<lparr>b_len := 0, b_size := 0\<rparr>\<rparr>"
        "world s2 = world t" using handled_ok [OF h] less.prems(2) by (simp_all add: t(2) client_upd_client)
      have sec: "cl_secure (client_at t c) = cl_secure (client_at ?s1 c)" and db: "db_steps E w (world t)"
        using h less.prems(2) w1 by (simp_all add: handled_def)
      have pend2: "pending_in c s2 = arriving (world ?s1) (ssl (cl_secure (client_at ?s1 c)))"
        using c2 sec db_steps_arriving [OF db] w1 by (simp add: pending_in_def held_def)
      have "in_use (client_at s2 c)" using serves_in_use [OF sv2 less.prems(2)] ok1(2) by simp
      moreover have "\<not> packet_complete_in (decrypt_buf (client_at s2 c))" by (simp add: c2 packet_complete_in_def)
      ultimately obtain fs where fs:
        "dispatches E fuel c s2 fs s'" "pending_in c s2 = concat fs @ pending_in c s'" "\<forall>f \<in> set fs. is_frame f"
        "\<not> packet_complete_in (decrypt_buf (client_at s' c))" "serves s2 s'"
        "ssl (cl_secure (client_at s' c)) = ssl (cl_secure (client_at s2 c))"
        "0 < request (decrypt_buf (client_at s' c)) \<longrightarrow> arriving (world s') (ssl (cl_secure (client_at s' c))) = []"
        using less.IH [OF _ serves_ok [OF sv2] less.prems(2), of m] m by auto
      have held1: "held b1 = take (frame_len (received ?s1 c)) (received ?s1 c)" "length (received ?s1 c) = 1440"
        using fit(2) b1(1,5) by (simp_all add: frame_len_def received_def buffer_ok_def)
      have f8: "8 \<le> frame_len (received ?s1 c)" "frame_len (received ?s1 c) \<le> 1440"
        using fit(1) by (simp_all add: frame_len_def fits_packet_def)
      then have "hdr_size (held b1) = hdr_size (received ?s1 c)"
        using held1 hdr_size_append [of "held b1" "drop (frame_len (received ?s1 c)) (received ?s1 c)"] by simp
      then have frame: "is_frame (held b1)" "length (held b1) = frame_len (received ?s1 c)"
        using held1 f8 by (simp_all add: is_frame_def frame_len_def)
      have "dispatches E fuel c s (held b1 # fs) s'"
        by (rule d_frame [OF reading_set complete _ t(1) fs(1) [unfolded t(2)]]) (use held1 frame in simp)
      moreover have "pending_in c s = concat (held b1 # fs) @ pending_in c s'"
        using pend1 pend2 fs(2) b1(5) by (simp add: pending_in_def)
      ultimately show ?thesis
        using fs frame serves_trans [OF b1(4) serves_trans [OF sv2 fs(5)]] c2 sec b1(5)
        by (intro exI [of _ "held b1 # fs"]) auto
    qed
  qed
qed

end

lemma incomplete_rest:
  assumes "server_ok s" "c < MAX_CLIENTS" "\<not> packet_complete_in (decrypt_buf (client_at s c))"
  defines "rest \<equiv> held (decrypt_buf (client_at s c))"
  shows "length rest < 8 \<or> length rest < frame_len rest"
proof -
  let ?b = "decrypt_buf (client_at s c)"
  have b: "buffer_ok 1440 ?b" "framed ?b" using server_ok_client [OF assms(1,2)] by (simp_all add: client_ok_def)
  have len: "length rest = unat (b_len ?b)" using b(1) by (simp add: rest_def held_def buffer_ok_def)
  show ?thesis
  proof (cases "unat (b_len ?b) < 8")
    case False
    then have "b_size ?b = hdr_size (b_data ?b)" "unat (b_len ?b) \<le> 8 + unat (b_size ?b)"
      using framed_len [OF b(2)] b(2) by (auto simp: framed_def)
    moreover have "unat (b_len ?b) \<noteq> 8 + unat (b_size ?b)"
      using assms(3) unat_packet_len [of "b_size ?b"] unfolding packet_complete_in_def
      by (metis add.commute unat_u32_64 word_unat_eq_iff)
    moreover have "hdr_size rest = hdr_size (b_data ?b)"
      using hdr_size_append [of rest "drop (unat (b_len ?b)) (b_data ?b)"] False len by (simp add: rest_def held_def)
    ultimately show ?thesis using len by (simp add: frame_len_def)
  qed (use len in simp)
qed

section \<open>Streams that cannot do harm\<close>

text \<open>
  No header announces more than a packet holds, and no request for a transfer makes the log line
  of \<^verbatim>\<open>debug_transfer\<close> overflow, whatever stale bytes follow it in the buffer.
\<close>

definition loggable :: "bytes \<Rightarrow> bool" where
  "loggable f \<longleftrightarrow> (hdr_type f = P_TRANSFER_REQUEST \<longrightarrow>
     (\<forall>p. length p = PACKET_MAX_SIZE \<and> take (length f) p = f \<longrightarrow> debug_transfer p \<noteq> Inl Undefined))"

function good_stream :: "bytes \<Rightarrow> bool" where
  "good_stream bs =
     (if length bs < 8 then True
      else if PACKET_MAX_SIZE < frame_len bs then False
      else if length bs < frame_len bs then True
      else if loggable (take (frame_len bs) bs) then good_stream (drop (frame_len bs) bs) else False)"
  by pat_completeness auto
termination
  by (relation "measure length") (auto simp: frame_len_def)

declare good_stream.simps [simp del]

lemma hdr_type_append: "8 \<le> length f \<Longrightarrow> hdr_type (f @ r) = hdr_type f"
  by (simp add: hdr_type_def get_u32_def get_bytes_def)

lemma frame_len_append: "8 \<le> length f \<Longrightarrow> frame_len (f @ r) = frame_len f"
  by (simp add: frame_len_def hdr_size_append)

lemma good_stream_frame:
  assumes "is_frame f" "good_stream (f @ bs)"
  shows "loggable f" "good_stream bs"
proof -
  have f: "8 \<le> length f" "length f = frame_len f" using assms(1) by (simp_all add: is_frame_def frame_len_def)
  then have "frame_len (f @ bs) = length f" by (simp add: frame_len_append)
  with assms(2) f show "loggable f" "good_stream bs" by (auto simp: good_stream.simps [of "f @ bs"] split: if_splits)
qed

lemma good_stream_header: "good_stream (f @ bs) \<Longrightarrow> 8 \<le> length f \<Longrightarrow> frame_len f \<le> PACKET_MAX_SIZE"
  by (auto simp: good_stream.simps [of "f @ bs"] frame_len_append split: if_splits)

text \<open>The state after one read: either the packet goes on or a frame is complete.\<close>

lemma held_header:
  assumes "buffer_ok PACKET_MAX_SIZE b" "framed b" "8 \<le> length (held b)"
  shows "frame_len (held b) = 8 + unat (b_size b)" "hdr_type (held b) = hdr_type (b_data b)"
proof -
  have len: "length (held b) = unat (b_len b)" using assms(1) by (simp add: held_def buffer_ok_def)
  then have "b_size b = hdr_size (b_data b)" using assms(2,3) by (simp add: framed_def)
  moreover have "hdr_size (held b) = hdr_size (b_data b)" "hdr_type (held b) = hdr_type (b_data b)"
    using hdr_size_append [of "held b" "drop (unat (b_len b)) (b_data b)"]
      hdr_type_append [of "held b" "drop (unat (b_len b)) (b_data b)"] assms(3) by (simp_all add: held_def)
  ultimately show "frame_len (held b) = 8 + unat (b_size b)" "hdr_type (held b) = hdr_type (b_data b)"
    by (simp_all add: frame_len_def)
qed

lemma complete_held:
  assumes "buffer_ok PACKET_MAX_SIZE b" "framed b" "packet_complete_in b"
  shows "is_frame (held b)" "8 \<le> length (held b)"
proof -
  have len: "length (held b) = unat (b_len b)" using assms(1) by (simp add: held_def buffer_ok_def)
  have "unat (b_len b) = 8 + unat (b_size b)"
    using assms(3) unat_packet_len [of "b_size b"] unfolding packet_complete_in_def by (metis add.commute unat_u32_64)
  with len held_header(1) [OF assms(1,2)] show "is_frame (held b)" "8 \<le> length (held b)" by (simp_all add: is_frame_def)
qed

context streams
begin

lemma decrypt_data_good:
  "server_ok s \<Longrightarrow> c < MAX_CLIENTS \<Longrightarrow> in_use (client_at s c) \<Longrightarrow> good_stream (pending_in c s) \<Longrightarrow>
   decrypt_data E fuel n c s \<noteq> Inl Undefined"
proof (induction n arbitrary: s rule: less_induct)
  case (less n)
  let ?h = "ssl (cl_secure (client_at s c))" and ?b = "decrypt_buf (client_at s c)"
  obtain r w where r: "SSL_read E ?h (request ?b) (world s) = (r, w)" by force
  note turn = decrypt_turn [OF less.prems(1,2) r] and arr = SSL_read_arriving [OF r]
  show ?case
  proof (cases "\<exists>x xs. r = Inr (x # xs)")
    case False
    with turn(1) show ?thesis by simp
  next
    case True
    then obtain x xs where x: "r = Inr (x # xs)" by blast
    have b: "buffer_ok 1440 ?b" "framed ?b" using server_ok_client [OF less.prems(1,2)] by (simp_all add: client_ok_def)
    have len: "length (held ?b) = unat (b_len ?b)" using b(1) by (simp add: held_def buffer_ok_def)
    have "int (length (x # xs)) \<le> max 0 (request ?b)" using SSL_read_le r x by blast
    then have n: "length (x # xs) \<le> 8 + unat (b_size ?b) - unat (b_len ?b)"
      using request_le [OF b(2)] by (auto simp: max_def split: if_splits)
    have room: "unat (b_len ?b) + length (x # xs) \<le> 1440"
    proof (cases "8 \<le> unat (b_len ?b)")
      case True
      with len have "frame_len (held ?b) \<le> 1440" "frame_len (held ?b) = 8 + unat (b_size ?b)"
        using good_stream_header [OF less.prems(4) [unfolded pending_in_def]] held_header(1) [OF b] by auto
      with n framed_len [OF b(2)] show ?thesis by simp
    next
      case False
      then have "b_size ?b = 0" using b(2) by (simp add: framed_def)
      with n False show ?thesis by simp
    qed
    from turn(3) [OF x room] obtain b1 where b1: "buffer_ok 1440 b1" "framed b1" "held b1 = held ?b @ x # xs"
        "serves s (set_decrypt c b1 (s\<lparr>world := w\<rparr>))"
        "client_at (set_decrypt c b1 (s\<lparr>world := w\<rparr>)) c = (client_at s c)\<lparr>decrypt_buf := b1\<rparr>"
        "decrypt_data E fuel n c s = bindE (finish_packet E fuel c (set_decrypt c b1 (s\<lparr>world := w\<rparr>))) (\<lambda>s2.
          case n of 0 \<Rightarrow> Inl Out_Of_Fuel | Suc m \<Rightarrow> decrypt_data E fuel m c s2)" by blast
    let ?s1 = "set_decrypt c b1 (s\<lparr>world := w\<rparr>)"
    have w1: "world ?s1 = w" by (simp add: set_decrypt_def)
    have pend: "pending_in c s = held b1 @ arriving w ?h" "pending_in c ?s1 = pending_in c s"
      using b1(3,5) arr x w1 by (simp_all add: pending_in_def)
    have ok1: "server_ok ?s1" "in_use (client_at ?s1 c)"
      using serves_ok [OF b1(4)] serves_in_use [OF b1(4) less.prems(2)] less.prems(3) by auto
    have log: "packet_complete_in (decrypt_buf (client_at ?s1 c)) \<Longrightarrow> hdr_type (received ?s1 c) = P_TRANSFER_REQUEST \<Longrightarrow>
        debug_transfer (received ?s1 c) \<noteq> Inl Undefined"
    proof -
      assume "packet_complete_in (decrypt_buf (client_at ?s1 c))" "hdr_type (received ?s1 c) = P_TRANSFER_REQUEST"
      then have "packet_complete_in b1" "hdr_type (b_data b1) = P_TRANSFER_REQUEST"
        using b1(5) by (simp_all add: received_def)
      note held = complete_held [OF b1(1,2) this(1)] held_header(2) [OF b1(1,2)] this(2)
      then have "loggable (held b1)" using good_stream_frame(1) less.prems(4) pend(1) by simp
      moreover have "take (length (held b1)) (b_data b1) = held b1" "length (b_data b1) = 1440"
        using b1(1) by (simp_all add: held_def buffer_ok_def)
      ultimately have "debug_transfer (b_data b1) \<noteq> Inl Undefined" using held by (simp add: loggable_def)
      then show "debug_transfer (received ?s1 c) \<noteq> Inl Undefined" using b1(5) by (simp add: received_def)
    qed
    note fin = finish_packet_serves [where df = True, OF ok1(1) less.prems(2) ok1(2) log]
    have "decrypt_data E fuel m c s2 \<noteq> Inl Undefined" if m: "n = Suc m" and s2: "finish_packet E fuel c ?s1 = Inr s2" for m s2
    proof (cases "packet_complete_in b1")
      case False
      with s2 b1(5) have "s2 = ?s1" by (simp add: finish_packet_def)
      with less.IH [of m ?s1] m ok1 less.prems(2,4) pend(2) show ?thesis by simp
    next
      case True
      then have complete: "packet_complete_in (decrypt_buf (client_at ?s1 c))" using b1(5) by simp
      with s2 obtain t where t: "analize_packet E fuel c ?s1 = Inr t"
          "s2 = upd_client c (\<lambda>x. x\<lparr>decrypt_buf := (decrypt_buf x)\<lparr>b_len := 0, b_size := 0\<rparr>\<rparr>) t"
        by (auto simp: finish_packet_def)
      have sv2: "serves ?s1 s2" by (rule keepsE_D [OF fin s2])
      have h: "handled E ?s1 t"
        by (rule keepsE_D [OF analize_packet_handled [OF ok1(1) less.prems(2) ok1(2)
              complete_fits(1) [OF ok1(1) less.prems(2) complete]] t(1)]) simp
      have "client_at s2 c = (client_at t c)\<lparr>decrypt_buf := (decrypt_buf (client_at t c))\<lparr>b_len := 0, b_size := 0\<rparr>\<rparr>"
        "world s2 = world t" using handled_ok [OF h] less.prems(2) by (simp_all add: t(2) client_upd_client)
      moreover have "cl_secure (client_at t c) = cl_secure (client_at s c)" "db_steps E w (world t)"
        using h less.prems(2) w1 b1(5) by (simp_all add: handled_def)
      ultimately have "pending_in c s2 = arriving w ?h"
        using db_steps_arriving by (simp add: pending_in_def held_def)
      then have "good_stream (pending_in c s2)"
        using good_stream_frame(2) complete_held(1) [OF b1(1,2) True] less.prems(4) pend(1) by simp
      with less.IH [of m s2] m serves_ok [OF sv2] serves_in_use [OF sv2 less.prems(2)] ok1(2) less.prems(2)
      show ?thesis by simp
    qed
    with keepsE_defined [OF fin] b1(6) show ?thesis
      by (cases "finish_packet E fuel c ?s1"; cases n) auto
  qed
qed

end

section \<open>Packets that announce too much\<close>

lemma small_sint_64: "unat (v :: u64) < 2 ^ 31 \<Longrightarrow> sint (ucast v :: u32) = int (unat v)"
proof -
  assume v: "unat v < 2 ^ 31"
  have u: "unat (ucast v :: u32) = unat v"
    using v by (simp add: unsigned_ucast_eq take_bit_nat_eq_self)
  then have "int (unat (ucast v :: u32)) < int (2 ^ 31)" using v by (simp only: of_nat_less_iff)
  then have "sint (ucast v :: u32) = int (unat (ucast v :: u32))"
    using unsigned_greater_eq [of "ucast v :: u32"]
    by (simp add: sint_uint signed_take_bit_int_eq_self order_trans [of _ 0])
  then show ?thesis by (simp only: u)
qed

lemma request_pos:
  assumes "framed b" "unat (b_size b) < 2 ^ 31" "8 \<le> unat (b_len b)" "unat (b_len b) < 8 + unat (b_size b)"
  shows "0 < request b"
proof -
  have v: "unat ((8 + ucast (b_size b) - ucast (b_len b)) :: u64) = 8 + unat (b_size b) - unat (b_len b)"
    by (rule request_lacking [OF assms(1)])
  then have "unat ((8 + ucast (b_size b) - ucast (b_len b)) :: u64) < 2 ^ 31" using assms(2,3) by linarith
  from small_sint_64 [OF this] have "request b = int (8 + unat (b_size b) - unat (b_len b))" unfolding request_def v .
  with assms(4) show ?thesis by (simp only: of_nat_0_less_iff zero_less_diff)
qed

context streams
begin

lemma oversized_turns:
  "server_ok s \<Longrightarrow> c < MAX_CLIENTS \<Longrightarrow> decrypt_buf (client_at s c) = b \<Longrightarrow> 8 \<le> unat (b_len b) \<Longrightarrow>
   PACKET_MAX_SIZE < 8 + unat (b_size b) \<Longrightarrow> unat (b_size b) < 2 ^ 31 \<Longrightarrow> ssl (cl_secure (client_at s c)) = h \<Longrightarrow>
   PACKET_MAX_SIZE \<le> n + unat (b_len b) \<Longrightarrow>
   (if PACKET_MAX_SIZE < unat (b_len b) + length (arriving (world s) h) then decrypt_data E fuel n c s = Inl Undefined
    else \<exists>k s'. decrypt_data E fuel n c s = Inr (k, s') \<and> reading c s s' \<and> arriving (world s') h = [] \<and>
      held (decrypt_buf (client_at s' c)) = held b @ arriving (world s) h)"
proof (induction n arbitrary: s b rule: less_induct)
  case (less n)
  obtain r w where r: "SSL_read E (ssl (cl_secure (client_at s c))) (request (decrypt_buf (client_at s c))) (world s) = (r, w)"
    by force
  note turn = decrypt_turn [OF less.prems(1,2) r] and arr = SSL_read_arriving [OF r]
  have b: "buffer_ok 1440 b" "framed b" using server_ok_client [OF less.prems(1,2)] less.prems(3) by (auto simp: client_ok_def)
  have len: "length (held b) = unat (b_len b)" "unat (b_len b) \<le> 1440" using b(1) by (simp_all add: held_def buffer_ok_def)
  have pos: "0 < request b" by (rule request_pos) (use b less.prems len in auto)
  show ?case
  proof (cases "\<exists>x xs. r = Inr (x # xs)")
    case False
    with SSL_read_waits [OF r] pos less.prems(3,7) have "arriving (world s) h = []" by auto
    moreover from this arr have "arriving w h = []" using less.prems(7) by simp
    ultimately show ?thesis
      using turn(1) False less.prems(3,7) len(2) reading_same [of c s w] by auto
  next
    case True
    then obtain x xs where x: "r = Inr (x # xs)" by blast
    then have a: "arriving (world s) h = (x # xs) @ arriving w h" using arr less.prems(7) by simp
    show ?thesis
    proof (cases "unat (b_len b) + length (x # xs) \<le> 1440")
      case False
      with turn(2) [OF x] a less.prems(3) show ?thesis by simp
    next
      case True
      from turn(3) [OF x] True less.prems(3) obtain b1 where b1: "buffer_ok 1440 b1" "framed b1" "held b1 = held b @ x # xs"
          "serves s (set_decrypt c b1 (s\<lparr>world := w\<rparr>))"
          "client_at (set_decrypt c b1 (s\<lparr>world := w\<rparr>)) c = (client_at s c)\<lparr>decrypt_buf := b1\<rparr>"
          "decrypt_data E fuel n c s = bindE (finish_packet E fuel c (set_decrypt c b1 (s\<lparr>world := w\<rparr>))) (\<lambda>s2.
            case n of 0 \<Rightarrow> Inl Out_Of_Fuel | Suc m \<Rightarrow> decrypt_data E fuel m c s2)" by auto
      let ?s1 = "set_decrypt c b1 (s\<lparr>world := w\<rparr>)"
      have len1: "unat (b_len b1) = unat (b_len b) + length (x # xs)"
      proof -
        have "length (held b1) = unat (b_len b1)" using b1(1) by (simp add: held_def buffer_ok_def)
        then show ?thesis using b1(3) len(1) by simp
      qed
      have "8 + unat (b_size b1) = frame_len (held b1)" "8 + unat (b_size b) = frame_len (held b)"
        using held_header(1) [OF b] held_header(1) [OF b1(1,2)] less.prems(4) len(1) b1(3) by auto
      then have size: "unat (b_size b1) = unat (b_size b)"
        using frame_len_append [of "held b" "x # xs"] less.prems(4) len(1) b1(3) by simp
      have lt: "unat (b_len b1) < 8 + unat (b_size b1)" using less.prems(5) size True len1 by simp
      then have "\<not> packet_complete_in b1"
        using unat_packet_len [of "b_size b1"] unfolding packet_complete_in_def by (metis add.commute nat_neq_iff unat_u32_64)
      with b1(5) have fin: "finish_packet E fuel c ?s1 = Inr ?s1" by (simp add: finish_packet_def)
      obtain m where m: "n = Suc m" using less.prems(8) True by (cases n) auto
      have w1: "world ?s1 = w" by (simp add: set_decrypt_def)
      have "if 1440 < unat (b_len b1) + length (arriving w h) then decrypt_data E fuel m c ?s1 = Inl Undefined
        else \<exists>k s'. decrypt_data E fuel m c ?s1 = Inr (k, s') \<and> reading c ?s1 s' \<and> arriving (world s') h = [] \<and>
          held (decrypt_buf (client_at s' c)) = held b1 @ arriving w h"
        using less.IH [of m ?s1 b1, unfolded w1] m serves_ok [OF b1(4)] less.prems size len1 b1(5) by simp
      then show ?thesis
        unfolding b1(6) fin using a len1 b1(3) m reading_trans [OF reading_set [of c s b1 w]]
        by (auto split: if_splits)
    qed
  qed
qed

end

section \<open>An example\<close>

text \<open>
  A connected client whose session is about to deliver the header of a packet, of a type the server
  ignores, that announces \<open>n\<close> bytes, followed by some of them.
\<close>

definition example_header :: "nat \<Rightarrow> bytes" where
  "example_header n = le_bytes 4 99 @ le_bytes 4 n"

lemma example_header:
  "length (example_header n) = 8" "n < 2 ^ 32 \<Longrightarrow> hdr_size (example_header n) = of_nat n"
  "hdr_type (example_header n @ bs) = 99"
  by (simp_all add: example_header_def hdr_size_def hdr_type_def get_u32_def get_bytes_def le_val_le_bytes
      del: le_bytes.simps)

definition example_reader :: "bytes \<Rightarrow> machine server" where
  "example_reader bs = example_server [free_client\<lparr>cl_fd := 5, cl_state := C_CONNECTED\<rparr>]
     (example_machine\<lparr>m_arriving := (\<lambda>_. [])(0 := bs)\<rparr>)"

lemma example_reader:
  "server_ok (example_reader bs)" "in_use (client_at (example_reader bs) 0)"
  "decrypt_buf (client_at (example_reader bs) 0) = decrypt_buf free_client"
  "ssl (cl_secure (client_at (example_reader bs) 0)) = 0" "m_arriving (world (example_reader bs)) 0 = bs"
proof -
  let ?c = "free_client\<lparr>cl_fd := 5, cl_state := C_CONNECTED\<rparr>"
  have "client_ok ?c" using free_client_ok(1) by (simp add: client_ok_def)
  then show "server_ok (example_reader bs)" unfolding example_reader_def by (intro example_server_ok) auto
  show "in_use (client_at (example_reader bs) 0)" "decrypt_buf (client_at (example_reader bs) 0) = decrypt_buf free_client"
    "ssl (cl_secure (client_at (example_reader bs) 0)) = 0" "m_arriving (world (example_reader bs)) 0 = bs"
    by (simp_all add: example_reader_def example_server_client free_client_def zero_client_def)
qed

lemma free_decrypt_buf: "held (decrypt_buf free_client) = []" "\<not> packet_complete_in (decrypt_buf free_client)"
  "b_len (decrypt_buf free_client) = 0" "b_size (decrypt_buf free_client) = 0" "request (decrypt_buf free_client) = 8"
  by (simp_all add: free_client_def held_def packet_complete_in_def request_def)

text \<open>An empty packet arrives: it is read, ignored, and nothing is left.\<close>

lemma example_reader_run:
  "\<exists>s' k. decrypt_data machine_env 5 5 0 (example_reader (example_header 0)) = Inr (k, s') \<and>
     decrypt_buf (client_at s' 0) = decrypt_buf (client_at s' 0)\<lparr>b_len := 0, b_size := 0\<rparr>"
proof -
  let ?s = "example_reader (example_header 0)"
  note ok = example_reader(1) [of "example_header 0"] example_reader(3-5) [of "example_header 0"]
  obtain x xs where h: "example_header 0 = x # xs" by (cases "example_header 0") (use example_header(1) [of 0] in auto)
  obtain r w where r: "SSL_read machine_env (ssl (cl_secure (client_at ?s 0))) (request (decrypt_buf (client_at ?s 0))) (world ?s) = (r, w)"
    by force
  then have rw: "r = Inr (x # xs)" "m_arriving w 0 = []"
    using ok(2-4) free_decrypt_buf h example_header(1) [of 0] by (auto simp: machine_env_def some_bytes_def rest_bytes_def)
  have len: "length (x # xs) = 8" using example_header(1) [of 0] h by simp
  with mach.decrypt_turn(3) [OF ok(1) zero_less_numeral r rw(1), of 5 5] ok(2) free_decrypt_buf obtain b1 where b1:
    "buffer_ok 1440 b1" "framed b1" "held b1 = example_header 0" "serves ?s (set_decrypt 0 b1 (?s\<lparr>world := w\<rparr>))"
    "client_at (set_decrypt 0 b1 (?s\<lparr>world := w\<rparr>)) 0 = (client_at ?s 0)\<lparr>decrypt_buf := b1\<rparr>"
    "decrypt_data machine_env 5 5 0 ?s = bindE (finish_packet machine_env 5 0 (set_decrypt 0 b1 (?s\<lparr>world := w\<rparr>)))
       (\<lambda>s2. decrypt_data machine_env 5 4 0 s2)" by (auto simp: h)
  let ?s1 = "set_decrypt 0 b1 (?s\<lparr>world := w\<rparr>)"
  have "8 \<le> length (held b1)" using b1(3) example_header(1) [of 0] by simp
  note hd = held_header [OF b1(1,2) this]
  have "length (held b1) = unat (b_len b1)" using b1(1) by (simp add: held_def buffer_ok_def)
  moreover have "unat (b_size b1) = 0" using hd(1) b1(3) example_header(2) [of 0] by (simp add: frame_len_def)
  ultimately have "b_len b1 = 8" "b_size b1 = 0"
    using b1(3) example_header(1) [of 0] by (simp add: word_unat_eq_iff, simp add: unat_eq_zero)
  then have complete: "packet_complete_in b1" by (simp add: packet_complete_in_def)
  have "hdr_type (received ?s1 0) = 99"
    using hd(2) b1(3,5) example_header(3) [of 0 "[]"] by (simp add: received_def)
  then have "analize_packet machine_env 5 0 ?s1 = Inr ?s1" by (simp add: analize_packet_def)
  with complete b1(5) have fin: "finish_packet machine_env 5 0 ?s1 =
      Inr (upd_client 0 (\<lambda>x. x\<lparr>decrypt_buf := (decrypt_buf x)\<lparr>b_len := 0, b_size := 0\<rparr>\<rparr>) ?s1)" (is "_ = Inr ?s2")
    by (simp add: finish_packet_def)
  have s2: "client_at ?s2 0 = (client_at ?s 0)\<lparr>decrypt_buf := b1\<lparr>b_len := 0, b_size := 0\<rparr>\<rparr>" "world ?s2 = w"
    using serves_ok [OF b1(4)] b1(5) by (simp_all add: client_upd_client) (simp add: set_decrypt_def)
  have "decrypt_data machine_env 5 4 0 ?s2 = Inr (- 1, ?s2\<lparr>world := w\<lparr>m_arriving := (m_arriving w)(0 := [])\<rparr>\<rparr>)"
    using s2 ok(3) rw(2) by (subst decrypt_data.simps)
      (simp add: on_world_def machine_env_def some_bytes_def rest_bytes_def request_def read_rc_def)
  with s2 fin b1(6) show ?thesis by auto
qed

section \<open>Properties\<close>

text \<open>
  C5: \<^verbatim>\<open>decrypt_data\<close> cuts the plain byte stream of a client into packets exactly as the reference
  \<open>frames\<close> does, however TLS portions the bytes: the packets it hands to \<^verbatim>\<open>analize_packet\<close>, in
  order, followed by what is left, are the stream; and when no packet announces so many bytes that
  the request overflows an \<^verbatim>\<open>int\<close>, the stream is read to its end and the packets are all of its
  complete frames.
\<close>

theorem decrypt_data_frames:
  assumes "streams E sent wire taken arriving" "server_ok s" "c < MAX_CLIENTS" "in_use (client_at s c)"
    and "\<not> packet_complete_in (decrypt_buf (client_at s c))" "ssl (cl_secure (client_at s c)) = h"
    and "decrypt_data E fuel n c s = Inr (k, s')"
  shows "\<exists>fs. dispatches E fuel c s fs s' \<and> (\<forall>f \<in> set fs. is_frame f) \<and>
    held (decrypt_buf (client_at s c)) @ arriving (world s) h =
      concat fs @ held (decrypt_buf (client_at s' c)) @ arriving (world s') h \<and>
    (0 < request (decrypt_buf (client_at s' c)) \<longrightarrow>
       frames (held (decrypt_buf (client_at s c)) @ arriving (world s) h) = (fs, held (decrypt_buf (client_at s' c))))"
proof -
  from streams.decrypt_dispatches [OF assms(1-5,7)] obtain fs where fs: "dispatches E fuel c s fs s'"
      "streams.pending_in arriving c s = concat fs @ streams.pending_in arriving c s'" "\<forall>f \<in> set fs. is_frame f"
      "\<not> packet_complete_in (decrypt_buf (client_at s' c))" "serves s s'"
      "ssl (cl_secure (client_at s' c)) = ssl (cl_secure (client_at s c))"
      "0 < request (decrypt_buf (client_at s' c)) \<longrightarrow> arriving (world s') (ssl (cl_secure (client_at s' c))) = []"
    by blast
  then have stream: "held (decrypt_buf (client_at s c)) @ arriving (world s) h =
      concat fs @ held (decrypt_buf (client_at s' c)) @ arriving (world s') h"
    using assms(6) by (simp add: streams.pending_in_def [OF assms(1)])
  have "frames (concat fs @ held (decrypt_buf (client_at s' c))) = (fs, held (decrypt_buf (client_at s' c)))"
    by (rule frames_concat [OF fs(3) incomplete_rest [OF serves_ok [OF fs(5)] assms(3) fs(4)]])
  with fs stream assms(6) show ?thesis by (intro exI [of _ fs]) auto
qed

theorem decrypt_data_frames_witness:
  "\<exists>s' k fs. decrypt_data machine_env 5 5 0 (example_reader (example_header 0)) = Inr (k, s') \<and>
     dispatches machine_env 5 0 (example_reader (example_header 0)) fs s' \<and> example_header 0 = concat fs @ m_arriving (world s') 0"
proof -
  let ?s = "example_reader (example_header 0)"
  note ok = example_reader [of "example_header 0"]
  obtain s' k where run: "decrypt_data machine_env 5 5 0 ?s = Inr (k, s')"
      "decrypt_buf (client_at s' 0) = decrypt_buf (client_at s' 0)\<lparr>b_len := 0, b_size := 0\<rparr>"
    using example_reader_run by blast
  have h: "held (decrypt_buf (client_at s' 0)) = []"
    by (subst run(2)) (simp add: held_def)
  have "\<not> packet_complete_in (decrypt_buf (client_at ?s 0))" using ok(3) free_decrypt_buf by simp
  from decrypt_data_frames [OF mach.streams_axioms ok(1) zero_less_numeral ok(2) this ok(4) run(1)]
  show ?thesis using run(1) ok(3,5) free_decrypt_buf h by auto
qed

text \<open>
  C25: reading is within the defined behaviour of C for every client whose stream of plain bytes has
  no header that announces more than \<^verbatim>\<open>PACKET_MAX_SIZE\<close> and no request for a transfer that overflows
  the log line of \<^verbatim>\<open>debug_transfer\<close>, however TLS portions the bytes.
\<close>

theorem decrypt_data_defined:
  assumes "streams E sent wire taken arriving" "server_ok s" "c < MAX_CLIENTS" "in_use (client_at s c)"
    and "good_stream (held (decrypt_buf (client_at s c)) @ arriving (world s) (ssl (cl_secure (client_at s c))))"
  shows "decrypt_data E fuel n c s \<noteq> Inl Undefined"
  using streams.decrypt_data_good [OF assms(1-4)] assms(5) by (simp add: streams.pending_in_def [OF assms(1)])

theorem decrypt_data_defined_witness:
  "decrypt_data machine_env 5 5 0 (example_reader (example_header 0)) \<noteq> Inl Undefined"
proof -
  note ok = example_reader [of "example_header 0"]
  have "loggable (example_header 0)" using example_header(3) [of 0 "[]"] by (simp add: loggable_def)
  then have "good_stream (example_header 0)"
    using example_header(1,2) [of 0] by (simp add: good_stream.simps frame_len_def)
  then show ?thesis
    using ok free_decrypt_buf by (intro decrypt_data_defined [OF mach.streams_axioms]) simp_all
qed

text \<open>
  C31: a header may announce any size, and \<^verbatim>\<open>decrypt_data\<close> does not check it. When a header that
  announces more than a packet holds (and less than \<open>2\<^sup>31\<close> bytes, so that the size fits the \<^verbatim>\<open>int\<close> that
  \<^verbatim>\<open>SSL_read\<close> is asked for) is in the buffer, \<^verbatim>\<open>decrypt_data\<close> writes past the buffer exactly when
  the session delivers more than the buffer has room for, however TLS portions the bytes; otherwise
  it keeps all of them and waits for the rest. As many reads as the buffer has bytes are enough.
\<close>

theorem oversized_packet_overflows:
  assumes "streams E sent wire taken arriving" "server_ok s" "c < MAX_CLIENTS"
    and "8 \<le> unat (b_len (decrypt_buf (client_at s c)))" "ssl (cl_secure (client_at s c)) = h"
    and "PACKET_MAX_SIZE < 8 + unat (hdr_size (received s c))" "unat (hdr_size (received s c)) < 2 ^ 31"
    and "PACKET_MAX_SIZE \<le> n"
  shows "if PACKET_MAX_SIZE < unat (b_len (decrypt_buf (client_at s c))) + length (arriving (world s) h)
    then decrypt_data E fuel n c s = Inl Undefined
    else \<exists>k s'. decrypt_data E fuel n c s = Inr (k, s') \<and> arriving (world s') h = [] \<and>
      held (decrypt_buf (client_at s' c)) = held (decrypt_buf (client_at s c)) @ arriving (world s) h"
proof -
  have "framed (decrypt_buf (client_at s c))" using server_ok_client [OF assms(2,3)] by (simp add: client_ok_def)
  with assms(4) have "b_size (decrypt_buf (client_at s c)) = hdr_size (received s c)"
    by (simp add: framed_def received_def)
  with streams.oversized_turns [OF assms(1-3) refl assms(4), of h n fuel] assms(5-8) show ?thesis
    by (auto split: if_splits)
qed

definition example_oversized :: "machine server" where
  "example_oversized = example_server [free_client\<lparr>cl_fd := 5, cl_state := C_CONNECTED,
       decrypt_buf := (decrypt_buf free_client)\<lparr>b_data := put_bytes 0 (example_header 2000) zero_packet, b_len := 8,
         b_size := 2000\<rparr>\<rparr>]
     (example_machine\<lparr>m_arriving := (\<lambda>_. [])(0 := replicate 2000 7)\<rparr>)"

theorem oversized_packet_overflows_witness:
  "decrypt_data machine_env 5 1440 0 example_oversized = Inl Undefined"
proof -
  let ?d = "put_bytes 0 (example_header 2000) zero_packet"
  let ?c = "free_client\<lparr>cl_fd := 5, cl_state := C_CONNECTED,
    decrypt_buf := (decrypt_buf free_client)\<lparr>b_data := ?d, b_len := 8, b_size := 2000\<rparr>\<rparr>"
  have d: "length ?d = 1440" using zero_packet_fits(1) by (simp add: length_put_bytes example_header)
  have "?d = example_header 2000 @ drop 8 zero_packet" by (simp add: put_bytes_def example_header)
  then have sz: "hdr_size ?d = 2000" using example_header(2) [of 2000] by (simp add: hdr_size_append example_header(1))
  have "client_ok ?c"
    using free_client_ok(1) d sz by (simp add: client_ok_def buffer_ok_def framed_def)
  then have ok: "server_ok example_oversized" unfolding example_oversized_def by (intro example_server_ok) auto
  have c: "client_at example_oversized 0 = ?c" "ssl (cl_secure (client_at example_oversized 0)) = 0"
    "m_arriving (world example_oversized) 0 = replicate 2000 7"
    by (simp_all add: example_oversized_def example_server_client free_client_def zero_client_def)
  have "b_len (decrypt_buf (client_at example_oversized 0)) = 8" "hdr_size (received example_oversized 0) = 2000"
    using c sz by (simp_all add: received_def)
  with oversized_packet_overflows [OF mach.streams_axioms ok zero_less_numeral _ c(2) _ _ order_refl, of 5] c(3)
  show ?thesis by simp
qed

end
