(* ===== verification/Server_Loop.thy ===== *)
theory Server_Loop
  imports Net_Read
begin

text \<open>
  The event loop of \<^verbatim>\<open>qs_server/src/network.c\<close>: accepting connections, arming the write events
  and dispatching each event to the functions of the theories before.
\<close>

section \<open>The rest of network.c\<close>

text \<open>\<^verbatim>\<open>O_NONBLOCK\<close> on Linux; the flags of a descriptor are an \<^verbatim>\<open>int\<close>.\<close>

definition set_nonblocking :: "'w env \<Rightarrow> int \<Rightarrow> 'w \<Rightarrow> 'w" where
  "set_nonblocking E fd w =
     (let (flags, w1) = fcntl_getfl E fd w
      in if flags = - 1 then w1
         else snd (fcntl_setfl E fd (sint (or (word_of_int flags :: u32) 2048)) w1))"

text \<open>
  \<^verbatim>\<open>accept_client\<close>: a rejected connection goes to \<^verbatim>\<open>close_client\<close>, which finds it neither in
  the epoll set nor in the table. \<open>n\<close> bounds the connections accepted in one call.
\<close>

fun accept_client :: "'w env \<Rightarrow> nat \<Rightarrow> nat \<Rightarrow> 'w server \<Rightarrow> fault + 'w server" where
  "accept_client E fuel n s =
     (let ((conn, addr), s1) = on_world (sys_accept E (sock_fd s)) s
      in if conn = - 1 then Inr s1
         else bindE (client_init E (clients s1) (world s1)) (\<lambda>(place, cl, w).
           let s2 = upd_world (set_nonblocking E conn) (s1\<lparr>clients := cl, world := w\<rparr>);
               (added, s3) = (if place = None then (False, s2) else new_client_event E EPOLL_CTL_ADD conn s2)
           in if \<not> added then close_client E fuel conn s3
              else let s4 = upd_client (the place) (\<lambda>c. c\<lparr>cl_fd := conn, cl_addr := addr\<rparr>) s3
                   in case n of 0 \<Rightarrow> Inl Out_Of_Fuel | Suc m \<Rightarrow> accept_client E fuel m s4))"

declare accept_client.simps [simp del]

definition wants_write :: "client \<Rightarrow> bool" where
  "wants_write c \<longleftrightarrow> \<not> queue_empty (msg_queue c) \<or> 0 < b_len (encrypted_buf (cl_secure c))"

fun check_for_write_loop :: "'w env \<Rightarrow> nat list \<Rightarrow> 'w server \<Rightarrow> 'w server" where
  "check_for_write_loop E [] s = s"
| "check_for_write_loop E (i # is) s =
     (if cl_state (client_at s i) = C_EMPTY then check_for_write_loop E is s
      else let ev = \<lparr>ev_in = True, ev_out = wants_write (client_at s i), ev_rdhup = True, ev_hup = True,
                     ev_err = True\<rparr>;
               (_, s1) = on_world (epoll_ctl E EPOLL_CTL_MOD (cl_fd (client_at s i)) ev) s
           in check_for_write_loop E is s1)"

definition check_for_write :: "'w env \<Rightarrow> 'w server \<Rightarrow> 'w server" where
  "check_for_write E s = check_for_write_loop E [0..<MAX_CLIENTS] s"

definition handle_event :: "'w env \<Rightarrow> nat \<Rightarrow> epoll_event \<Rightarrow> 'w server \<Rightarrow> fault + 'w server" where
  "handle_event E fuel e s =
     (let ev = ee_events e; fd = ee_fd e in
      if fd = sock_fd s then accept_client E fuel fuel s
      else if ev_err ev \<or> ev_hup ev \<or> ev_rdhup ev then close_client E fuel fd s
      else bindE (if ev_in ev then read_data E fuel fd s else Inr s) (\<lambda>s1.
             if ev_out ev then write_data E fuel fd s1 else Inr s1))"

fun handle_events :: "'w env \<Rightarrow> nat \<Rightarrow> epoll_event list \<Rightarrow> 'w server \<Rightarrow> fault + 'w server" where
  "handle_events E fuel [] s = Inr s"
| "handle_events E fuel (e # es) s = bindE (handle_event E fuel e s) (\<lambda>s1. handle_events E fuel es s1)"

abbreviation MAX_EPOLL_EVENTS :: nat where "MAX_EPOLL_EVENTS \<equiv> 64"

fun server_loop :: "'w env \<Rightarrow> nat \<Rightarrow> nat \<Rightarrow> 'w server \<Rightarrow> fault + 'w server" where
  "server_loop E fuel n s =
     (if \<not> server_running E (world s) then Inr s
      else let s1 = check_for_write E s;
               (events, s2) = on_world (epoll_wait E MAX_EPOLL_EVENTS) s1
           in case events of
                None \<Rightarrow> Inr s2
              | Some es \<Rightarrow> bindE (handle_events E fuel es s2) (\<lambda>s3.
                  case n of 0 \<Rightarrow> Inl Out_Of_Fuel | Suc m \<Rightarrow> server_loop E fuel m s3))"

declare server_loop.simps [simp del]

section \<open>The loop keeps the server well formed\<close>

lemma server_ok_clients: "server_ok (s\<lparr>clients := cl\<rparr>) = clients_ok cl"
  by (simp add: server_ok_def)

lemma accept_turn:
  assumes "server_ok s" "on_world (sys_accept E (sock_fd s)) s = ((conn, addr), s1)"
    and "client_init E (clients s1) (world s1) = Inr (place, cl, w)"
  shows "server_ok (s1\<lparr>clients := cl, world := w\<rparr>)" "place = Some i \<Longrightarrow> i < MAX_CLIENTS"
proof -
  have "server_ok s1" using assms(1) on_world_ok [OF assms(2)] by simp
  then have "clients_ok (clients s1)" by (simp add: server_ok_def)
  from client_init_ok [OF assms(3) this] show "server_ok (s1\<lparr>clients := cl, world := w\<rparr>)"
    "place = Some i \<Longrightarrow> i < MAX_CLIENTS" by (auto simp: server_ok_def split: option.splits)
qed

text \<open>One turn of \<^verbatim>\<open>accept_client\<close>, for any continuation after an accepted connection.\<close>

definition accept_one :: "'w env \<Rightarrow> nat \<Rightarrow> ('w server \<Rightarrow> fault + 'w server) \<Rightarrow> 'w server \<Rightarrow> fault + 'w server" where
  "accept_one E fuel next_turn s =
     (let ((conn, addr), s1) = on_world (sys_accept E (sock_fd s)) s
      in if conn = - 1 then Inr s1
         else bindE (client_init E (clients s1) (world s1)) (\<lambda>(place, cl, w).
           let s2 = upd_world (set_nonblocking E conn) (s1\<lparr>clients := cl, world := w\<rparr>);
               (added, s3) = (if place = None then (False, s2) else new_client_event E EPOLL_CTL_ADD conn s2)
           in if \<not> added then close_client E fuel conn s3
              else next_turn (upd_client (the place) (\<lambda>c. c\<lparr>cl_fd := conn, cl_addr := addr\<rparr>) s3)))"

lemma accept_client_turn:
  "accept_client E fuel n s = accept_one E fuel
     (\<lambda>s4. case n of 0 \<Rightarrow> Inl Out_Of_Fuel | Suc m \<Rightarrow> accept_client E fuel m s4) s"
  by (subst accept_client.simps) (simp only: accept_one_def Let_def)

text \<open>
  \<^verbatim>\<open>client_init\<close> clears the packet buffer of the slot it takes up to its stale size: it stays within the
  buffer when no free slot carries the size of a packet that was too long.
\<close>

definition sizes_fit :: "'w server \<Rightarrow> bool" where
  "sizes_fit s \<longleftrightarrow> (\<forall>i < MAX_CLIENTS. \<not> in_use (client_at s i) \<longrightarrow>
     unat (b_size (decrypt_buf (client_at s i))) \<le> PACKET_MAX_SIZE)"

lemma client_init_defined:
  assumes "server_ok s" "sizes_fit s"
  shows "\<exists>x. client_init E (clients s) w = Inr x"
proof (cases "find (\<lambda>i. \<not> in_use (c_list (clients s) ! i)) [0..<32]")
  case None
  then show ?thesis by (simp add: client_init_def)
next
  case (Some i)
  then have "i < 32" "\<not> in_use (client_at s i)" by (auto simp: find_upt_Some client_at_def)
  then have "unat (b_size (decrypt_buf (c_list (clients s) ! i))) \<le> 1440"
    using assms(2) by (auto simp: sizes_fit_def client_at_def)
  from client_init_Some [OF _ Some this, of E w] assms(1) show ?thesis by (auto simp: server_ok_def)
qed

lemma sizes_fit_taken:
  assumes "server_ok s" "client_init E (clients s) w = Inr (Some i, cl, w1)" "sizes_fit s"
  shows "sizes_fit (upd_client i (\<lambda>c. c\<lparr>cl_fd := fd, cl_addr := a\<rparr>) (s\<lparr>clients := cl, world := w2\<rparr>))"
proof -
  have "clients_ok (clients s)" using assms(1) by (simp add: server_ok_def)
  note i = client_init_ok [OF assms(2) this, simplified]
  then have len: "length (c_list cl) = 32" by (simp add: clients_ok_def)
  have "c_list cl ! j = client_at s j" if "j \<noteq> i" for j
    using i that by (metis client_at_def nth_list_update_neq)
  then show ?thesis using i len assms(3) by (auto simp: sizes_fit_def upd_client_def client_at_def nth_list_update)
qed

lemma accept_one_ok:
  assumes "server_ok s" "df \<Longrightarrow> sizes_fit s"
    and "\<And>s4. server_ok s4 \<Longrightarrow> (df \<Longrightarrow> sizes_fit s4) \<Longrightarrow> keepsE df server_ok (next_turn s4)"
  shows "keepsE df server_ok (accept_one E fuel next_turn s)"
proof -
  obtain conn addr s1 where 1: "on_world (sys_accept E (sock_fd s)) s = ((conn, addr), s1)"
    by (metis prod.exhaust)
  from 1 obtain w0 where s1: "s1 = s\<lparr>world := w0\<rparr>" by (auto simp: on_world_def split: prod.splits)
  have fit1: "df \<Longrightarrow> sizes_fit s1" using assms(2) by (simp add: s1 sizes_fit_def)
  have ok1: "server_ok s1" using assms(1) by (simp add: s1)
  show ?thesis
  proof (cases "conn = - 1")
    case True
    with 1 ok1 show ?thesis by (simp add: accept_one_def)
  next
    case False
    show ?thesis
    proof (cases "client_init E (clients s1) (world s1)")
      case (Inl e)
      then have "\<not> df" using client_init_defined [OF ok1 fit1, of E "world s1"] by auto
      with 1 False Inl show ?thesis by (simp add: accept_one_def)
    next
      case (Inr x)
      obtain place cl w where x: "x = (place, cl, w)" by (cases x)
      note turn = accept_turn [OF assms(1) 1 Inr [unfolded x]]
      let ?s2 = "upd_world (set_nonblocking E conn) (s1\<lparr>clients := cl, world := w\<rparr>)"
      have ok2: "server_ok ?s2" using turn(1) by simp
      obtain added s3 where 3: "(if place = None then (False, ?s2) else new_client_event E EPOLL_CTL_ADD conn ?s2) = (added, s3)"
        by force
      then obtain w3 where s3: "s3 = s1\<lparr>clients := cl, world := w3\<rparr>"
        using new_client_event_world [of E EPOLL_CTL_ADD conn ?s2 added s3] by (auto simp: upd_world_def split: if_splits)
      then have ok3: "server_ok s3" using turn(1) by (simp add: server_ok_def)
      have run: "accept_one E fuel next_turn s = (if \<not> added then close_client E fuel conn s3
          else next_turn (upd_client (the place) (\<lambda>c. c\<lparr>cl_fd := conn, cl_addr := addr\<rparr>) s3))"
        using 1 3 False Inr x by (simp add: accept_one_def Let_def)
      show ?thesis
      proof (cases added)
        case False
        with close_client_ok [OF ok3, of df E fuel conn] show ?thesis unfolding run by simp
      next
        case True
        then obtain i where i: "place = Some i" "i < 32" using 3 turn(2) by (cases place) auto
        have "client_ok (client_at s3 i)" by (rule server_ok_client [OF ok3 i(2)])
        then have "server_ok (upd_client i (\<lambda>c. c\<lparr>cl_fd := conn, cl_addr := addr\<rparr>) s3)"
          using i ok3 by (intro server_ok_upd) (simp_all add: client_ok_def)
        moreover have "df \<Longrightarrow> sizes_fit (upd_client i (\<lambda>c. c\<lparr>cl_fd := conn, cl_addr := addr\<rparr>) s3)"
          unfolding s3 by (rule sizes_fit_taken [OF ok1 _ fit1]) (use Inr x i in simp_all)
        ultimately show ?thesis unfolding run using True i(1) assms(3) by simp
      qed
    qed
  qed
qed

lemma accept_client_ok:
  "server_ok s \<Longrightarrow> (df \<Longrightarrow> sizes_fit s) \<Longrightarrow> keepsE df server_ok (accept_client E fuel n s)"
proof (induction n arbitrary: s)
  case 0
  show ?case by (subst accept_client_turn, rule accept_one_ok) (simp_all add: 0)
next
  case (Suc n)
  show ?case by (subst accept_client_turn, rule accept_one_ok) (simp_all add: Suc)
qed

lemma check_for_write_loop_world: "\<exists>w. check_for_write_loop E is s = s\<lparr>world := w\<rparr>"
proof (induction "is" arbitrary: s)
  case Nil
  show ?case by (metis check_for_write_loop.simps(1) server.surjective server.update_convs(3))
next
  case (Cons i "is")
  show ?case
  proof (cases "cl_state (client_at s i) = C_EMPTY")
    case True
    with Cons show ?thesis by simp
  next
    case False
    obtain x w where "epoll_ctl E EPOLL_CTL_MOD (cl_fd (client_at s i)) \<lparr>ev_in = True,
        ev_out = wants_write (client_at s i), ev_rdhup = True, ev_hup = True, ev_err = True\<rparr> (world s) = (x, w)"
      by force
    with Cons [of "s\<lparr>world := w\<rparr>"] False show ?thesis by (auto simp: on_world_def)
  qed
qed

lemma check_for_write_ok: "server_ok (check_for_write E s) = server_ok s"
  using check_for_write_loop_world [of E "[0..<32]" s] by (auto simp: check_for_write_def)

context bounded_io
begin

lemma handle_event_ok:
  assumes "server_ok s" "df \<Longrightarrow> ee_fd e = sock_fd s \<Longrightarrow> sizes_fit s"
    and "\<And>c. df \<Longrightarrow> ee_fd e \<noteq> sock_fd s \<Longrightarrow> ev_in (ee_events e) \<Longrightarrow> client_find (clients s) (ee_fd e) = Some c \<Longrightarrow>
      reads_safely E fuel c s"
  shows "keepsE df server_ok (handle_event E fuel e s)"
proof (cases "ee_fd e = sock_fd s")
  case True
  with accept_client_ok [OF assms(1), of df E fuel fuel] assms(2) show ?thesis by (simp add: handle_event_def Let_def)
next
  case False
  have read: "keepsE df server_ok (read_data E fuel (ee_fd e) s)" if "ev_in (ee_events e)"
    by (rule keepsE_mono [OF read_data_closes [OF assms(1) assms(3)]]) (use that False in \<open>auto intro: only_closes_ok\<close>)
  have "keepsE df server_ok (write_data E fuel fd s1)" if "server_ok s1" for fd s1
    by (rule keepsE_mono [OF write_data_closes [OF that]]) (rule only_closes_ok)
  with read assms(1) False show ?thesis
    by (auto simp: handle_event_def Let_def close_client_ok intro!: keepsE_bind [where P = server_ok])
qed

lemma handle_events_ok: "server_ok s \<Longrightarrow> keepsE False server_ok (handle_events E fuel es s)"
  by (induction es arbitrary: s) (auto intro!: keepsE_bind [OF handle_event_ok])

text \<open>An event that leaves the defined behaviour, with the state it does so in.\<close>

lemma handle_event_undefined:
  assumes "server_ok s" "handle_event E fuel e s = Inl Undefined"
  shows "if ee_fd e = sock_fd s then \<not> sizes_fit s
    else ev_in (ee_events e) \<and> (\<exists>c t. client_find (clients s) (ee_fd e) = Some c \<and> (tls_step E fuel c)\<^sup>*\<^sup>* s t \<and> server_ok t \<and>
      (buffer_overflows E c t \<and> 8 \<le> unat (b_len (decrypt_buf (client_at t c))) \<and>
         PACKET_MAX_SIZE < 8 + unat (b_size (decrypt_buf (client_at t c))) \<or> log_overflows c t))"
proof (cases "ee_fd e = sock_fd s")
  case True
  then show ?thesis using keepsE_defined [OF handle_event_ok [OF assms(1), where df = True]] assms(2) by auto
next
  case False
  obtain c where c: "ev_in (ee_events e)" "client_find (clients s) (ee_fd e) = Some c" "\<not> reads_safely E fuel c s"
    using keepsE_defined [OF handle_event_ok [OF assms(1), where df = True]] assms(2) False by blast
  then obtain t where t: "(tls_step E fuel c)\<^sup>*\<^sup>* s t" "buffer_overflows E c t \<or> log_overflows c t"
    by (auto simp: reads_safely_def)
  have r: "c < 32" "in_use (client_at s c)" using c(2) by (simp_all add: client_find_Some client_at_def)
  have ok: "server_ok t" by (rule serves_ok [OF tls_steps_serves [OF t(1) assms(1) r]])
  have "8 \<le> unat (b_len (decrypt_buf (client_at t c))) \<and> 1440 < 8 + unat (b_size (decrypt_buf (client_at t c)))"
    if "buffer_overflows E c t" by (rule overflow_header [OF bounded_io_axioms ok r(1) that])
  with False c t ok show ?thesis by auto
qed

end

section \<open>Reachable servers\<close>

text \<open>
  A step is what the program does between two points where it looks at the outside world: it arms
  the write events, the outside world moves, or one event is handled.
\<close>

inductive serve_step :: "'w env \<Rightarrow> nat \<Rightarrow> 'w server \<Rightarrow> 'w server \<Rightarrow> bool" for E :: "'w env" and fuel :: nat where
  arm: "serve_step E fuel s (check_for_write E s)"
| outside: "serve_step E fuel s (s\<lparr>world := w\<rparr>)"
| event: "handle_event E fuel e s = Inr s' \<Longrightarrow> serve_step E fuel s s'"

inductive_cases serve_stepE: "serve_step E fuel s s'"

definition serves_to :: "'w env \<Rightarrow> nat \<Rightarrow> 'w server \<Rightarrow> 'w server \<Rightarrow> bool" where
  "serves_to E fuel = (serve_step E fuel)\<^sup>*\<^sup>*"

context bounded_io
begin

lemma serve_step_ok: "serve_step E fuel s s' \<Longrightarrow> server_ok s \<Longrightarrow> server_ok s'"
  by (erule serve_stepE) (auto simp: check_for_write_ok dest: keepsE_D [OF handle_event_ok [where df = False]])

end

lemma serves_to_ok:
  assumes "bounded_io E" "serves_to E fuel s s'" "server_ok s"
  shows "server_ok s'"
  using assms(2,3) unfolding serves_to_def
  by (induction rule: rtranclp_induct) (auto intro: bounded_io.serve_step_ok [OF assms(1)])

lemma serves_to_steps:
  "serves_to E fuel s s" "serve_step E fuel s s1 \<Longrightarrow> serves_to E fuel s s1"
  "serves_to E fuel s s1 \<Longrightarrow> serves_to E fuel s1 s2 \<Longrightarrow> serves_to E fuel s s2"
  by (auto simp: serves_to_def)

lemma handle_events_reach: "handle_events E fuel es s = Inr s' \<Longrightarrow> serves_to E fuel s s'"
proof (induction es arbitrary: s)
  case Nil
  then show ?case by (simp add: serves_to_steps(1))
next
  case (Cons e es)
  then obtain s1 where "handle_event E fuel e s = Inr s1" "handle_events E fuel es s1 = Inr s'" by auto
  with Cons.IH serves_to_steps(3) [OF serves_to_steps(2) [OF event]] show ?case by blast
qed

lemma server_loop_reach: "server_loop E fuel n s = Inr s' \<Longrightarrow> serves_to E fuel s s'"
proof (induction n arbitrary: s rule: less_induct)
  case (less n)
  obtain w where armed: "check_for_write E s = s\<lparr>world := w\<rparr>"
    using check_for_write_loop_world [of E "[0..<32]" s] by (auto simp: check_for_write_def)
  obtain events w2 where wait: "epoll_wait E 64 w = (events, w2)" by force
  have go: "serves_to E fuel s (s\<lparr>world := w2\<rparr>)"
    by (rule serves_to_steps(2) [OF outside])
  show ?case
  proof (cases "server_running E (world s)")
    case False
    with less.prems show ?thesis by (subst (asm) server_loop.simps) (simp add: serves_to_steps)
  next
    case True
    note run = less.prems [unfolded server_loop.simps [of E fuel n s]]
    show ?thesis
    proof (cases events)
      case None
      with run True armed wait go show ?thesis by (simp add: on_world_def)
    next
      case (Some es)
      with run True armed wait obtain s3 m where m: "handle_events E fuel es (s\<lparr>world := w2\<rparr>) = Inr s3"
          "n = Suc m" "server_loop E fuel m s3 = Inr s'"
        by (auto simp: on_world_def split: nat.splits)
      with less.IH [of m s3] handle_events_reach [OF m(1)] go show ?thesis by (blast intro: serves_to_steps(3))
    qed
  qed
qed

lemma handle_events_undefined:
  "handle_events E fuel es s = Inl Undefined \<Longrightarrow> \<exists>s1 e. serves_to E fuel s s1 \<and> handle_event E fuel e s1 = Inl Undefined"
proof (induction es arbitrary: s)
  case (Cons e es)
  show ?case
  proof (cases "handle_event E fuel e s")
    case (Inl f)
    with Cons.prems serves_to_steps(1) [of E fuel s] show ?thesis by auto
  next
    case (Inr s1)
    with Cons obtain s2 e2 where "serves_to E fuel s1 s2" "handle_event E fuel e2 s2 = Inl Undefined" by fastforce
    with serves_to_steps(2) [OF event [OF Inr]] show ?thesis by (blast intro: serves_to_steps(3))
  qed
qed simp

lemma server_loop_undefined:
  "server_loop E fuel n s = Inl Undefined \<Longrightarrow> \<exists>s1 e. serves_to E fuel s s1 \<and> handle_event E fuel e s1 = Inl Undefined"
proof (induction n arbitrary: s rule: less_induct)
  case (less n)
  obtain w where armed: "check_for_write E s = s\<lparr>world := w\<rparr>"
    using check_for_write_loop_world [of E "[0..<32]" s] by (auto simp: check_for_write_def)
  obtain events w2 where wait: "epoll_wait E 64 w = (events, w2)" by force
  have go: "serves_to E fuel s (s\<lparr>world := w2\<rparr>)"
    by (rule serves_to_steps(2) [OF outside])
  from less.prems [unfolded server_loop.simps [of E fuel n s]] armed wait obtain es where
    es: "bindE (handle_events E fuel es (s\<lparr>world := w2\<rparr>)) (\<lambda>s3.
      case n of 0 \<Rightarrow> Inl Out_Of_Fuel | Suc m \<Rightarrow> server_loop E fuel m s3) = Inl Undefined"
    by (auto simp: on_world_def split: if_splits option.splits)
  show ?case
  proof (cases "handle_events E fuel es (s\<lparr>world := w2\<rparr>)")
    case (Inl f)
    with es have "handle_events E fuel es (s\<lparr>world := w2\<rparr>) = Inl Undefined" by simp
    from handle_events_undefined [OF this] go show ?thesis by (blast intro: serves_to_steps(3))
  next
    case (Inr s3)
    with es obtain m where "n = Suc m" "server_loop E fuel m s3 = Inl Undefined" by (auto split: nat.splits)
    with less.IH [of m s3] handle_events_reach [OF Inr] go show ?thesis by (blast intro: serves_to_steps(3))
  qed
qed

section \<open>Properties\<close>

text \<open>
  C1: the whole server: from a well-formed state, whatever the clients, TLS, the sockets and the
  database do within their documented bounds, every state between two handlers is well formed: 32
  slots whose use is counted, complete clients are in a session, queues hold at most 16 messages and
  each fits its element with its announced size; the loop passes only through such states. Where a
  handler reads or writes outside of an object the loop has no next state, and this happens in three
  ways only: a connection is accepted while a free slot carries the size of a packet too long for its
  buffer; TLS yields more bytes of such a packet, announced by its header, than the buffer has left; the
  log line of a request for a transfer does not fit. Closing and writing never do.
\<close>

theorem server_loop_invariant:
  assumes "bounded_io E" "server_ok s"
  shows "(\<forall>n s'. server_loop E fuel n s = Inr s' \<longrightarrow> serves_to E fuel s s') \<and>
    (\<forall>n. server_loop E fuel n s = Inl Undefined \<longrightarrow>
       (\<exists>s' e. serves_to E fuel s s' \<and> handle_event E fuel e s' = Inl Undefined)) \<and>
    (\<forall>s'. serves_to E fuel s s' \<longrightarrow> server_ok s' \<and> length (c_list (clients s')) = MAX_CLIENTS \<and>
       unat (n_cli (clients s')) = length (filter in_use (c_list (clients s'))) \<and>
       (\<forall>i < MAX_CLIENTS. (cl_state (client_at s' i) = C_COMPLETE \<longrightarrow> cl_session_id (client_at s' i) \<noteq> 0) \<and>
          length (outbox s' i) \<le> QUEUE_LEN \<and> (\<forall>p \<in> set (outbox s' i). fits_packet p)) \<and>
       (\<forall>e. handle_event E fuel e s' = Inl Undefined \<longrightarrow>
          (if ee_fd e = sock_fd s' then
             \<exists>i < MAX_CLIENTS. \<not> in_use (client_at s' i) \<and> PACKET_MAX_SIZE < unat (b_size (decrypt_buf (client_at s' i)))
           else ev_in (ee_events e) \<and> (\<exists>c t. client_find (clients s') (ee_fd e) = Some c \<and> (tls_step E fuel c)\<^sup>*\<^sup>* s' t \<and>
             server_ok t \<and> (buffer_overflows E c t \<and> 8 \<le> unat (b_len (decrypt_buf (client_at t c))) \<and>
               PACKET_MAX_SIZE < 8 + unat (b_size (decrypt_buf (client_at t c))) \<or> log_overflows c t)))))"
proof (intro conjI allI impI)
  show "serves_to E fuel s s'" if "server_loop E fuel n s = Inr s'" for n s' by (rule server_loop_reach [OF that])
  show "\<exists>s' e. serves_to E fuel s s' \<and> handle_event E fuel e s' = Inl Undefined" if "server_loop E fuel n s = Inl Undefined" for n
    by (rule server_loop_undefined [OF that])
  fix s' assume "serves_to E fuel s s'"
  then have ok: "server_ok s'" by (rule serves_to_ok [OF assms(1) _ assms(2)])
  then show "server_ok s'" "length (c_list (clients s')) = 32"
    "unat (n_cli (clients s')) = length (filter in_use (c_list (clients s')))"
    by (simp_all add: server_ok_def clients_ok_def)
  show "if ee_fd e = sock_fd s' then
      \<exists>i < 32. \<not> in_use (client_at s' i) \<and> 1440 < unat (b_size (decrypt_buf (client_at s' i)))
    else ev_in (ee_events e) \<and> (\<exists>c t. client_find (clients s') (ee_fd e) = Some c \<and> (tls_step E fuel c)\<^sup>*\<^sup>* s' t \<and>
      server_ok t \<and> (buffer_overflows E c t \<and> 8 \<le> unat (b_len (decrypt_buf (client_at t c))) \<and>
        1440 < 8 + unat (b_size (decrypt_buf (client_at t c))) \<or> log_overflows c t))"
    if "handle_event E fuel e s' = Inl Undefined" for e
    using bounded_io.handle_event_undefined [OF assms(1) ok that] by (auto simp: sizes_fit_def split: if_splits)
  fix i :: nat assume i: "i < 32"
  have c: "client_ok (client_at s' i)" by (rule server_ok_client [OF ok i])
  then show "cl_state (client_at s' i) = C_COMPLETE \<Longrightarrow> cl_session_id (client_at s' i) \<noteq> 0"
    "\<forall>p \<in> set (outbox s' i). fits_packet p" by (simp_all add: client_ok_def outbox_def)
  show "length (outbox s' i) \<le> 16" using fits_no_mail [OF ok] i by (simp add: fits_def no_mail_def)
qed

definition example_out :: events where
  "example_out = \<lparr>ev_in = False, ev_out = True, ev_rdhup = False, ev_hup = False, ev_err = False\<rparr>"

theorem server_loop_invariant_witness:
  "\<exists>s'. handle_event machine_env 1440 \<lparr>ee_fd = 5, ee_events = example_out\<rparr> example_writer = Inr s' \<and> server_ok s' \<and>
     length (outbox s' 0) \<le> QUEUE_LEN \<and> server_ok (check_for_write machine_env s')"
proof -
  let ?e = "\<lparr>ee_fd = 5, ee_events = example_out\<rparr>"
  obtain s' where "write_data machine_env 1440 5 example_writer = Inr s'" using example_writer_run by blast
  moreover have "sock_fd example_writer \<noteq> 5" by (simp add: example_server_def)
  ultimately have run: "handle_event machine_env 1440 ?e example_writer = Inr s'"
    by (simp add: handle_event_def example_out_def)
  then have 1: "serves_to machine_env 1440 example_writer s'" by (intro serves_to_steps(2) event)
  then have 2: "serves_to machine_env 1440 example_writer (check_for_write machine_env s')"
    by (rule serves_to_steps(3)) (rule serves_to_steps(2) [OF arm])
  from server_loop_invariant [OF mach.bounded_io_axioms example_writer_ok(1), of 1440] 1 2 run show ?thesis by auto
qed

text \<open>
  C40: with all slots in use a new connection is rejected by a call of \<^verbatim>\<open>close_client\<close>, which gives up
  because the descriptor was never added to the epoll set: no client is changed, and the accepted
  descriptor is not closed.
\<close>

theorem rejected_connection_leaks:
  assumes "server_ok s" "\<forall>i < MAX_CLIENTS. in_use (client_at s i)"
    and "sys_accept E (sock_fd s) (world s) = ((conn, addr), w)" "conn \<noteq> - 1"
    and "\<forall>ev w. fst (epoll_ctl E EPOLL_CTL_DEL conn ev w) = - 1"
  shows "\<exists>ev. accept_client E fuel n s =
    Inr (s\<lparr>world := snd (epoll_ctl E EPOLL_CTL_DEL conn ev (set_nonblocking E conn w))\<rparr>)"
proof -
  have "find (\<lambda>i. \<not> in_use (c_list (clients s) ! i)) [0..<32] = None"
    using assms(2) by (simp add: find_None_iff client_at_def)
  then have init: "client_init E (clients s) w = Inr (None, clients s, w)"
    using client_init_spec [of "clients s" E w] assms(1) by (simp add: server_ok_def)
  let ?ev = "\<lparr>ev_in = True, ev_out = False, ev_rdhup = True, ev_hup = True, ev_err = True\<rparr>"
  have "fst (epoll_ctl E EPOLL_CTL_DEL conn ?ev (set_nonblocking E conn w)) = - 1" using assms(5) by blast
  then obtain w2 where "epoll_ctl E EPOLL_CTL_DEL conn ?ev (set_nonblocking E conn w) = (- 1, w2)" by (metis prod.collapse)
  with assms(3,4) init have "accept_client E fuel n s = Inr (s\<lparr>world := w2\<rparr>)"
    by (subst accept_client.simps)
      (simp add: on_world_def upd_world_def close_client_def new_client_event_def Let_def)
  with \<open>epoll_ctl E EPOLL_CTL_DEL conn ?ev (set_nonblocking E conn w) = (- 1, w2)\<close>
  show ?thesis by (intro exI [of _ ?ev]) simp
qed

definition full_server :: "machine server" where
  "full_server = example_server (replicate 32 (example_client 5 7 C_CONNECTED 0 zero_packet)) example_machine"

definition refusing_env :: "machine env" where
  "refusing_env = machine_env\<lparr>sys_accept := (\<lambda>_ w. ((9, \<lparr>sin_addr = 0, sin_port = 0\<rparr>), w)),
     epoll_ctl := (\<lambda>_ _ _ w. (- 1, w))\<rparr>"

lemma full_server: "server_ok full_server" "i < MAX_CLIENTS \<Longrightarrow> in_use (client_at full_server i)"
proof -
  have "client_ok (example_client 5 7 C_CONNECTED 0 zero_packet)"
    by (rule example_client_ok) (simp_all add: zero_packet_fits)
  then show "server_ok full_server" unfolding full_server_def by (intro example_server_ok) auto
  show "i < 32 \<Longrightarrow> in_use (client_at full_server i)" by (simp add: full_server_def example_server_client)
qed

theorem rejected_connection_leaks_witness:
  "accept_client refusing_env 1440 1440 full_server = Inr full_server"
proof -
  have w: "set_nonblocking refusing_env 9 v = v" "snd (epoll_ctl refusing_env op 9 ev v) = v" for op ev v
    by (simp_all add: refusing_env_def machine_env_def set_nonblocking_def)
  have "\<forall>i < 32. in_use (client_at full_server i)" using full_server(2) by blast
  moreover have "sys_accept refusing_env (sock_fd full_server) (world full_server) = ((9, \<lparr>sin_addr = 0, sin_port = 0\<rparr>), world full_server)"
    "\<forall>ev w. fst (epoll_ctl refusing_env EPOLL_CTL_DEL 9 ev w) = - 1"
    by (simp_all add: refusing_env_def)
  ultimately show ?thesis
    using rejected_connection_leaks [OF full_server(1), of refusing_env 9 _ "world full_server" 1440 1440] w by auto
qed

text \<open>
  A connection that epoll refuses is rejected in the same way, after \<^verbatim>\<open>client_init\<close> has taken a
  slot for it: the slot stays in use, connected, with descriptor 0, and its descriptor is in no epoll
  set, so that no event will ever free it.
\<close>

theorem refused_connection_keeps_slot:
  assumes "server_ok s" "sys_accept E (sock_fd s) (world s) = ((conn, addr), w)" "conn \<noteq> - 1"
    and "\<forall>op ev w. fst (epoll_ctl E op conn ev w) = - 1"
    and "client_init E (clients s) w = Inr (Some i, cl, w1)"
  shows "\<exists>w2. accept_client E fuel n s = Inr (s\<lparr>clients := cl, world := w2\<rparr>) \<and> i < MAX_CLIENTS \<and>
    \<not> in_use (client_at s i) \<and> in_use (c_list cl ! i) \<and> cl_fd (c_list cl ! i) = 0"
proof -
  have "clients_ok (clients s)" using assms(1) by (simp add: server_ok_def)
  from client_init_ok [OF assms(5) this] have i: "i < 32" "\<not> in_use (client_at s i)" "in_use (c_list cl ! i)"
      "cl_fd (c_list cl ! i) = 0"
    by (auto simp: client_at_def)
  let ?ev = "\<lparr>ev_in = True, ev_out = False, ev_rdhup = True, ev_hup = True, ev_err = True\<rparr>"
  obtain w2 where 2: "epoll_ctl E EPOLL_CTL_ADD conn ?ev (set_nonblocking E conn w1) = (- 1, w2)"
    using assms(4) by (metis prod.collapse)
  obtain w3 where 3: "epoll_ctl E EPOLL_CTL_DEL conn ?ev w2 = (- 1, w3)" using assms(4) by (metis prod.collapse)
  have "accept_client E fuel n s = Inr (s\<lparr>clients := cl, world := w3\<rparr>)"
    using assms(2,3,5) 2 3 by (subst accept_client.simps)
      (simp add: on_world_def upd_world_def close_client_def new_client_event_def Let_def)
  with i show ?thesis by blast
qed

theorem refused_connection_keeps_slot_witness:
  "\<exists>cl w2. accept_client refusing_env 1440 1440 (example_server [] example_machine) =
     Inr ((example_server [] example_machine)\<lparr>clients := cl, world := w2\<rparr>) \<and> in_use (c_list cl ! 0)"
proof -
  let ?s = "example_server [] example_machine"
  have ok: "server_ok ?s" by (rule example_server_ok) simp_all
  have t: "clients ?s = free_table" by (simp add: table_of_def free_table_def)
  obtain c w1 where init: "client_init refusing_env (clients ?s) (world ?s) =
      Inr (Some 0, free_table\<lparr>c_list := (c_list free_table)[0 := c], n_cli := n_cli free_table + 1\<rparr>, w1)"
    using client_init_Some [OF free_table_ok free_table_find(1), of refusing_env "world ?s"] free_table_find(2) t by auto
  have "sys_accept refusing_env (sock_fd ?s) (world ?s) = ((9, \<lparr>sin_addr = 0, sin_port = 0\<rparr>), world ?s)"
    "\<forall>op ev w. fst (epoll_ctl refusing_env op 9 ev w) = - 1"
    by (simp_all add: refusing_env_def)
  note leak = refused_connection_keeps_slot [OF ok this(1) _ this(2) init]
  have "(9 :: int) \<noteq> - 1" by simp
  from leak [OF this, of 1440 1440] show ?thesis by blast
qed

end
