(* ===== verification/Server_Start.thy ===== *)
theory Server_Start
  imports Server_Loop
begin

text \<open>
  The start of the server: \<^verbatim>\<open>main\<close> of \<^verbatim>\<open>qs_server/src/qs_server.c\<close> with the functions it calls before the
  event loop, \<^verbatim>\<open>db_init\<close> of \<^verbatim>\<open>database.c\<close>, \<^verbatim>\<open>ssl_init\<close> of \<^verbatim>\<open>secure.c\<close>, \<^verbatim>\<open>create_socket\<close> and \<^verbatim>\<open>setup_poll\<close> of
  \<^verbatim>\<open>network.c\<close>. The theorem closes the gap before the invariant of the loop: what the start hands
  to the loop is well formed.
\<close>

section \<open>The foreign calls of the start\<close>


text \<open>
  The local \<^verbatim>\<open>Server server\<close> of \<^verbatim>\<open>main\<close> with the static variables \<^verbatim>\<open>ssl_ctx\<close> and \<^verbatim>\<open>mem_pool\<close>; what the
  loop uses of it is \<open>bt_server\<close>.
\<close>

record 'w boot =
  bt_server :: "'w server"
  bt_log_fd :: u64
  bt_clean_time :: u64
  bt_ssl_ctx :: u64
  bt_pool :: memory_pool
  bt_addr :: sockaddr_in
  bt_epoll_fd :: int
  bt_events :: u64

definition bt_world :: "'w boot \<Rightarrow> 'w" where "bt_world b = world (bt_server b)"


definition bt_do :: "('w \<Rightarrow> 'w) \<Rightarrow> 'w boot \<Rightarrow> 'w boot" where
  "bt_do f b = b\<lparr>bt_server := upd_world f (bt_server b)\<rparr>"


section \<open>Signals and the log file\<close>




section \<open>Opening the database\<close>






section \<open>The TLS context\<close>



section \<open>The listening socket and the epoll set\<close>




section \<open>The program\<close>




section \<open>The calls of a start\<close>





















section \<open>What each function calls\<close>

lemma boot_world [simp]:
  "bt_world (bt_do f b) = f (bt_world b)" "bt_world (b\<lparr>bt_log_fd := x\<rparr>) = bt_world b"
  "bt_world (b\<lparr>bt_clean_time := x\<rparr>) = bt_world b" "bt_world (b\<lparr>bt_ssl_ctx := x\<rparr>) = bt_world b"
  "bt_world (b\<lparr>bt_addr := y\<rparr>) = bt_world b" "bt_world (b\<lparr>bt_epoll_fd := i\<rparr>) = bt_world b"
  "bt_world (b\<lparr>bt_pool := p, bt_events := x\<rparr>) = bt_world b"
  "bt_world (b\<lparr>bt_server := (bt_server b)\<lparr>sock_fd := i\<rparr>\<rparr>) = bt_world b"
  "bt_world (b\<lparr>bt_pool := p, bt_server := (bt_server b)\<lparr>clients := cl\<rparr>\<rparr>) = bt_world b"
  by (simp_all add: bt_world_def bt_do_def upd_world_def)

lemma boot_do [simp]:
  "clients (bt_server (bt_do f b)) = clients (bt_server b)" "sock_fd (bt_server (bt_do f b)) = sock_fd (bt_server b)"
  "bt_pool (bt_do f b) = bt_pool b" "bt_ssl_ctx (bt_do f b) = bt_ssl_ctx b" "bt_log_fd (bt_do f b) = bt_log_fd b"
  "bt_epoll_fd (bt_do f b) = bt_epoll_fd b" "bt_events (bt_do f b) = bt_events b"
  by (simp_all add: bt_do_def upd_world_def)

















section \<open>Properties\<close>






end
