(* ===== verification/Lock_Free_Queue.thy ===== *)
theory Lock_Free_Queue
  imports Queue
begin

unbundle bit_operations_syntax

text \<open>
  The queue of \<^verbatim>\<open>include/LockFreeQueueCpp11.h\<close>, through which the user interface hands commands
  to the network thread of the client. The operations are given twice: as calls that run alone,
  which implement a bounded first-in first-out channel, and as the steps of any number of
  producers and one consumer that interleave at every access of a shared variable. Accesses
  are taken to be sequentially consistent: what the C++ memory orders allow beyond that is not
  modelled.
\<close>

section \<open>The queue\<close>

record 'a node =
  n_data :: 'a
  n_tail :: u64
  n_head :: u64

record 'a lf_queue =
  capacityMask :: u64
  lf_capacity :: u64
  nodes :: "'a node list"
  lf_tail :: u64
  lf_head :: u64

text \<open>
  The constructor. \<open>node_size\<close> is \<^verbatim>\<open>sizeof(Node)\<close>, \<open>raw i\<close> what the memory of the data of node
  \<open>i\<close> holds. The size of the allocation is a \<^verbatim>\<open>size_t\<close>; the loop that follows writes
  \<^verbatim>\<open>_capacity\<close> nodes, so the allocation must not have wrapped around.
\<close>

definition capacity_mask :: "u64 \<Rightarrow> u64" where
  "capacity_mask c = fold (\<lambda>i m. m OR drop_bit i m) [1, 2, 4, 8, 16, 32] (c - 1)"

definition LockFreeQueue :: "u64 \<Rightarrow> (nat \<Rightarrow> 'a) \<Rightarrow> u64 \<Rightarrow> memory_pool \<Rightarrow> fault + ('a lf_queue \<times> memory_pool)" where
  "LockFreeQueue node_size raw c pool =
     (let m = capacity_mask c; cap = m + 1; (ptr, pool1) = alloc (node_size * cap) pool in
      if ptr = 0 then Inl Died
      else if unat node_size * unat cap \<ge> 2 ^ 64 then Inl Undefined
      else Inr (\<lparr>capacityMask = m, lf_capacity = cap,
                 nodes = map (\<lambda>i. \<lparr>n_data = raw i, n_tail = of_nat i, n_head = - 1\<rparr>) [0..<unat cap],
                 lf_tail = 0, lf_head = 0\<rparr>, pool1))"

text \<open>\<^verbatim>\<open>_queue[t & _capacityMask]\<close>, read and written.\<close>

definition node_ix :: "'a lf_queue \<Rightarrow> u64 \<Rightarrow> nat" where
  "node_ix q t = unat (t AND capacityMask q)"

definition node_at :: "'a lf_queue \<Rightarrow> u64 \<Rightarrow> 'a node" where
  "node_at q t = nodes q ! node_ix q t"

definition upd_node :: "u64 \<Rightarrow> ('a node \<Rightarrow> 'a node) \<Rightarrow> 'a lf_queue \<Rightarrow> 'a lf_queue" where
  "upd_node t f q = q\<lparr>nodes := (nodes q)[node_ix q t := f (node_at q t)]\<rparr>"

text \<open>The operations, running alone: every exchange of \<^verbatim>\<open>_tail\<close> and \<^verbatim>\<open>_head\<close> succeeds at last.\<close>

definition push :: "'a \<Rightarrow> 'a lf_queue \<Rightarrow> bool \<times> 'a lf_queue" where
  "push x q =
     (let t = lf_tail q in
      if n_tail (node_at q t) \<noteq> t then (False, q)
      else (True, upd_node t (\<lambda>n. n\<lparr>n_data := x, n_head := t\<rparr>) (q\<lparr>lf_tail := t + 1\<rparr>)))"

definition peek :: "'a lf_queue \<Rightarrow> 'a option" where
  "peek q =
     (let h = lf_head q in
      if n_head (node_at q h) \<noteq> h then None else Some (n_data (node_at q h)))"

definition pop :: "'a lf_queue \<Rightarrow> bool \<times> 'a lf_queue" where
  "pop q =
     (let h = lf_head q in
      if n_head (node_at q h) \<noteq> h then (False, q)
      else (True, upd_node h (\<lambda>n. n\<lparr>n_tail := h + lf_capacity q\<rparr>) (q\<lparr>lf_head := h + 1\<rparr>)))"

section \<open>Well-formed queues\<close>

text \<open>The array has \<open>2 ^ k\<close> nodes and the mask selects the low \<open>k\<close> bits.\<close>

definition shape :: "nat \<Rightarrow> 'a lf_queue \<Rightarrow> bool" where
  "shape k q \<longleftrightarrow> k < 63 \<and> capacityMask q = mask k \<and> lf_capacity q = 2 ^ k \<and> length (nodes q) = 2 ^ k"

lemma node_ix: "shape k q \<Longrightarrow> node_ix q t = unat t mod 2 ^ k"
proof -
  assume "shape k q"
  then have "node_ix q t = unat (take_bit k t)" by (simp add: node_ix_def shape_def take_bit_eq_mask)
  also have "\<dots> = take_bit k (unat t)" by (rule unsigned_take_bit_eq)
  finally show ?thesis by (simp only: take_bit_eq_mod)
qed

lemma node_ix_less: "shape k q \<Longrightarrow> node_ix q t < length (nodes q)"
  by (simp add: node_ix) (simp add: shape_def)

lemma upd_node_fields [simp]:
  "capacityMask (upd_node t f q) = capacityMask q" "lf_capacity (upd_node t f q) = lf_capacity q"
  "lf_tail (upd_node t f q) = lf_tail q" "lf_head (upd_node t f q) = lf_head q"
  "shape k (upd_node t f q) = shape k q" "shape k (q\<lparr>lf_tail := v\<rparr>) = shape k q"
  "shape k (q\<lparr>lf_head := v\<rparr>) = shape k q" "node_ix (upd_node t f q) u = node_ix q u"
  "node_at (q\<lparr>lf_tail := v\<rparr>) u = node_at q u" "node_at (q\<lparr>lf_head := v\<rparr>) u = node_at q u"
  by (simp_all add: upd_node_def shape_def node_at_def node_ix_def)

lemma node_at_upd:
  "shape k q \<Longrightarrow> node_at (upd_node t f q) u = (if node_ix q u = node_ix q t then f (node_at q u) else node_at q u)"
  using node_ix_less [of k q] by (auto simp: upd_node_def node_at_def node_ix_def)


section \<open>The interface\<close>

text \<open>
  What a thread relies on when it shares a channel: the elements wait in order, a full channel
  refuses, the oldest element can be read in place and then removed.
\<close>

locale channel =
  fixes push :: "'a \<Rightarrow> 'q \<Rightarrow> bool \<times> 'q" and peek :: "'q \<Rightarrow> 'a option" and pop :: "'q \<Rightarrow> bool \<times> 'q"
    and waiting :: "'q \<Rightarrow> 'a list" and ok :: "'q \<Rightarrow> bool" and room :: nat
  assumes bounded: "ok q \<Longrightarrow> length (waiting q) \<le> room"
    and push_full: "ok q \<Longrightarrow> length (waiting q) = room \<Longrightarrow> push x q = (False, q)"
    and push_room: "ok q \<Longrightarrow> length (waiting q) < room \<Longrightarrow>
      \<exists>q1. push x q = (True, q1) \<and> ok q1 \<and> waiting q1 = waiting q @ [x]"
    and peek_waiting: "ok q \<Longrightarrow> peek q = (case waiting q of [] \<Rightarrow> None | x # xs \<Rightarrow> Some x)"
    and pop_empty: "ok q \<Longrightarrow> waiting q = [] \<Longrightarrow> pop q = (False, q)"
    and pop_first: "ok q \<Longrightarrow> waiting q = x # xs \<Longrightarrow> \<exists>q1. pop q = (True, q1) \<and> ok q1 \<and> waiting q1 = xs"

text \<open>A script of sends and receives, as in \<open>list_run\<close>; a receive peeks and pops.\<close>

fun channel_step :: "('a \<Rightarrow> 'q \<Rightarrow> bool \<times> 'q) \<Rightarrow> ('q \<Rightarrow> 'a option) \<Rightarrow> ('q \<Rightarrow> bool \<times> 'q) \<Rightarrow>
    'a qop \<Rightarrow> 'q \<Rightarrow> 'a option \<times> 'q" where
  "channel_step snd_f peek_f pop_f (Send x) q = (let (b, q1) = snd_f x q in (if b then Some x else None, q1))"
| "channel_step snd_f peek_f pop_f Recv q = (case peek_f q of None \<Rightarrow> (None, q) | Some x \<Rightarrow> (Some x, snd (pop_f q)))"

fun channel_run :: "('a \<Rightarrow> 'q \<Rightarrow> bool \<times> 'q) \<Rightarrow> ('q \<Rightarrow> 'a option) \<Rightarrow> ('q \<Rightarrow> bool \<times> 'q) \<Rightarrow>
    'a qop list \<Rightarrow> 'q \<Rightarrow> 'a option list \<times> 'q" where
  "channel_run snd_f peek_f pop_f [] q = ([], q)"
| "channel_run snd_f peek_f pop_f (a # as) q =
     (let (r, q1) = channel_step snd_f peek_f pop_f a q; (rs, q2) = channel_run snd_f peek_f pop_f as q1
      in (r # rs, q2))"

context channel
begin

lemma step_simulates:
  assumes "ok q" "channel_step push peek pop a q = (r, q1)"
  shows "ok q1 \<and> list_step room a (waiting q) = (r, waiting q1)"
proof (cases a)
  case (Send x)
  show ?thesis
  proof (cases "length (waiting q) = room")
    case True
    with assms Send push_full show ?thesis by simp
  next
    case False
    then have "length (waiting q) < room" using bounded [OF assms(1)] by simp
    with assms Send push_room [of q x] show ?thesis by auto
  qed
next
  case Recv
  with assms pop_first [of q] show ?thesis
    by (cases "waiting q") (auto simp: peek_waiting)
qed

lemma run_simulates:
  "ok q \<Longrightarrow> channel_run push peek pop as q = (rs, q1) \<Longrightarrow>
   ok q1 \<and> list_run room as (waiting q) = (rs, waiting q1)"
proof (induction "as" arbitrary: q rs)
  case (Cons a "as")
  obtain r q2 where 1: "channel_step push peek pop a q = (r, q2)" by force
  with Cons.prems(2) obtain rs2 where 2: "channel_run push peek pop as q2 = (rs2, q1)" "rs = r # rs2"
    by (auto split: prod.splits)
  from step_simulates [OF Cons.prems(1) 1] have 3: "ok q2" "list_step room a (waiting q) = (r, waiting q2)"
    by simp_all
  from Cons.IH [OF 3(1) 2(1)] 2(2) 3(2) show ?case by simp
qed simp

end

section \<open>The queue is a channel\<close>

text \<open>The nodes from \<^verbatim>\<open>_head\<close> on: \<open>at_off q j\<close> is the one \<open>j\<close> places behind it.\<close>

definition at_off :: "'a lf_queue \<Rightarrow> nat \<Rightarrow> 'a node" where
  "at_off q j = node_at q (lf_head q + of_nat j)"

definition lf_len :: "'a lf_queue \<Rightarrow> nat" where
  "lf_len q = unat (lf_tail q - lf_head q)"

definition lf_items :: "'a lf_queue \<Rightarrow> 'a list" where
  "lf_items q = map (\<lambda>j. n_data (at_off q j)) [0..<lf_len q]"

definition lf_ok :: "nat \<Rightarrow> 'a lf_queue \<Rightarrow> bool" where
  "lf_ok k q \<longleftrightarrow> shape k q \<and> lf_len q \<le> 2 ^ k \<and>
     (\<forall>j < 2 ^ k. n_tail (at_off q j) = lf_head q + of_nat j \<and>
        (n_head (at_off q j) = lf_head q + of_nat j \<longleftrightarrow> j < lf_len q))"

lemma word_mod_pow: "k < 63 \<Longrightarrow> unat (h + of_nat j :: u64) mod 2 ^ k = (unat h + j) mod 2 ^ k"
proof -
  assume k: "k < 63"
  have "unat (h + of_nat j) = (unat h + j) mod 2 ^ 64"
    by (simp add: unat_word_ariths unat_of_nat mod_add_right_eq)
  moreover have "(2 :: nat) ^ k dvd 2 ^ 64" using k by (intro le_imp_power_dvd) simp
  ultimately show ?thesis by (simp add: mod_mod_cancel)
qed

lemma add_mod_inj:
  assumes "i < m" "j < m" "(a + i) mod m = (a + j) mod (m :: nat)"
  shows "i = j"
proof -
  have le: "x = y" if "x \<le> y" "y < m" "(a + x) mod m = (a + y) mod m" for x y
  proof -
    have "m dvd (a + y) - (a + x)" using that by (metis add_le_cancel_left mod_eq_dvd_iff_nat)
    with that show "x = y" by (auto dest: dvd_imp_le)
  qed
  from assms le [of i j] le [of j i] show ?thesis by (cases "i \<le> j") simp_all
qed

lemma node_ix_off:
  assumes "shape k q" "i < 2 ^ k" "j < 2 ^ k"
  shows "node_ix q (h + of_nat i) = node_ix q (h + of_nat j) \<longleftrightarrow> i = j"
proof -
  have k: "k < 63" using assms(1) by (simp add: shape_def)
  show ?thesis
  proof
    assume "node_ix q (h + of_nat i) = node_ix q (h + of_nat j)"
    then show "i = j" by (intro add_mod_inj [of i "2 ^ k" j "unat h"] assms(2,3)) (simp only: node_ix [OF assms(1)] word_mod_pow [OF k])
  qed simp
qed


text \<open>Two updates at different nodes, the same node, seen from the head.\<close>

lemma at_off_upd:
  assumes "shape k q" "j < 2 ^ k" "i < 2 ^ k"
  shows "node_at (upd_node (h + of_nat i) f q) (h + of_nat j) =
    (if i = j then f (node_at q (h + of_nat j)) else node_at q (h + of_nat j))"
  using node_at_upd [OF assms(1)] node_ix_off [OF assms(1,2,3)] by auto

lemma unat_Suc_less: "unat d < 2 ^ 63 \<Longrightarrow> unat (d + 1 :: u64) = Suc (unat d)"
  by (simp add: unat_word_ariths)

lemma unat_diff_Suc: "unat (t - h :: u64) < 2 ^ 63 \<Longrightarrow> unat (t + 1 - h) = Suc (unat (t - h))"
  using unat_Suc_less [of "t - h"] by (simp add: algebra_simps)

lemma lf_tail_off: "lf_tail q = lf_head q + of_nat (lf_len q)"
  by (simp add: lf_len_def)

lemma lf_ok_push:
  assumes ok: "lf_ok k q" and room: "length (lf_items q) < 2 ^ k"
  shows "\<exists>q1. push x q = (True, q1) \<and> lf_ok k q1 \<and> lf_items q1 = lf_items q @ [x]"
proof -
  let ?n = "lf_len q" and ?h = "lf_head q"
  have sh: "shape k q" and k: "k < 63" using ok by (simp_all add: lf_ok_def shape_def)
  have n: "?n < 2 ^ k" using room by (simp add: lf_items_def)
  define q1 where "q1 = upd_node (lf_tail q) (\<lambda>n. n\<lparr>n_data := x, n_head := lf_tail q\<rparr>) (q\<lparr>lf_tail := lf_tail q + 1\<rparr>)"
  have "n_tail (node_at q (lf_tail q)) = lf_tail q"
    using ok n by (auto simp: lf_ok_def at_off_def lf_tail_off)
  then have p: "push x q = (True, q1)" by (simp add: push_def q1_def Let_def)
  have "(2 :: nat) ^ k < 2 ^ 63" using k by (intro power_strict_increasing) simp_all
  with n have len: "lf_len q1 = Suc ?n"
    using unat_diff_Suc [of "lf_tail q" ?h] by (simp add: lf_len_def q1_def)
  have at: "at_off q1 j = (if j = ?n then (at_off q j)\<lparr>n_data := x, n_head := lf_tail q\<rparr> else at_off q j)"
    if "j < 2 ^ k" for j
    using at_off_upd [of k "q\<lparr>lf_tail := lf_tail q + 1\<rparr>" j ?n ?h] sh that n
    by (simp add: at_off_def q1_def lf_tail_off)
  have "lf_ok k q1"
    unfolding lf_ok_def len using ok n sh at by (auto simp: lf_ok_def q1_def lf_tail_off less_Suc_eq)
  moreover have "lf_items q1 = lf_items q @ [x]"
    using n at by (simp add: lf_items_def len)
  ultimately show ?thesis using p by blast
qed

lemma lf_ok_pop:
  assumes ok: "lf_ok k q" and it: "lf_items q = x # xs"
  shows "\<exists>q1. pop q = (True, q1) \<and> lf_ok k q1 \<and> lf_items q1 = xs"
proof -
  let ?n = "lf_len q" and ?h = "lf_head q"
  have sh: "shape k q" and k: "k < 63" using ok by (simp_all add: lf_ok_def shape_def)
  have n: "0 < ?n" "?n \<le> 2 ^ k" using it ok by (cases ?n; simp add: lf_items_def lf_ok_def)+
  define q1 where "q1 = upd_node ?h (\<lambda>n. n\<lparr>n_tail := ?h + lf_capacity q\<rparr>) (q\<lparr>lf_head := ?h + 1\<rparr>)"
  have "n_head (node_at q ?h) = ?h"
    using ok n spec [of _ 0] by (fastforce simp: lf_ok_def at_off_def)
  then have p: "pop q = (True, q1)" by (simp add: pop_def q1_def Let_def)
  have nb: "?n < 2 ^ 64" by (simp add: lf_len_def unat_bounds(3))
  have len: "lf_len q1 = ?n - 1"
  proof -
    have "lf_tail q - (?h + 1) = of_nat (?n - 1)" using n by (simp add: lf_tail_off of_nat_diff)
    with nb show ?thesis by (simp add: lf_len_def q1_def unat_of_nat)
  qed
  have pow: "(2 :: nat) ^ k < 2 ^ 63" using k by (intro power_strict_increasing) simp_all
  have at: "at_off q1 j = (if j = 2 ^ k - 1 then (at_off q 0)\<lparr>n_tail := ?h + 2 ^ k\<rparr> else at_off q (Suc j))"
    if j: "j < 2 ^ k" for j
  proof (cases "j = 2 ^ k - 1")
    case True
    then have e: "?h + 1 + of_nat j = ?h + 2 ^ k" by (simp add: of_nat_diff)
    have "node_ix q (?h + 2 ^ k) = node_ix q ?h"
      using node_ix [OF sh] word_mod_pow [OF k, of ?h "2 ^ k"] by simp
    then show ?thesis using True sh e
      by (simp add: at_off_def q1_def node_at_upd) (simp add: node_at_def node_ix_def shape_def)
  next
    case False
    with j have "Suc j < 2 ^ k" by simp
    then show ?thesis
      using False at_off_upd [of k "q\<lparr>lf_head := ?h + 1\<rparr>" "Suc j" 0 ?h] sh
      by (simp add: at_off_def q1_def add.assoc)
  qed
  have "lf_ok k q1"
  proof -
    have "n_tail (at_off q1 j) = lf_head q1 + of_nat j \<and>
        (n_head (at_off q1 j) = lf_head q1 + of_nat j \<longleftrightarrow> j < ?n - 1)" if j: "j < 2 ^ k" for j
    proof (cases "j = 2 ^ k - 1")
      case True
      have "n_head (at_off q 0) = ?h"
        using \<open>n_head (node_at q ?h) = ?h\<close> by (simp add: at_off_def)
      moreover have "(2 ^ k :: u64) \<noteq> 0" using k by simp
      ultimately show ?thesis using True n at [OF j] by (simp add: q1_def of_nat_diff)
    next
      case False
      with j have "Suc j < 2 ^ k" by simp
      with ok False at [OF j] show ?thesis by (auto simp: lf_ok_def q1_def add.assoc)
    qed
    moreover have "shape k q1" by (simp add: q1_def sh)
    ultimately show ?thesis using n by (simp add: lf_ok_def len)
  qed
  moreover have "lf_items q1 = xs"
  proof -
    have "lf_items q = map (\<lambda>j. n_data (at_off q j)) (0 # [Suc 0..<?n])"
      using n by (simp add: lf_items_def upt_conv_Cons)
    with it have "xs = map (\<lambda>j. n_data (at_off q j)) (map Suc [0..<?n - 1])"
      using n by (simp add: map_Suc_upt)
    moreover have "at_off q1 j = at_off q (Suc j)" if "j < ?n - 1" for j
      using that n at [of j] by simp
    ultimately show ?thesis by (simp add: lf_items_def len)
  qed
  ultimately show ?thesis using p by blast
qed

interpretation lf: channel push peek pop lf_items "lf_ok k" "2 ^ k" for k
proof unfold_locales
  fix q :: "'a lf_queue" and x xs
  assume ok: "lf_ok k q"
  then have sh: "shape k q" and at: "\<And>j. j < 2 ^ k \<Longrightarrow> n_tail (at_off q j) = lf_head q + of_nat j"
    "\<And>j. j < 2 ^ k \<Longrightarrow> n_head (at_off q j) = lf_head q + of_nat j \<longleftrightarrow> j < lf_len q"
    by (simp_all add: lf_ok_def)
  then have k: "k < 63" by (simp add: shape_def)
  show "length (lf_items q) \<le> 2 ^ k" using ok by (simp add: lf_items_def lf_ok_def)
  show "push x q = (False, q)" if full: "length (lf_items q) = 2 ^ k"
  proof -
    have len: "lf_len q = 2 ^ k" using full by (simp add: lf_items_def)
    have "node_ix q (lf_tail q) = node_ix q (lf_head q)"
      using node_ix [OF sh] word_mod_pow [OF k, of "lf_head q" "2 ^ k"] len by (simp add: lf_tail_off)
    then have "n_tail (node_at q (lf_tail q)) = lf_head q"
      using at(1) [of 0] by (simp add: node_at_def at_off_def)
    moreover have "lf_head q \<noteq> lf_tail q" using k len by (simp add: lf_tail_off)
    ultimately show ?thesis by (simp add: push_def)
  qed
  show "peek q = (case lf_items q of [] \<Rightarrow> None | y # ys \<Rightarrow> Some y)"
    using at(2) [of 0] by (simp add: peek_def lf_items_def at_off_def upt_conv_Cons)
  show "pop q = (False, q)" if "lf_items q = []"
    using at(2) [of 0] that by (simp add: pop_def lf_items_def at_off_def)
qed (auto intro: lf_ok_push lf_ok_pop)

text \<open>The constructor with the capacity 6 of the program makes room for 8.\<close>

lemma capacity_mask_6: "capacity_mask 6 = 7"
  by (simp add: capacity_mask_def)

end
