(* ===== verification/Lock_Free_Steps.thy ===== *)
theory Lock_Free_Steps
  imports Lock_Free_Queue
begin

unbundle bit_operations_syntax

text \<open>
  The interleavings of \<^verbatim>\<open>push\<close>, \<^verbatim>\<open>peek\<close> and \<^verbatim>\<open>pop\<close> of \<^verbatim>\<open>include/LockFreeQueueCpp11.h\<close>: any number
  of producers and one consumer, each step one access of a shared variable. The invariant shows
  that the queue is first in, first out under every schedule, that no two threads use a node's
  data at the same time, and that no push overwrites an element that is still to be read.

  The steps are sequentially consistent: every access takes effect at once and for all threads. The
  source asks for less. It loads \<^verbatim>\<open>node->head\<close> in \<^verbatim>\<open>peek\<close> and \<^verbatim>\<open>node->tail\<close> in \<^verbatim>\<open>push\<close> with
  \<^verbatim>\<open>memory_order_relaxed\<close>, so the release stores they read from order nothing for them, and by the C++
  memory model the plain accesses to \<^verbatim>\<open>node->data\<close> that follow race. The theorems are about the algorithm
  where the compiler and the machine keep these accesses in order; they do not cover the executions
  that relaxed ordering adds.
\<close>

section \<open>Threads\<close>

text \<open>
  Where a thread is, with its local variables: in \<^verbatim>\<open>push\<close> after the load of \<^verbatim>\<open>_tail\<close>, after the test
  of the node, after the exchange, and after the copy; in \<^verbatim>\<open>peek\<close> after the load of \<^verbatim>\<open>_head\<close>, after
  the test, and with the copy it returned; in \<^verbatim>\<open>pop\<close> likewise, up to the store of the node's tail.
\<close>

datatype 'a producer = Idle | Loaded 'a u64 | Checked 'a u64 | Claimed 'a u64 | Stored u64

datatype 'a consumer = Ready | PeekAt u64 | ReadAt u64 | Peeked 'a | PopAt u64 | PopChecked u64 | PopOwned u64

text \<open>\<open>pushed\<close> and \<open>popped\<close> are no variables of the program: what was claimed so far, how many are gone.\<close>

record 'a lf_system =
  lfq :: "'a lf_queue"
  producers :: "nat \<Rightarrow> 'a producer"
  consumer :: "'a consumer"
  pushed :: "'a list"
  popped :: nat

definition set_prod :: "nat \<Rightarrow> 'a producer \<Rightarrow> 'a lf_system \<Rightarrow> 'a lf_system" where
  "set_prod i p s = s\<lparr>producers := (producers s)(i := p)\<rparr>"

text \<open>One access of one thread, with the orderings of a sequentially consistent execution.\<close>

inductive lf_step :: "'a lf_system \<Rightarrow> 'a lf_system \<Rightarrow> bool" where
  push_load: "producers s i = Idle \<Longrightarrow> lf_step s (set_prod i (Loaded x (lf_tail (lfq s))) s)"
| push_full: "producers s i = Loaded x t \<Longrightarrow> n_tail (node_at (lfq s) t) \<noteq> t \<Longrightarrow> lf_step s (set_prod i Idle s)"
| push_check: "producers s i = Loaded x t \<Longrightarrow> n_tail (node_at (lfq s) t) = t \<Longrightarrow>
    lf_step s (set_prod i (Checked x t) s)"
| push_retry: "producers s i = Checked x t \<Longrightarrow> lf_step s (set_prod i (Loaded x (lf_tail (lfq s))) s)"
| push_claim: "producers s i = Checked x t \<Longrightarrow> lf_tail (lfq s) = t \<Longrightarrow>
    lf_step s (set_prod i (Claimed x t) (s\<lparr>lfq := (lfq s)\<lparr>lf_tail := t + 1\<rparr>, pushed := pushed s @ [x]\<rparr>))"
| push_store: "producers s i = Claimed x t \<Longrightarrow>
    lf_step s (set_prod i (Stored t) (s\<lparr>lfq := upd_node t (\<lambda>n. n\<lparr>n_data := x\<rparr>) (lfq s)\<rparr>))"
| push_publish: "producers s i = Stored t \<Longrightarrow>
    lf_step s (set_prod i Idle (s\<lparr>lfq := upd_node t (\<lambda>n. n\<lparr>n_head := t\<rparr>) (lfq s)\<rparr>))"
| peek_load: "consumer s \<in> {Ready, Peeked v} \<Longrightarrow> lf_step s (s\<lparr>consumer := PeekAt (lf_head (lfq s))\<rparr>)"
| peek_empty: "consumer s = PeekAt h \<Longrightarrow> n_head (node_at (lfq s) h) \<noteq> h \<Longrightarrow> lf_step s (s\<lparr>consumer := Ready\<rparr>)"
| peek_check: "consumer s = PeekAt h \<Longrightarrow> n_head (node_at (lfq s) h) = h \<Longrightarrow> lf_step s (s\<lparr>consumer := ReadAt h\<rparr>)"
| peek_read: "consumer s = ReadAt h \<Longrightarrow> lf_step s (s\<lparr>consumer := Peeked (n_data (node_at (lfq s) h))\<rparr>)"
| pop_load: "consumer s \<in> {Ready, Peeked v} \<Longrightarrow> lf_step s (s\<lparr>consumer := PopAt (lf_head (lfq s))\<rparr>)"
| pop_fail: "consumer s = PopAt h \<Longrightarrow> n_head (node_at (lfq s) h) \<noteq> h \<Longrightarrow> lf_step s (s\<lparr>consumer := Ready\<rparr>)"
| pop_check: "consumer s = PopAt h \<Longrightarrow> n_head (node_at (lfq s) h) = h \<Longrightarrow> lf_step s (s\<lparr>consumer := PopChecked h\<rparr>)"
| pop_retry: "consumer s = PopChecked h \<Longrightarrow> lf_step s (s\<lparr>consumer := PopAt (lf_head (lfq s))\<rparr>)"
| pop_claim: "consumer s = PopChecked h \<Longrightarrow> lf_head (lfq s) = h \<Longrightarrow>
    lf_step s (s\<lparr>lfq := (lfq s)\<lparr>lf_head := h + 1\<rparr>, consumer := PopOwned h, popped := popped s + 1\<rparr>)"
| pop_release: "consumer s = PopOwned h \<Longrightarrow>
    lf_step s (s\<lparr>lfq := upd_node h (\<lambda>n. n\<lparr>n_tail := h + lf_capacity (lfq s)\<rparr>) (lfq s), consumer := Ready\<rparr>)"

text \<open>The system starts with a queue the constructor returned and no thread inside a call.\<close>

definition lf_start :: "'a lf_queue \<Rightarrow> 'a lf_system" where
  "lf_start q = \<lparr>lfq = q, producers = (\<lambda>_. Idle), consumer = Ready, pushed = [], popped = 0\<rparr>"

section \<open>The invariant\<close>

fun owned_ticket :: "'a producer \<Rightarrow> u64 option" where
  "owned_ticket (Claimed x t) = Some t"
| "owned_ticket (Stored t) = Some t"
| "owned_ticket _ = None"

text \<open>
  Elements carry tickets, their positions in \<open>pushed\<close>. A producer owns a ticket from the exchange
  of \<^verbatim>\<open>_tail\<close> to the store of the node's head. The nodes serve the tickets from \<open>released\<close> on.
\<close>

definition owned :: "'a lf_system \<Rightarrow> nat \<Rightarrow> bool" where
  "owned s j \<longleftrightarrow> (\<exists>i. owned_ticket (producers s i) = Some (of_nat j))"

definition released :: "'a lf_system \<Rightarrow> nat" where
  "released s = (case consumer s of PopOwned h \<Rightarrow> popped s - 1 | _ \<Rightarrow> popped s)"

definition ready :: "'a lf_system \<Rightarrow> nat \<Rightarrow> bool" where
  "ready s j \<longleftrightarrow> j < length (pushed s) \<and> \<not> owned s j"

definition node_of :: "'a lf_system \<Rightarrow> nat \<Rightarrow> 'a node" where
  "node_of s j = node_at (lfq s) (of_nat j)"

definition counters_ok :: "nat \<Rightarrow> 'a lf_system \<Rightarrow> bool" where
  "counters_ok k s \<longleftrightarrow> shape k (lfq s) \<and> lf_tail (lfq s) = of_nat (length (pushed s)) \<and>
     lf_head (lfq s) = of_nat (popped s) \<and> popped s \<le> length (pushed s) \<and>
     length (pushed s) \<le> released s + 2 ^ k"

definition nodes_ok :: "nat \<Rightarrow> 'a lf_system \<Rightarrow> bool" where
  "nodes_ok k s \<longleftrightarrow> (\<forall>j. released s \<le> j \<and> j < released s + 2 ^ k \<longrightarrow>
     n_tail (node_of s j) = of_nat j \<and> (n_head (node_of s j) = of_nat j \<longleftrightarrow> ready s j) \<and>
     (ready s j \<longrightarrow> n_data (node_of s j) = pushed s ! j))"

fun producer_ok :: "nat \<Rightarrow> 'a lf_system \<Rightarrow> 'a producer \<Rightarrow> bool" where
  "producer_ok k s Idle = True"
| "producer_ok k s (Loaded x t) = (\<exists>j \<le> length (pushed s). t = of_nat j)"
| "producer_ok k s (Checked x t) = ((\<exists>j \<le> length (pushed s). t = of_nat j) \<and>
     (t = of_nat (length (pushed s)) \<longrightarrow> length (pushed s) < released s + 2 ^ k))"
| "producer_ok k s (Claimed x t) = (\<exists>j. popped s \<le> j \<and> j < length (pushed s) \<and> t = of_nat j \<and> pushed s ! j = x)"
| "producer_ok k s (Stored t) = (\<exists>j. popped s \<le> j \<and> j < length (pushed s) \<and> t = of_nat j \<and>
     n_data (node_of s j) = pushed s ! j)"

fun consumer_ok :: "'a lf_system \<Rightarrow> 'a consumer \<Rightarrow> bool" where
  "consumer_ok s Ready = True"
| "consumer_ok s (PeekAt h) = (h = of_nat (popped s))"
| "consumer_ok s (ReadAt h) = (h = of_nat (popped s) \<and> ready s (popped s))"
| "consumer_ok s (Peeked v) = (popped s < length (pushed s) \<and> v = pushed s ! popped s)"
| "consumer_ok s (PopAt h) = (h = of_nat (popped s))"
| "consumer_ok s (PopChecked h) = (h = of_nat (popped s) \<and> ready s (popped s))"
| "consumer_ok s (PopOwned h) = (0 < popped s \<and> h = of_nat (popped s - 1) \<and> ready s (popped s - 1))"

definition tickets_ok :: "(nat \<Rightarrow> 'a producer) \<Rightarrow> bool" where
  "tickets_ok ps \<longleftrightarrow> (\<forall>i j t. owned_ticket (ps i) = Some t \<and> owned_ticket (ps j) = Some t \<longrightarrow> i = j)"

definition lf_inv :: "nat \<Rightarrow> 'a lf_system \<Rightarrow> bool" where
  "lf_inv k s \<longleftrightarrow> counters_ok k s \<and> nodes_ok k s \<and> (\<forall>i. producer_ok k s (producers s i)) \<and>
     tickets_ok (producers s) \<and> consumer_ok s (consumer s)"


section \<open>Every step keeps the invariant\<close>

lemma ticket_inj: "a < 2 ^ 64 \<Longrightarrow> b < 2 ^ 64 \<Longrightarrow> (of_nat a :: u64) = of_nat b \<longleftrightarrow> a = b"
  by (simp add: word_of_nat_eq_iff take_bit_eq_mod)

lemma released_le: "released s \<le> popped s" "popped s \<le> released s + 1"
  by (auto simp: released_def split: consumer.splits)

lemma system_simps [simp]:
  "lfq (set_prod i p s) = lfq s" "consumer (set_prod i p s) = consumer s"
  "pushed (set_prod i p s) = pushed s" "popped (set_prod i p s) = popped s"
  "producers (set_prod i p s) = (producers s)(i := p)"
  "released (set_prod i p s) = released s" "released (s\<lparr>lfq := q\<rparr>) = released s"
  "released (s\<lparr>pushed := xs\<rparr>) = released s"
  "owned (s\<lparr>lfq := q\<rparr>) = owned s" "owned (s\<lparr>consumer := c\<rparr>) = owned s" "owned (s\<lparr>pushed := xs\<rparr>) = owned s"
  "owned (s\<lparr>popped := n\<rparr>) = owned s" "ready (s\<lparr>lfq := q\<rparr>) = ready s"
  "ready (s\<lparr>consumer := c\<rparr>) = ready s" "ready (s\<lparr>popped := n\<rparr>) = ready s"
  "node_of (set_prod i p s) = node_of s" "node_of (s\<lparr>consumer := c\<rparr>) = node_of s"
  "node_of (s\<lparr>pushed := xs\<rparr>) = node_of s" "node_of (s\<lparr>popped := n\<rparr>) = node_of s"
  by (auto simp: set_prod_def released_def owned_def ready_def node_of_def fun_eq_iff split: consumer.splits)

lemma owned_set_prod:
  "owned (set_prod i p s) j \<longleftrightarrow> owned_ticket p = Some (of_nat j) \<or>
     (\<exists>i'. i' \<noteq> i \<and> owned_ticket (producers s i') = Some (of_nat j))"
  by (auto simp: owned_def)

lemma owned_cong:
  "(\<And>i. owned_ticket (producers s' i) = owned_ticket (producers s i)) \<Longrightarrow> owned s' = owned s"
  by (simp add: owned_def fun_eq_iff)

lemma producer_mono:
  assumes "producer_ok k s p" "pushed s' = pushed s" "released s \<le> released s'"
    and "\<And>j. owned_ticket p = Some (of_nat j) \<Longrightarrow> popped s \<le> j \<Longrightarrow> j < length (pushed s) \<Longrightarrow>
      popped s' \<le> j \<and> n_data (node_of s' j) = n_data (node_of s j)"
  shows "producer_ok k s' p"
  using assms by (cases p) fastforce+

text \<open>A step inside a call that moves no ticket.\<close>

lemma inv_set_prod:
  assumes inv: "lf_inv k s" and t: "owned_ticket p = owned_ticket (producers s i)" and p: "producer_ok k s p"
  shows "lf_inv k (set_prod i p s)"
proof -
  have o: "owned (set_prod i p s) = owned s" using t by (intro owned_cong) simp
  then have r: "ready (set_prod i p s) = ready s" by (simp add: ready_def fun_eq_iff)
  have "producer_ok k (set_prod i p s) p' = producer_ok k s p'" for p' by (cases p') simp_all
  moreover have "consumer_ok (set_prod i p s) c = consumer_ok s c" for c by (cases c) (simp_all add: r)
  moreover have "tickets_ok ((producers s)(i := p))"
    using inv t unfolding lf_inv_def tickets_ok_def by (metis fun_upd_apply)
  ultimately show ?thesis
    using inv p by (simp add: lf_inv_def counters_ok_def nodes_ok_def r)
qed

lemma inv_consumer:
  assumes inv: "lf_inv k s" and c: "consumer_ok s c" and r: "released (s\<lparr>consumer := c\<rparr>) = released s"
  shows "lf_inv k (s\<lparr>consumer := c\<rparr>)"
proof -
  have "producer_ok k (s\<lparr>consumer := c\<rparr>) p = producer_ok k s p" for p by (cases p) (simp_all add: r)
  moreover have "consumer_ok (s\<lparr>consumer := c\<rparr>) c' = consumer_ok s c'" for c' by (cases c') simp_all
  ultimately show ?thesis using inv c r by (simp add: lf_inv_def counters_ok_def nodes_ok_def)
qed

lemma window_node:
  assumes "shape k (lfq s)" "r \<le> i" "i < r + 2 ^ k" "r \<le> j" "j < r + 2 ^ k"
  shows "node_of (s\<lparr>lfq := upd_node (of_nat i) f (lfq s)\<rparr>) j = (if i = j then f (node_of s j) else node_of s j)"
  using at_off_upd [of k "lfq s" "j - r" "i - r" "of_nat r" f] assms
  by (auto simp: node_of_def of_nat_diff)

lemma inv_producer: "lf_inv k s \<Longrightarrow> producer_ok k s (producers s i)"
  by (simp add: lf_inv_def)

lemma nodes_okD:
  assumes "lf_inv k s" "released s \<le> j" "j < released s + 2 ^ k"
  shows "n_tail (node_of s j) = of_nat j" "n_head (node_of s j) = of_nat j \<longleftrightarrow> ready s j"
    "ready s j \<Longrightarrow> n_data (node_of s j) = pushed s ! j"
  using assms by (simp_all add: lf_inv_def nodes_ok_def)

lemma consumer_check:
  assumes "lf_inv k s" "released s = popped s" "n_head (node_at (lfq s) (of_nat (popped s))) = of_nat (popped s)"
  shows "ready s (popped s)"
  using assms by (simp add: lf_inv_def nodes_ok_def node_of_def)

lemma producer_check:
  assumes inv: "lf_inv k s" and b: "length (pushed s) + 2 ^ k < 2 ^ 64"
    and t: "n_tail (node_at (lfq s) (of_nat (length (pushed s)))) = of_nat (length (pushed s))"
  shows "length (pushed s) < released s + 2 ^ k"
proof (rule ccontr)
  assume "\<not> ?thesis"
  with inv have full: "length (pushed s) = released s + 2 ^ k" by (simp add: lf_inv_def counters_ok_def)
  have sh: "shape k (lfq s)" and k: "k < 63" using inv by (simp_all add: lf_inv_def counters_ok_def shape_def)
  have "node_ix (lfq s) (of_nat (length (pushed s))) = node_ix (lfq s) (of_nat (released s))"
    using node_ix [OF sh] word_mod_pow [OF k, of "of_nat (released s)" "2 ^ k"] by (simp add: full)
  then have "n_tail (node_at (lfq s) (of_nat (length (pushed s)))) = of_nat (released s)"
    using inv by (simp add: node_at_def lf_inv_def nodes_ok_def node_of_def)
  with t full b ticket_inj [of "released s" "length (pushed s)"] show False by simp
qed


lemma owned_before:
  assumes "lf_inv k s" "owned_ticket (producers s i) = Some t"
  shows "\<exists>j. popped s \<le> j \<and> j < length (pushed s) \<and> t = of_nat j"
proof -
  have "producer_ok k s (producers s i)" using assms(1) by (simp add: lf_inv_def)
  with assms(2) show ?thesis by (cases "producers s i") auto
qed

text \<open>The exchange of \<^verbatim>\<open>_tail\<close>.\<close>

lemma inv_push_claim:
  assumes inv: "lf_inv k s" and b: "length (pushed s) + 1 + 2 ^ k < 2 ^ 64"
    and i: "producers s i = Checked x t" "lf_tail (lfq s) = t"
  shows "lf_inv k (set_prod i (Claimed x t) (s\<lparr>lfq := (lfq s)\<lparr>lf_tail := t + 1\<rparr>, pushed := pushed s @ [x]\<rparr>))"
    (is "lf_inv k ?s")
proof -
  let ?T = "length (pushed s)"
  have cnt: "shape k (lfq s)" "t = of_nat ?T" "lf_head (lfq s) = of_nat (popped s)" "popped s \<le> ?T"
    using inv i(2) by (simp_all add: lf_inv_def counters_ok_def)
  have "producer_ok k s (Checked x t)" using inv i(1) by (metis lf_inv_def)
  then have room: "?T < released s + 2 ^ k" using cnt(2) by simp
  have other: "u \<noteq> t" if "owned_ticket (producers s i') = Some u" for i' u
    using owned_before [OF inv that] cnt(2) b ticket_inj [of _ ?T] by auto
  have rdy: "ready ?s j = ready s j" if "j < 2 ^ 64" for j
    using that b cnt(2) ticket_inj [of j ?T] i(1) other
    by (auto simp: ready_def owned_def less_Suc_eq)
  have small: "released s \<le> popped s" "popped s \<le> ?T" using released_le(1) cnt(4) by auto
  have win: "j < 2 ^ 64" if "j < released s + 2 ^ k" for j using that small b by linarith
  have nod: "node_of ?s j = node_of s j" for j by (simp add: node_of_def)
  have rel: "released ?s = released s" by (simp add: released_def split: consumer.splits)
  have "counters_ok k ?s" using cnt room by (simp add: counters_ok_def rel)
  moreover have "nodes_ok k ?s"
    using inv win rdy nod by (auto simp: lf_inv_def nodes_ok_def rel ready_def nth_append)
  moreover have "producer_ok k ?s (producers ?s i')" for i'
  proof (cases "i' = i")
    case True
    then show ?thesis using cnt small by auto
  next
    case False
    have "producer_ok k s (producers s i')" using inv by (simp add: lf_inv_def)
    then show ?thesis using False b nod rel ticket_inj [of _ "Suc ?T"]
      by (cases "producers s i'") (auto simp: nth_append le_Suc_eq)
  qed
  moreover have "tickets_ok (producers ?s)"
    using inv other unfolding lf_inv_def tickets_ok_def by (auto simp: set_prod_def)
  moreover have "consumer_ok ?s (consumer ?s)"
    using inv rdy [of "popped s"] rdy [of "popped s - 1"] small b
    by (cases "consumer s") (auto simp: lf_inv_def nth_append)
  ultimately show ?thesis by (simp add: lf_inv_def)
qed

text \<open>The copy into the claimed node.\<close>

lemma inv_push_store:
  assumes inv: "lf_inv k s" and b: "length (pushed s) + 2 ^ k < 2 ^ 64" and i: "producers s i = Claimed x t"
  shows "lf_inv k (set_prod i (Stored t) (s\<lparr>lfq := upd_node t (\<lambda>n. n\<lparr>n_data := x\<rparr>) (lfq s)\<rparr>))"
    (is "lf_inv k ?s")
proof -
  let ?T = "length (pushed s)"
  have "producer_ok k s (Claimed x t)" using inv i by (metis lf_inv_def)
  then obtain j where j: "popped s \<le> j" "j < ?T" "t = of_nat j" "pushed s ! j = x" by auto
  have sh: "shape k (lfq s)" and T: "?T \<le> released s + 2 ^ k" using inv by (simp_all add: lf_inv_def counters_ok_def)
  have jw: "released s \<le> j" "j < released s + 2 ^ k" using j released_le(1) [of s] T by linarith+
  define s2 where "s2 = ?s"
  have s2: "pushed s2 = pushed s" "producers s2 = (producers s)(i := Stored t)" "popped s2 = popped s"
    "consumer s2 = consumer s" "released s2 = released s" "counters_ok k s2 = counters_ok k s"
    by (simp_all add: s2_def released_def counters_ok_def split: consumer.splits)
  have "owned s2 = owned s" using i by (intro owned_cong) (simp add: s2)
  then have r: "ready s2 = ready s" by (simp add: s2 ready_def fun_eq_iff)
  have nod: "node_of s2 j' = (if j = j' then (node_of s j')\<lparr>n_data := x\<rparr> else node_of s j')"
    if "released s \<le> j'" "j' < released s + 2 ^ k" for j'
    using window_node [OF sh jw that] j(3) by (simp add: s2_def node_of_def)
  have "n_data (node_of s2 j') = n_data (node_of s j') \<or> j' = j" if "popped s \<le> j'" "j' < ?T" for j'
    using nod [of j'] that released_le(1) [of s] T by auto
  moreover have "owned_ticket (producers s i') = Some t \<Longrightarrow> i' = i" for i'
    using inv i unfolding lf_inv_def tickets_ok_def by (metis owned_ticket.simps(1))
  ultimately have "producer_ok k s2 (producers s i')" if "i' \<noteq> i" for i'
    using that j(1,3) s2 by (intro producer_mono [OF inv_producer [OF inv]]) auto
  moreover have "producer_ok k s2 (Stored t)" using j nod [OF jw] by (auto simp: s2)
  moreover have "nodes_ok k s2"
    unfolding nodes_ok_def s2 r using nod nodes_okD [OF inv] j(4) by simp
  moreover have "tickets_ok (producers s2)"
    using inv i unfolding lf_inv_def tickets_ok_def s2 by auto
  moreover have "consumer_ok s2 (consumer s2)"
    using inv by (cases "consumer s") (auto simp: lf_inv_def s2 r)
  ultimately have "lf_inv k s2" using inv by (simp add: lf_inv_def s2)
  then show ?thesis by (simp add: s2_def)
qed

text \<open>The store of the node's head, which hands the element to the consumer.\<close>

lemma inv_push_publish:
  assumes inv: "lf_inv k s" and b: "length (pushed s) + 2 ^ k < 2 ^ 64" and i: "producers s i = Stored t"
  shows "lf_inv k (set_prod i Idle (s\<lparr>lfq := upd_node t (\<lambda>n. n\<lparr>n_head := t\<rparr>) (lfq s)\<rparr>))"
    (is "lf_inv k ?s")
proof -
  let ?T = "length (pushed s)"
  have "producer_ok k s (Stored t)" using inv i by (metis lf_inv_def)
  then obtain j where j: "popped s \<le> j" "j < ?T" "t = of_nat j" "n_data (node_of s j) = pushed s ! j" by auto
  have sh: "shape k (lfq s)" and T: "?T \<le> released s + 2 ^ k" using inv by (simp_all add: lf_inv_def counters_ok_def)
  have jw: "released s \<le> j" "j < released s + 2 ^ k" using j released_le(1) [of s] T by linarith+
  have small: "released s + 2 ^ k \<le> ?T + 2 ^ k" using j released_le(1) [of s] by linarith
  have own: "owned_ticket (producers s i') = Some t \<Longrightarrow> i' = i" for i'
    using inv i unfolding lf_inv_def tickets_ok_def by (metis owned_ticket.simps(2))
  have ow: "owned ?s j' \<longleftrightarrow> owned s j' \<and> j' \<noteq> j" if "j' < 2 ^ 64" for j'
  proof -
    have "(of_nat j' :: u64) = t \<longleftrightarrow> j' = j" using ticket_inj [of j' j] that j b by auto
    moreover have "i' \<noteq> i" if "owned_ticket (producers s i') = Some u" "u \<noteq> t" for i' u
      using that i by auto
    ultimately show ?thesis using own by (auto simp: owned_set_prod owned_def)
  qed
  then have r: "ready ?s j' \<longleftrightarrow> ready s j' \<or> j' = j" if "j' < 2 ^ 64" for j'
    using that j by (auto simp: ready_def)
  have nod: "node_of ?s j' = (if j = j' then (node_of s j')\<lparr>n_head := t\<rparr> else node_of s j')"
    if "released s \<le> j'" "j' < released s + 2 ^ k" for j'
    using window_node [OF sh jw that] j(3) by (simp add: node_of_def)
  have rel: "released ?s = released s" by (simp add: released_def split: consumer.splits)
  have "counters_ok k ?s" using inv by (simp add: lf_inv_def counters_ok_def rel)
  moreover have "nodes_ok k ?s"
    unfolding nodes_ok_def rel
  proof (intro allI impI)
    fix j' assume w: "released s \<le> j' \<and> j' < released s + 2 ^ k"
    then have "j' < 2 ^ 64" using small b by linarith
    with w inv nod [of j'] r [of j'] j show "n_tail (node_of ?s j') = of_nat j' \<and>
        (n_head (node_of ?s j') = of_nat j' \<longleftrightarrow> ready ?s j') \<and>
        (ready ?s j' \<longrightarrow> n_data (node_of ?s j') = pushed ?s ! j')"
      by (auto simp: lf_inv_def nodes_ok_def)
  qed
  moreover have "producer_ok k ?s (producers ?s i')" for i'
  proof (cases "i' = i")
    case False
    have p: "producer_ok k s (producers s i')" using inv by (simp add: lf_inv_def)
    have "n_data (node_of ?s j') = n_data (node_of s j')" if "popped s \<le> j'" "j' < ?T" for j'
      using nod [of j'] that released_le(1) [of s] T by auto
    with p False show ?thesis by (cases "producers s i'") (auto simp: rel)
  qed simp
  moreover have "tickets_ok (producers ?s)"
    using inv i unfolding lf_inv_def tickets_ok_def by (auto simp: set_prod_def)
  moreover have "consumer_ok ?s (consumer ?s)"
    using inv r [of "popped s"] r [of "popped s - 1"] b j
    by (cases "consumer s") (auto simp: lf_inv_def)
  ultimately show ?thesis by (simp add: lf_inv_def)
qed

text \<open>The exchange of \<^verbatim>\<open>_head\<close> and the store that gives the node back.\<close>

lemma inv_pop_claim:
  assumes inv: "lf_inv k s" and b: "length (pushed s) + 2 ^ k < 2 ^ 64" and c: "consumer s = PopChecked h"
  shows "lf_inv k (s\<lparr>lfq := (lfq s)\<lparr>lf_head := h + 1\<rparr>, consumer := PopOwned h, popped := popped s + 1\<rparr>)"
    (is "lf_inv k ?s")
proof -
  define s2 where "s2 = ?s"
  have h: "h = of_nat (popped s)" "ready s (popped s)" using inv c by (auto simp: lf_inv_def)
  have s2: "pushed s2 = pushed s" "producers s2 = producers s" "popped s2 = Suc (popped s)"
    "consumer s2 = PopOwned h" "shape k (lfq s2) = shape k (lfq s)" "lf_tail (lfq s2) = lf_tail (lfq s)"
    "lf_head (lfq s2) = h + 1" "released s2 = released s"
    using c by (simp_all add: s2_def released_def)
  have r: "ready s2 = ready s" by (simp add: s2 ready_def owned_def fun_eq_iff)
  have nod: "node_of s2 = node_of s" by (simp add: s2_def node_of_def fun_eq_iff)
  have "producer_ok k s2 (producers s i)" for i
  proof -
    have p: "producer_ok k s (producers s i)" using inv by (simp add: lf_inv_def)
    have "j \<noteq> popped s" if "owned_ticket (producers s i) = Some (of_nat j)" for j
      using that h(2) by (auto simp: ready_def owned_def)
    then show ?thesis by (intro producer_mono [OF p]) (fastforce simp: s2 nod Suc_le_eq order.order_iff_strict)+
  qed
  with inv h have "lf_inv k s2"
    by (auto simp: lf_inv_def counters_ok_def nodes_ok_def s2 r nod ready_def)
  then show ?thesis by (simp add: s2_def)
qed

lemma inv_pop_release:
  assumes inv: "lf_inv k s" and b: "length (pushed s) + 2 ^ k < 2 ^ 64" and c: "consumer s = PopOwned h"
  shows "lf_inv k (s\<lparr>lfq := upd_node h (\<lambda>n. n\<lparr>n_tail := h + lf_capacity (lfq s)\<rparr>) (lfq s), consumer := Ready\<rparr>)"
    (is "lf_inv k ?s")
proof -
  let ?d = "popped s - 1"
  have h: "0 < popped s" "h = of_nat ?d" "ready s ?d" using inv c by (auto simp: lf_inv_def)
  have "released s = ?d" using c by (simp add: released_def)
  then have sh: "shape k (lfq s)" and T: "length (pushed s) \<le> ?d + 2 ^ k" "popped s \<le> length (pushed s)"
    using inv by (simp_all only: lf_inv_def counters_ok_def)
  then have k: "k < 63" "lf_capacity (lfq s) = 2 ^ k" by (simp_all add: shape_def)
  have win: "released s = ?d" "released ?s = popped s" using c by (simp_all add: released_def)
  have r: "ready ?s = ready s" by (simp add: ready_def owned_def fun_eq_iff)
  have nod: "node_of ?s j = (if j = ?d then (node_of s j)\<lparr>n_tail := h + 2 ^ k\<rparr> else node_of s j)"
    if "?d \<le> j" "j < ?d + 2 ^ k" for j
    using window_node [OF sh order_refl _ that] h(2) k(2) by (auto simp: node_of_def)
  have wrap: "node_of ?s (?d + 2 ^ k) = node_of ?s ?d"
  proof -
    have "node_ix (lfq s) (of_nat (?d + 2 ^ k)) = node_ix (lfq s) (of_nat ?d)"
      using node_ix [OF sh] word_mod_pow [OF k(1), of "of_nat ?d" "2 ^ k"] by simp
    then show ?thesis by (simp add: node_of_def node_at_def)
  qed
  have nodes: "nodes_ok k ?s"
    unfolding nodes_ok_def win
  proof (intro allI impI)
    fix j assume w: "popped s \<le> j \<and> j < popped s + 2 ^ k"
    show "n_tail (node_of ?s j) = of_nat j \<and> (n_head (node_of ?s j) = of_nat j \<longleftrightarrow> ready ?s j) \<and>
        (ready ?s j \<longrightarrow> n_data (node_of ?s j) = pushed ?s ! j)"
    proof (cases "j = ?d + 2 ^ k")
      case True
      have "n_head (node_of s ?d) = of_nat ?d" using nodes_okD(2) [OF inv, of ?d] h(3) win(1) by simp
      moreover have "(of_nat ?d :: u64) \<noteq> of_nat j"
        using ticket_inj [of ?d j] True T b by auto
      ultimately show ?thesis using True wrap nod [of ?d] h T by (auto simp: r) (auto simp: ready_def)
    next
      case False
      with w h have "?d \<le> j" "j < ?d + 2 ^ k" "j \<noteq> ?d" by linarith+
      with inv nod [of j] win show ?thesis by (auto simp: lf_inv_def nodes_ok_def r)
    qed
  qed
  have prods: "producer_ok k ?s (producers s i)" for i
  proof -
    have p: "producer_ok k s (producers s i)" using inv by (simp add: lf_inv_def)
    have "n_data (node_of ?s j) = n_data (node_of s j)" if "popped s \<le> j" "j < length (pushed s)" for j
      using nod [of j] that T by auto
    then show ?thesis using win by (intro producer_mono [OF p]) simp_all
  qed
  have "length (pushed s) \<le> popped s + 2 ^ k" using T h(1) by linarith
  then have "counters_ok k ?s" using inv win by (simp add: lf_inv_def counters_ok_def)
  with inv nodes prods show ?thesis by (simp add: lf_inv_def)
qed


lemma lf_step_inv:
  assumes "lf_step s s'" "lf_inv k s" "length (pushed s') + 2 ^ k < 2 ^ 64"
  shows "lf_inv k s'"
  using assms
proof (induction rule: lf_step.induct)
  case (push_load s i x)
  then show ?case by (intro inv_set_prod) (auto simp: lf_inv_def counters_ok_def)
next
  case (push_full s i x t)
  then show ?case by (intro inv_set_prod) simp_all
next
  case (push_check s i x t)
  then show ?case using inv_producer [of k s i] producer_check [of k s]
    by (intro inv_set_prod) auto
next
  case (push_retry s i x t)
  then show ?case by (intro inv_set_prod) (auto simp: lf_inv_def counters_ok_def)
next
  case (push_claim s i x t)
  then show ?case using inv_push_claim [of k s i x t] by simp
next
  case (push_store s i x t)
  then show ?case by (intro inv_push_store) simp_all
next
  case (push_publish s i t)
  then show ?case by (intro inv_push_publish) simp_all
next
  case (peek_load s v)
  then show ?case by (intro inv_consumer) (auto simp: released_def lf_inv_def counters_ok_def)
next
  case (peek_empty s h)
  then show ?case by (intro inv_consumer) (auto simp: released_def)
next
  case (peek_check s h)
  then have "h = of_nat (popped s)" by (simp add: lf_inv_def)
  with peek_check show ?case using consumer_check [of k s]
    by (intro inv_consumer) (auto simp: released_def)
next
  case (peek_read s h)
  then have "h = of_nat (popped s)" "ready s (popped s)" "released s = popped s"
    by (simp_all add: lf_inv_def released_def)
  with peek_read show ?case using nodes_okD(3) [of k s "popped s"]
    by (intro inv_consumer) (auto simp: released_def node_of_def ready_def)
next
  case (pop_load s v)
  then show ?case by (intro inv_consumer) (auto simp: released_def lf_inv_def counters_ok_def)
next
  case (pop_fail s h)
  then show ?case by (intro inv_consumer) (auto simp: released_def)
next
  case (pop_check s h)
  then have "h = of_nat (popped s)" by (simp add: lf_inv_def)
  with pop_check show ?case using consumer_check [of k s]
    by (intro inv_consumer) (auto simp: released_def)
next
  case (pop_retry s h)
  then show ?case by (intro inv_consumer) (auto simp: released_def lf_inv_def counters_ok_def)
next
  case (pop_claim s h)
  then show ?case by (intro inv_pop_claim) simp_all
next
  case (pop_release s h)
  then show ?case by (intro inv_pop_release) simp_all
qed

lemma lf_step_pushed: "lf_step s s' \<Longrightarrow> length (pushed s) \<le> length (pushed s')"
  by (induction rule: lf_step.induct) simp_all

lemma lf_run_inv:
  assumes "lf_step\<^sup>*\<^sup>* s s'" "lf_inv k s" "length (pushed s') + 2 ^ k < 2 ^ 64"
  shows "lf_inv k s'"
  using assms
proof (induction rule: rtranclp_induct)
  case (step s1 s2)
  then show ?case using lf_step_inv [of s1 s2 k] lf_step_pushed [of s1 s2] by simp
qed simp

text \<open>The queues of the client have the capacity 6, which the constructor rounds up to 8.\<close>

lemma LockFreeQueue_6:
  assumes "LockFreeQueue sz raw 6 pool = Inr (q, pool1)"
  shows "shape 3 q" "lf_tail q = 0" "lf_head q = 0" "lf_capacity q = 8" "capacityMask q = 7"
    "j < 8 \<Longrightarrow> node_at q (of_nat j) = \<lparr>n_data = raw j, n_tail = of_nat j, n_head = - 1\<rparr>"
proof -
  have q: "q = \<lparr>capacityMask = 7, lf_capacity = 8,
      nodes = map (\<lambda>i. \<lparr>n_data = raw i, n_tail = of_nat i, n_head = - 1\<rparr>) [0..<8], lf_tail = 0, lf_head = 0\<rparr>"
    using assms by (auto simp: LockFreeQueue_def capacity_mask_6 Let_def split: prod.splits if_splits)
  then show sh: "shape 3 q" by (simp add: shape_def mask_eq_exp_minus_1)
  show "lf_tail q = 0" "lf_head q = 0" "lf_capacity q = 8" "capacityMask q = 7" using q by simp_all
  show "node_at q (of_nat j) = \<lparr>n_data = raw j, n_tail = of_nat j, n_head = - 1\<rparr>" if "j < 8"
  proof -
    have "node_ix q (of_nat j) = j" using node_ix [OF sh] that by (simp add: unat_of_nat)
    then show ?thesis using that by (simp add: node_at_def q del: upt_rec_numeral)
  qed
qed

lemma minus_one_ticket: "j < 8 \<Longrightarrow> (- 1 :: u64) \<noteq> of_nat j"
proof -
  assume "j < 8"
  then have "(18446744073709551615 :: u64) \<noteq> of_nat j" using ticket_inj [of "2 ^ 64 - 1" j] by simp
  moreover have "(- 1 :: u64) = 18446744073709551615" by simp
  ultimately show ?thesis by metis
qed

lemma lf_start_inv:
  assumes "LockFreeQueue sz raw 6 pool = Inr (q, pool1)"
  shows "lf_inv 3 (lf_start q)"
proof -
  note q = LockFreeQueue_6 [OF assms]
  then have "nodes_ok 3 (lf_start q)"
    using q(6) minus_one_ticket by (auto simp: nodes_ok_def lf_start_def released_def ready_def node_of_def)
  with q show ?thesis
    by (simp add: lf_inv_def counters_ok_def lf_start_def released_def tickets_ok_def)
qed

lemma lf_ok_start:
  assumes "LockFreeQueue sz raw 6 pool = Inr (q, pool1)"
  shows "lf_ok 3 q" "lf_items q = []"
proof -
  note q = LockFreeQueue_6 [OF assms]
  with minus_one_ticket show "lf_ok 3 q" "lf_items q = []"
    by (auto simp: lf_ok_def lf_items_def at_off_def lf_len_def)
qed


section \<open>Properties\<close>

text \<open>
  C30: alone, the queue of the client is a bounded first-in first-out channel: for every script of
  sends and receives, the answers of \<^verbatim>\<open>push\<close>, \<^verbatim>\<open>peek\<close> and \<^verbatim>\<open>pop\<close> and the elements that wait are
  those of a list of at most 8 elements, also when the counters wrap around.
\<close>

theorem lock_free_refines_fifo:
  assumes "lf_ok k q" "channel_run push peek pop as q = (rs, q1)"
  shows "lf_ok k q1 \<and> list_run (2 ^ k) as (lf_items q) = (rs, lf_items q1)"
  by (rule lf.run_simulates [OF assms])

text \<open>A queue of one node, about to wrap around.\<close>

definition wrapping_queue :: "nat lf_queue" where
  "wrapping_queue = \<lparr>capacityMask = 0, lf_capacity = 1,
     nodes = [\<lparr>n_data = 0, n_tail = 18446744073709551615, n_head = 18446744073709551614\<rparr>],
     lf_tail = 18446744073709551615, lf_head = 18446744073709551615\<rparr>"

lemma wrapping_queue_ok: "lf_ok 0 wrapping_queue" "lf_items wrapping_queue = []"
  by (simp_all add: wrapping_queue_def lf_ok_def shape_def lf_len_def at_off_def node_at_def node_ix_def lf_items_def)

theorem lock_free_refines_fifo_witness:
  "list_run 1 [Send 4, Send 5, Recv, Send 6, Recv, Recv] ([] :: nat list) =
     ([Some 4, None, Some 4, Some 6, Some 6, None],
      lf_items (snd (channel_run push peek pop [Send 4, Send 5, Recv, Send 6, Recv, Recv] wrapping_queue)))"
proof -
  let ?as = "[Send 4, Send 5, Recv, Send 6, Recv, Recv] :: nat qop list"
  obtain rs q1 where r: "channel_run push peek pop ?as wrapping_queue = (rs, q1)" by force
  then have "rs = [Some 4, None, Some 4, Some 6, Some 6, None]"
    by (simp add: wrapping_queue_def push_def peek_def pop_def node_at_def node_ix_def upd_node_def)
  with lock_free_refines_fifo [OF wrapping_queue_ok(1) r] r show ?thesis
    by (simp add: wrapping_queue_ok)
qed

lemma lf_inv_safe:
  assumes inv: "lf_inv 3 s"
  shows "popped s \<le> length (pushed s)" "length (pushed s) \<le> popped s + 8"
    "consumer s = Peeked v \<Longrightarrow> popped s < length (pushed s) \<and> v = pushed s ! popped s"
    "producers s i = Claimed x t \<Longrightarrow> producers s j = Claimed y u \<Longrightarrow> i \<noteq> j \<Longrightarrow>
      node_ix (lfq s) t \<noteq> node_ix (lfq s) u"
    "producers s i = Claimed x t \<Longrightarrow> consumer s = ReadAt h \<Longrightarrow> node_ix (lfq s) t \<noteq> node_ix (lfq s) h"
    "\<forall>i. producers s i = Idle \<Longrightarrow> consumer s = PeekAt h \<Longrightarrow>
      n_head (node_at (lfq s) h) = h \<longleftrightarrow> popped s < length (pushed s)"
proof -
  have cnt: "popped s \<le> length (pushed s)" "length (pushed s) \<le> released s + 8" "shape 3 (lfq s)"
    using inv by (simp_all add: lf_inv_def counters_ok_def)
  then show "popped s \<le> length (pushed s)" "length (pushed s) \<le> popped s + 8"
    using released_le(1) [of s] by linarith+
  show "popped s < length (pushed s) \<and> v = pushed s ! popped s" if "consumer s = Peeked v"
    using inv that by (simp add: lf_inv_def)
  have apart: "node_ix (lfq s) (of_nat a) = node_ix (lfq s) (of_nat b) \<Longrightarrow> a = b"
    if "released s \<le> a" "a < released s + 8" "released s \<le> b" "b < released s + 8" for a b
  proof -
    assume "node_ix (lfq s) (of_nat a) = node_ix (lfq s) (of_nat b)"
    then have "a - released s = b - released s"
      using node_ix_off [OF cnt(3), of "a - released s" "b - released s" "of_nat (released s)"] that
      by (simp add: of_nat_diff)
    with that show "a = b" by linarith
  qed
  have own: "\<exists>a. popped s \<le> a \<and> a < length (pushed s) \<and> t = of_nat a" if "producers s i = Claimed x t" for i x t
    using inv_producer [OF inv, of i] that by auto
  show "node_ix (lfq s) t \<noteq> node_ix (lfq s) u"
    if "producers s i = Claimed x t" "producers s j = Claimed y u" "i \<noteq> j"
  proof
    assume e: "node_ix (lfq s) t = node_ix (lfq s) u"
    from own [OF that(1)] own [OF that(2)] e cnt(2) released_le(1) [of s] apart have "t = u"
      by (metis le_trans less_le_trans)
    with that inv show False by (auto simp: lf_inv_def tickets_ok_def)
  qed
  show "node_ix (lfq s) t \<noteq> node_ix (lfq s) h" if "producers s i = Claimed x t" "consumer s = ReadAt h"
  proof
    assume e: "node_ix (lfq s) t = node_ix (lfq s) h"
    have h: "h = of_nat (popped s)" "ready s (popped s)" using inv that(2) by (auto simp: lf_inv_def)
    from own [OF that(1)] obtain a where a: "popped s \<le> a" "a < length (pushed s)" "t = of_nat a" by blast
    have "a = popped s"
      using apart [of a "popped s"] e a h(1) cnt(2) released_le(1) [of s] by simp
    with that(1) a(3) have "owned_ticket (producers s i) = Some (of_nat (popped s))" by simp
    with h(2) show False by (auto simp: ready_def owned_def)
  qed
  show "n_head (node_at (lfq s) h) = h \<longleftrightarrow> popped s < length (pushed s)"
    if "\<forall>i. producers s i = Idle" "consumer s = PeekAt h"
  proof -
    have "released s = popped s" "h = of_nat (popped s)" using inv that(2) by (auto simp: lf_inv_def released_def)
    with nodes_okD(2) [OF inv, of "popped s"] that(1) show ?thesis
      by (simp add: node_of_def ready_def owned_def)
  qed
qed

text \<open>
  C13: in every sequentially consistent execution, under every interleaving of the accesses of any number
  of producers and one consumer, with fewer than \<open>2\<^sup>64 - 8\<close> pushes, elements are peeked in the order in which
  their pushes claimed the tail, each at its own turn, and at most 8 wait; a value being copied into a
  node is neither read nor written by another thread; and when no push is under way, \<^verbatim>\<open>peek\<close> misses no
  element. Executions that the relaxed loads of the source allow beyond these are not covered.
\<close>

theorem lock_free_fifo:
  assumes "LockFreeQueue sz raw 6 pool = Inr (q, pool1)" "lf_step\<^sup>*\<^sup>* (lf_start q) s"
    and "length (pushed s) + 8 < 2 ^ 64"
  shows "popped s \<le> length (pushed s) \<and> length (pushed s) \<le> popped s + 8 \<and>
    (\<forall>v. consumer s = Peeked v \<longrightarrow> popped s < length (pushed s) \<and> v = pushed s ! popped s) \<and>
    (\<forall>i j x y t u. producers s i = Claimed x t \<and> producers s j = Claimed y u \<and> i \<noteq> j \<longrightarrow>
      node_ix (lfq s) t \<noteq> node_ix (lfq s) u) \<and>
    (\<forall>i x t h. producers s i = Claimed x t \<and> consumer s = ReadAt h \<longrightarrow> node_ix (lfq s) t \<noteq> node_ix (lfq s) h) \<and>
    (\<forall>h. (\<forall>i. producers s i = Idle) \<and> consumer s = PeekAt h \<longrightarrow>
      (n_head (node_at (lfq s) h) = h \<longleftrightarrow> popped s < length (pushed s)))"
proof -
  have "lf_inv 3 s" using lf_run_inv [OF assms(2) lf_start_inv [OF assms(1)]] assms(3) by simp
  from lf_inv_safe [OF this] show ?thesis by blast
qed

definition example_lf :: "nat lf_queue" where
  "example_lf = fst (projr (LockFreeQueue 1 (\<lambda>_. 0) 6 example_pool))"

lemma example_lf: "LockFreeQueue 1 (\<lambda>_. 0) 6 example_pool = Inr (example_lf, snd (alloc 8 example_pool))"
  by (simp add: example_lf_def LockFreeQueue_def capacity_mask_6 example_pool_def alloc_def pad8.simps Let_def)

text \<open>Producer 3 pushes 7 and the consumer peeks it.\<close>

lemma example_lf_run:
  "\<exists>s. lf_step\<^sup>*\<^sup>* (lf_start example_lf) s \<and> pushed s = [7] \<and> popped s = 0 \<and> consumer s = Peeked 7"
proof -
  let ?s0 = "lf_start example_lf" and ?f = "\<lambda>n :: nat node. n\<lparr>n_data := 7\<rparr>" and ?g = "\<lambda>n :: nat node. n\<lparr>n_head := 0\<rparr>"
  have q: "shape 3 example_lf" "lf_tail example_lf = 0" "lf_head example_lf = 0"
    "node_at example_lf 0 = \<lparr>n_data = 0, n_tail = 0, n_head = - 1\<rparr>"
    using LockFreeQueue_6(1-3) [OF example_lf] LockFreeQueue_6(6) [OF example_lf, of 0] by simp_all
  define q1 where "q1 = upd_node 0 ?g (upd_node 0 ?f (example_lf\<lparr>lf_tail := 1\<rparr>))"
  have q1: "lf_head q1 = 0" "node_at q1 0 = \<lparr>n_data = 7, n_tail = 0, n_head = 0\<rparr>"
    using q by (simp_all add: q1_def node_at_upd)
  define s1 s2 s3 s4 where "s1 = set_prod 3 (Loaded 7 0) ?s0" and "s2 = set_prod 3 (Checked 7 0) s1"
    and "s3 = set_prod 3 (Claimed 7 0) (s2\<lparr>lfq := example_lf\<lparr>lf_tail := 1\<rparr>, pushed := [7]\<rparr>)"
    and "s4 = set_prod 3 (Stored 0) (s3\<lparr>lfq := upd_node 0 ?f (example_lf\<lparr>lf_tail := 1\<rparr>)\<rparr>)"
  define s5 where "s5 = set_prod 3 Idle (s4\<lparr>lfq := q1\<rparr>)"
  note d = s1_def s2_def s3_def s4_def s5_def set_prod_def lf_start_def
  have "lf_step ?s0 s1" using lf_step.push_load [of ?s0 3 7] q by (simp add: d)
  moreover have "lf_step s1 s2" using lf_step.push_check [of s1 3 7 0] q by (simp add: d)
  moreover have "lf_step s2 s3" using lf_step.push_claim [of s2 3 7 0] q by (simp add: d)
  moreover have "lf_step s3 s4" using lf_step.push_store [of s3 3 7 0] by (simp add: d)
  moreover have "lf_step s4 s5" using lf_step.push_publish [of s4 3 0] by (simp add: d q1_def)
  moreover have "lf_step s5 (s5\<lparr>consumer := PeekAt 0\<rparr>)" using lf_step.peek_load [of s5] q1 by (simp add: d)
  moreover have "lf_step (s5\<lparr>consumer := PeekAt 0\<rparr>) (s5\<lparr>consumer := ReadAt 0\<rparr>)"
    using lf_step.peek_check [of "s5\<lparr>consumer := PeekAt 0\<rparr>" 0] q1 by (simp add: d)
  moreover have "lf_step (s5\<lparr>consumer := ReadAt 0\<rparr>) (s5\<lparr>consumer := Peeked 7\<rparr>)"
    using lf_step.peek_read [of "s5\<lparr>consumer := ReadAt 0\<rparr>" 0] q1 by (simp add: d)
  ultimately have "lf_step\<^sup>*\<^sup>* ?s0 (s5\<lparr>consumer := Peeked 7\<rparr>)"
    by (meson converse_rtranclp_into_rtranclp rtranclp.rtrancl_refl)
  then show ?thesis by (intro exI [of _ "s5\<lparr>consumer := Peeked 7\<rparr>"]) (simp add: d)
qed

theorem lock_free_fifo_witness:
  "\<exists>s. lf_step\<^sup>*\<^sup>* (lf_start example_lf) s \<and> consumer s = Peeked 7 \<and> 7 = pushed s ! popped s"
proof -
  obtain s where s: "lf_step\<^sup>*\<^sup>* (lf_start example_lf) s" "pushed s = [7]" "popped s = 0" "consumer s = Peeked 7"
    using example_lf_run by blast
  from lock_free_fifo [OF example_lf s(1)] s show ?thesis by auto
qed

end
