(* ===== verification/File_Manager.thy ===== *)
theory File_Manager
  imports Mem_Pool Packet
begin

text \<open>
  The file side of the client, \<^verbatim>\<open>src/file_manager.cpp\<close>: a manager for reading cuts a file into data
  packets, one for writing appends the payloads it is given. What the client calls outside the
  repository is a record of functions, as on the server. The theorems show that a file arrives as
  it was sent, and where a peer can drive the writer out of the defined behaviour.
\<close>

section \<open>The outside of the client\<close>

text \<open>
  A \<^verbatim>\<open>FILE*\<close> is an address, NULL is 0; \<^verbatim>\<open>fseek\<close> is only called for the end of the file. A clock
  reading is in nanoseconds. \<^verbatim>\<open>read\<close>-like calls return \<open>Inr\<close> the bytes, or \<open>Inl k\<close> for \<open>- k\<close>.
\<close>

datatype client_ssl_error = CE_NONE | CE_SSL | CE_WANT_READ | CE_WANT_WRITE | CE_SYSCALL | CE_ZERO_RETURN | CE_OTHER

record poll_result =
  pr_ready :: int
  pr_read :: bool
  pr_write :: bool
  pr_error :: bool

record 'w cenv =
  fopen :: "bytes \<Rightarrow> bytes \<Rightarrow> 'w \<Rightarrow> u64 \<times> 'w"
  fseek_end :: "u64 \<Rightarrow> 'w \<Rightarrow> int \<times> 'w"
  ftell :: "u64 \<Rightarrow> 'w \<Rightarrow> int"
  rewind :: "u64 \<Rightarrow> 'w \<Rightarrow> 'w"
  fread :: "u64 \<Rightarrow> nat \<Rightarrow> 'w \<Rightarrow> bytes \<times> 'w"
  ferror :: "u64 \<Rightarrow> 'w \<Rightarrow> bool"
  feof :: "u64 \<Rightarrow> 'w \<Rightarrow> bool"
  fwrite :: "u64 \<Rightarrow> bytes \<Rightarrow> 'w \<Rightarrow> nat \<times> 'w"
  fclose :: "u64 \<Rightarrow> 'w \<Rightarrow> 'w"
  getenv_USER :: "'w \<Rightarrow> bytes option"
  clock_now :: "'w \<Rightarrow> int \<times> 'w"
  SSL_CTX_new :: "'w \<Rightarrow> u64 \<times> 'w"
  SSL_CTX_free :: "u64 \<Rightarrow> 'w \<Rightarrow> 'w"
  c_SSL_new :: "u64 \<Rightarrow> 'w \<Rightarrow> u64 \<times> 'w"
  c_SSL_set_fd :: "u64 \<Rightarrow> int \<Rightarrow> 'w \<Rightarrow> 'w"
  c_SSL_free :: "u64 \<Rightarrow> 'w \<Rightarrow> 'w"
  c_SSL_do_handshake :: "u64 \<Rightarrow> 'w \<Rightarrow> int \<times> 'w"
  c_SSL_get_error :: "u64 \<Rightarrow> int \<Rightarrow> 'w \<Rightarrow> client_ssl_error"
  c_SSL_read :: "u64 \<Rightarrow> int \<Rightarrow> 'w \<Rightarrow> (nat + bytes) \<times> 'w"
  c_SSL_write :: "u64 \<Rightarrow> bytes \<Rightarrow> 'w \<Rightarrow> int \<times> 'w"
  c_SSL_pending :: "u64 \<Rightarrow> 'w \<Rightarrow> bool"
  c_socket :: "'w \<Rightarrow> int \<times> 'w"
  c_getfl :: "int \<Rightarrow> 'w \<Rightarrow> int"
  c_setfl :: "int \<Rightarrow> int \<Rightarrow> 'w \<Rightarrow> 'w"
  c_connect :: "int \<Rightarrow> 'w \<Rightarrow> int \<times> 'w"
  c_in_progress :: "'w \<Rightarrow> bool"
  c_select_write :: "int \<Rightarrow> 'w \<Rightarrow> (int \<times> bool) \<times> 'w"
  c_select_any :: "int \<Rightarrow> 'w \<Rightarrow> (int \<times> bool) \<times> 'w"
  c_so_error :: "int \<Rightarrow> 'w \<Rightarrow> int"
  c_poll :: "int \<Rightarrow> bool \<Rightarrow> 'w \<Rightarrow> poll_result \<times> 'w"
  c_close :: "int \<Rightarrow> 'w \<Rightarrow> 'w"
  c_sleep :: "'w \<Rightarrow> 'w"
  c_active :: "'w \<Rightarrow> bool"

text \<open>
  What the C standard says of the files: \<open>rest w f\<close> are the bytes still to be read, \<open>stored w f\<close> those
  written. A read from a file that has bytes left and does not fail yields some of them.
\<close>

locale stdio =
  fixes E :: "'w cenv" and rest :: "'w \<Rightarrow> u64 \<Rightarrow> bytes" and stored :: "'w \<Rightarrow> u64 \<Rightarrow> bytes"
  assumes fread_rest: "fread E f n w = (bs, w') \<Longrightarrow> rest w f = bs @ rest w' f \<and> length bs \<le> n"
    and fread_empty: "fread E f n w = ([], w') \<Longrightarrow> 0 < n \<Longrightarrow> ferror E f w' \<or> feof E f w' \<and> rest w f = []"
    and fwrite_stored: "fwrite E f bs w = (n, w') \<Longrightarrow>
      n \<le> length bs \<and> stored w' = (stored w)(f := stored w f @ take n bs)"

section \<open>The manager\<close>

abbreviation FILE_BUFFER_SIZE :: nat where "FILE_BUFFER_SIZE \<equiv> 3072"

datatype fm_type = READ_FILE | WRITE_FILE

datatype fm_state = FM_EMPTY | FM_ERROR | FM_WORKING | FM_COMPLETE

record file_manager =
  fm_type :: fm_type
  fm_state :: fm_state
  progress :: u32
  file_fd :: u64
  buf :: bytes
  buf_len :: u64
  buf_cnt :: u64
  file_size :: u64

text \<open>The constructor leaves \<^verbatim>\<open>type\<close>, \<^verbatim>\<open>buf_cnt\<close> and \<^verbatim>\<open>file_size\<close> as they are in memory, here \<open>raw\<close>.\<close>

definition File_Manager_new :: "file_manager \<Rightarrow> file_manager" where
  "File_Manager_new raw = raw\<lparr>fm_state := FM_EMPTY, progress := 0, file_fd := 0, buf := [], buf_len := 0\<rparr>"

definition init_read :: "(u64 \<Rightarrow> nat \<Rightarrow> bytes) \<Rightarrow> file_manager \<Rightarrow> memory_pool \<Rightarrow> fault + (file_manager \<times> memory_pool)" where
  "init_read mem m pool =
     (let (a, pool1) = alloc (of_nat FILE_BUFFER_SIZE) pool in
      if a = 0 then Inl Died
      else Inr (m\<lparr>fm_type := READ_FILE, buf := mem a FILE_BUFFER_SIZE\<rparr>, pool1))"

definition init_write :: "file_manager \<Rightarrow> file_manager" where
  "init_write m = m\<lparr>fm_type := WRITE_FILE\<rparr>"

definition get_file_size :: "'w cenv \<Rightarrow> file_manager \<Rightarrow> 'w \<Rightarrow> int \<times> 'w" where
  "get_file_size E m w =
     (let (rc, w1) = fseek_end E (file_fd m) w in
      if rc \<noteq> 0 then (- 1, w1) else (ftell E (file_fd m) w1, rewind E (file_fd m) w1))"

text \<open>
  \<^verbatim>\<open>file_size\<close> is unsigned: the test \<^verbatim>\<open>(file_size = get_file_size()) <= 0\<close> is a test for 0, and the \<open>- 1\<close>
  of a failed \<^verbatim>\<open>fseek\<close> passes it. The result is \<open>Some f_size\<close> for \<^verbatim>\<open>true\<close>.
\<close>

definition ascii :: "string \<Rightarrow> bytes" where
  "ascii s = map of_char s"

definition read_file :: "'w cenv \<Rightarrow> bytes \<Rightarrow> file_manager \<Rightarrow> 'w \<Rightarrow> fault + (u64 option \<times> file_manager \<times> 'w)" where
  "read_file E path m w =
     bindE (assertE (fm_type m = READ_FILE)) (\<lambda>_.
       let (fd, w1) = fopen E path (ascii ''rb'') w; m1 = m\<lparr>file_fd := fd\<rparr> in
       if fd = 0 then Inr (None, m1, w1)
       else let (n, w2) = get_file_size E m1 w1; m2 = m1\<lparr>file_size := of_int n\<rparr> in
         if file_size m2 = 0 then Inr (None, m2, w2)
         else Inr (Some (file_size m2),
                   m2\<lparr>buf_len := 0, buf_cnt := 0, fm_state := FM_WORKING, progress := 0\<rparr>, w2))"

definition write_file :: "'w cenv \<Rightarrow> bytes \<Rightarrow> u64 \<Rightarrow> file_manager \<Rightarrow> 'w \<Rightarrow> fault + (bool \<times> file_manager \<times> 'w)" where
  "write_file E filename f_size m w =
     bindE (assertE (fm_type m = WRITE_FILE)) (\<lambda>_.
       case getenv_USER E w of
         None \<Rightarrow> Inr (False, m, w)
       | Some env_name \<Rightarrow>
           let download_path = ascii ''/home/'' @ env_name @ ascii ''/Downloads/'' @ filename;
               (fd, w1) = fopen E download_path (ascii ''wb'') w; m1 = m\<lparr>file_fd := fd\<rparr> in
           if fd = 0 then Inr (False, m1, w1)
           else Inr (True, m1\<lparr>fm_state := FM_WORKING, file_size := f_size, buf_len := 0, progress := 0\<rparr>, w1))"

definition fm_close :: "'w cenv \<Rightarrow> file_manager \<Rightarrow> 'w \<Rightarrow> file_manager \<times> 'w" where
  "fm_close E m w = (m\<lparr>fm_state := FM_EMPTY\<rparr>, fclose E (file_fd m) w)"

section \<open>Reading\<close>

text \<open>\<^verbatim>\<open>d.transfer_data\<close>: the writers, and the payload, of which a packet holds 1416 bytes.\<close>

abbreviation DATA_MAX :: nat where "DATA_MAX \<equiv> 1416"

definition set_td_t_id :: "transfer_id \<Rightarrow> packet \<Rightarrow> packet" where "set_td_t_id v p = put_u64 8 v p"
definition set_td_b_size :: "u64 \<Rightarrow> packet \<Rightarrow> packet" where "set_td_b_size v p = put_u64 16 v p"
definition set_td_bytes :: "bytes \<Rightarrow> packet \<Rightarrow> packet" where "set_td_bytes bs p = put_bytes 24 bs p"
definition td_bytes :: "nat \<Rightarrow> packet \<Rightarrow> bytes" where "td_bytes n p = get_bytes 24 n p"

text \<open>A percentage: the product is a \<^verbatim>\<open>long\<close>, the division unsigned.\<close>

definition percent_read :: "int \<Rightarrow> u64 \<Rightarrow> fault + u32" where
  "percent_read pos n =
     (if n = 0 \<or> pos * 100 < - (2 ^ 63) \<or> 2 ^ 63 \<le> pos * 100 then Inl Undefined
      else Inr (ucast ((of_int (pos * 100) :: u64) div n)))"

text \<open>The part of \<^verbatim>\<open>read_from_file\<close> that fills the buffer; \<open>Some b\<close> is \<^verbatim>\<open>return b\<close>.\<close>

definition fill_buffer :: "'w cenv \<Rightarrow> file_manager \<Rightarrow> 'w \<Rightarrow> fault + (bool option \<times> file_manager \<times> 'w)" where
  "fill_buffer E m w =
     (if buf_len m \<noteq> 0 then Inr (None, m, w)
      else let (bs, w1) = fread E (file_fd m) FILE_BUFFER_SIZE w in
        if length (buf m) < length bs then Inl Undefined
        else let m1 = m\<lparr>buf := put_bytes 0 bs (buf m), buf_len := of_nat (length bs)\<rparr> in
          if buf_len m1 = 0 \<and> ferror E (file_fd m) w1 then Inr (Some False, m1, w1)
          else if buf_len m1 = 0 \<and> feof E (file_fd m) w1
               then Inr (Some True, m1\<lparr>fm_state := FM_COMPLETE\<rparr>, w1)
               else Inr (None, m1\<lparr>buf_cnt := 0\<rparr>, w1))"

definition send_chunk :: "'w cenv \<Rightarrow> file_manager \<Rightarrow> packet \<Rightarrow> 'w \<Rightarrow> fault + (file_manager \<times> packet)" where
  "send_chunk E m p w =
     (let n = min (buf_len m) (of_nat DATA_MAX);
          p1 = set_td_b_size n (PACKET_HDR P_TRANSFER_DATA sizeof_transfer_data p)
      in if length (buf m) < unat (buf_cnt m) + unat n then Inl Undefined
         else bindE (percent_read (ftell E (file_fd m) w) (file_size m)) (\<lambda>pc.
                Inr (m\<lparr>buf_len := buf_len m - n, buf_cnt := buf_cnt m + n, progress := pc\<rparr>,
                     set_td_bytes (get_bytes (unat (buf_cnt m)) (unat n) (buf m)) p1)))"

definition read_from_file :: "'w cenv \<Rightarrow> file_manager \<Rightarrow> packet \<Rightarrow> 'w \<Rightarrow> fault + (bool \<times> file_manager \<times> packet \<times> 'w)" where
  "read_from_file E m p w =
     bindE (assertE (file_fd m \<noteq> 0)) (\<lambda>_.
     bindE (fill_buffer E m w) (\<lambda>(r, m1, w1).
       case r of
         Some b \<Rightarrow> Inr (b, m1, p, w1)
       | None \<Rightarrow> bindE (send_chunk E m1 p w1) (\<lambda>(m2, p1). Inr (True, m2, p1, w1))))"

definition read_work :: "'w cenv \<Rightarrow> file_manager \<Rightarrow> packet \<Rightarrow> 'w \<Rightarrow> fault + (fm_state \<times> file_manager \<times> packet \<times> 'w)" where
  "read_work E m p w =
     bindE (if fm_state m = FM_WORKING
            then bindE (read_from_file E m p w) (\<lambda>(b, m1, p1, w1).
                   Inr (if b then m1 else m1\<lparr>fm_state := FM_ERROR\<rparr>, p1, w1))
            else Inr (m, p, w)) (\<lambda>(m1, p1, w1). Inr (fm_state m1, m1, p1, w1))"

section \<open>Writing\<close>

text \<open>The size comes from the packet: more than it holds is a read behind it.\<close>

definition write_work :: "'w cenv \<Rightarrow> file_manager \<Rightarrow> packet \<Rightarrow> 'w \<Rightarrow> fault + (fm_state \<times> file_manager \<times> 'w)" where
  "write_work E m p w =
     (if fm_state m \<noteq> FM_WORKING then Inr (fm_state m, m, w)
      else if length p < 24 + unat (td_b_size p) then Inl Undefined
      else let (n, w1) = fwrite E (file_fd m) (td_bytes (unat (td_b_size p)) p) w in
        bindE (assertE (n = unat (td_b_size p))) (\<lambda>_.
          let len = buf_len m + of_nat n in
          if file_size m = 0 then Inl Undefined
          else Inr (fm_state m, m\<lparr>buf_len := len, progress := ucast (len * 100 div file_size m)\<rparr>, w1)))"


section \<open>Reading a file\<close>

definition reader_ok :: "file_manager \<Rightarrow> bool" where
  "reader_ok m \<longleftrightarrow> length (buf m) = FILE_BUFFER_SIZE \<and> unat (buf_cnt m) + unat (buf_len m) \<le> FILE_BUFFER_SIZE"

text \<open>What is still to be sent: the rest of the buffer and the rest of the file.\<close>

definition buffered :: "file_manager \<Rightarrow> bytes" where
  "buffered m = get_bytes (unat (buf_cnt m)) (unat (buf_len m)) (buf m)"

definition payload :: "packet \<Rightarrow> bytes" where
  "payload p = td_bytes (unat (td_b_size p)) p"

definition data_packet :: "packet \<Rightarrow> bool" where
  "data_packet p \<longleftrightarrow> length p = PACKET_MAX_SIZE \<and> hdr_type p = P_TRANSFER_DATA \<and>
     hdr_size p = of_nat sizeof_transfer_data \<and> unat (td_b_size p) \<le> DATA_MAX"

lemmas data_field_defs = packet_field_defs set_td_t_id_def set_td_b_size_def set_td_bytes_def td_bytes_def

lemma payload_set_t_id: "length p = PACKET_MAX_SIZE \<Longrightarrow> payload (set_td_t_id t p) = payload p"
  "length p = PACKET_MAX_SIZE \<Longrightarrow> data_packet (set_td_t_id t p) = data_packet p"
  "length p = PACKET_MAX_SIZE \<Longrightarrow> td_t_id (set_td_t_id t p) = t"
  by (simp_all add: payload_def data_packet_def data_field_defs byte_simps)

lemma unat_min: "unat (min a b :: u64) = min (unat a) (unat b)"
  by (simp add: min_def word_le_nat_alt)

lemma get_bytes_split: "n \<le> k \<Longrightarrow> get_bytes off k p = get_bytes off n p @ get_bytes (off + n) (k - n) p"
  using take_add [of n "k - n" "drop off p"] by (simp add: get_bytes_def drop_drop add.commute)

lemma send_chunk_spec:
  assumes "reader_ok m" "length p = PACKET_MAX_SIZE" "buf_len m \<noteq> 0" "file_size m \<noteq> 0"
    and "0 \<le> ftell E (file_fd m) w" "ftell E (file_fd m) w * 100 < 2 ^ 63"
  shows "\<exists>m1 p1. send_chunk E m p w = Inr (m1, p1) \<and> data_packet p1 \<and> payload p1 \<noteq> [] \<and>
    buffered m = payload p1 @ buffered m1 \<and> reader_ok m1 \<and> file_fd m1 = file_fd m \<and>
    file_size m1 = file_size m \<and> fm_state m1 = fm_state m \<and> fm_type m1 = fm_type m"
proof -
  define n where "n = min (buf_len m) (of_nat DATA_MAX)"
  have n: "unat n \<le> 1416" "unat n \<le> unat (buf_len m)" "0 < unat n"
    using assms(3) by (simp_all add: n_def unat_min unat_gt_0)
  have len: "unat (buf_cnt m) + unat (buf_len m) \<le> 3072" "length (buf m) = 3072"
    using assms(1) by (simp_all add: reader_ok_def)
  define c where "c = get_bytes (unat (buf_cnt m)) (unat n) (buf m)"
  have lc: "length c = unat n" using len n by (simp add: c_def length_get_bytes)
  obtain pc where pc: "percent_read (ftell E (file_fd m) w) (file_size m) = Inr pc"
    using assms(4-6) by (simp add: percent_read_def)
  define m1 where "m1 = m\<lparr>buf_len := buf_len m - n, buf_cnt := buf_cnt m + n, progress := pc\<rparr>"
  define p1 where "p1 = set_td_bytes c (set_td_b_size n (PACKET_HDR P_TRANSFER_DATA sizeof_transfer_data p))"
  have run: "send_chunk E m p w = Inr (m1, p1)"
    unfolding send_chunk_def Let_def n_def [symmetric] using len n pc by (simp add: m1_def p1_def c_def)
  have p1: "data_packet p1" "payload p1 = c"
    using lc n assms(2) by (simp_all add: p1_def data_packet_def payload_def data_field_defs byte_simps)
  have w: "unat (buf_len m - n) = unat (buf_len m) - unat n" "unat (buf_cnt m + n) = unat (buf_cnt m) + unat n"
    using n len by (simp_all add: unat_sub_if' unat_word_ariths)
  have "buffered m = c @ buffered m1"
    using get_bytes_split [OF n(2)] by (simp add: buffered_def m1_def c_def w)
  moreover have "reader_ok m1" using len n by (simp add: reader_ok_def m1_def w)
  moreover have "c \<noteq> []" using lc n by auto
  ultimately show ?thesis using run p1 by (auto simp: m1_def)
qed

context stdio
begin

lemma fill_buffer_spec:
  assumes "reader_ok m" "\<forall>v. \<not> ferror E (file_fd m) v"
  shows "\<exists>r m1 w1. fill_buffer E m w = Inr (r, m1, w1) \<and> reader_ok m1 \<and> file_fd m1 = file_fd m \<and>
    file_size m1 = file_size m \<and> fm_type m1 = fm_type m \<and>
    buffered m1 @ rest w1 (file_fd m) = buffered m @ rest w (file_fd m) \<and>
    (if buffered m @ rest w (file_fd m) = [] then r = Some True \<and> fm_state m1 = FM_COMPLETE
     else r = None \<and> buf_len m1 \<noteq> 0 \<and> fm_state m1 = fm_state m)"
proof (cases "buf_len m = 0")
  case False
  moreover have "buffered m \<noteq> []"
    using False assms(1) length_get_bytes [of "unat (buf_cnt m)" "unat (buf_len m)" "buf m"] unat_gt_0 [of "buf_len m"]
    by (auto simp: buffered_def reader_ok_def)
  ultimately show ?thesis using assms(1) by (auto simp: fill_buffer_def)
next
  case True
  obtain bs w1 where f: "fread E (file_fd m) 3072 w = (bs, w1)" by force
  note rest = fread_rest [OF f]
  have b0: "buffered m = []" using True by (simp add: buffered_def get_bytes_def)
  have len: "length (buf m) = 3072" using assms(1) by (simp add: reader_ok_def)
  define m1 where "m1 = m\<lparr>buf := put_bytes 0 bs (buf m), buf_len := of_nat (length bs)\<rparr>"
  have u: "unat (of_nat (length bs) :: u64) = length bs" using rest by (simp add: unat_of_nat)
  have z: "(of_nat (length bs) :: u64) = 0 \<longleftrightarrow> bs = []"
    using u by (metis length_0_conv unat_eq_zero)
  show ?thesis
  proof (cases "bs = []")
    case True
    with f fread_empty [of "file_fd m" 3072 w w1] assms(2) have "feof E (file_fd m) w1" "rest w (file_fd m) = []"
      by auto
    then show ?thesis using True f rest b0 assms \<open>buf_len m = 0\<close>
      by (simp add: fill_buffer_def reader_ok_def put_bytes_def buffered_def get_bytes_def)
  next
    case False
    have "buffered (m1\<lparr>buf_cnt := 0\<rparr>) = bs"
      using rest len by (simp add: buffered_def m1_def u get_put_same)
    moreover have "reader_ok (m1\<lparr>buf_cnt := 0\<rparr>)"
      using rest len by (simp add: reader_ok_def m1_def u length_put_bytes)
    ultimately show ?thesis using False f rest b0 len z True by (simp add: fill_buffer_def m1_def)
  qed
qed

lemma read_work_spec:
  assumes "reader_ok m" "length p = PACKET_MAX_SIZE" "fm_state m = FM_WORKING" "file_fd m \<noteq> 0" "file_size m \<noteq> 0"
    and "\<forall>v. \<not> ferror E (file_fd m) v \<and> 0 \<le> ftell E (file_fd m) v \<and> ftell E (file_fd m) v * 100 < 2 ^ 63"
  shows "\<exists>m1 p1 w1. read_work E m p w = Inr (fm_state m1, m1, p1, w1) \<and> reader_ok m1 \<and> file_fd m1 = file_fd m \<and>
    file_size m1 = file_size m \<and> length p1 = PACKET_MAX_SIZE \<and>
    (if buffered m @ rest w (file_fd m) = [] then fm_state m1 = FM_COMPLETE
     else fm_state m1 = FM_WORKING \<and> data_packet p1 \<and> payload p1 \<noteq> [] \<and>
       buffered m @ rest w (file_fd m) = payload p1 @ buffered m1 @ rest w1 (file_fd m))"
proof -
  from fill_buffer_spec [OF assms(1), of w] assms(6) obtain r m1 w1 where
    f: "fill_buffer E m w = Inr (r, m1, w1)" "reader_ok m1" "file_fd m1 = file_fd m" "file_size m1 = file_size m"
      "buffered m1 @ rest w1 (file_fd m) = buffered m @ rest w (file_fd m)"
      "if buffered m @ rest w (file_fd m) = [] then r = Some True \<and> fm_state m1 = FM_COMPLETE
       else r = None \<and> buf_len m1 \<noteq> 0 \<and> fm_state m1 = fm_state m" by blast
  show ?thesis
  proof (cases "buffered m @ rest w (file_fd m) = []")
    case True
    with f assms(2-4) show ?thesis by (simp add: read_work_def read_from_file_def)
  next
    case False
    with f(6) have r: "r = None" "buf_len m1 \<noteq> 0" "fm_state m1 = fm_state m" by simp_all
    have "0 \<le> ftell E (file_fd m1) w1" "ftell E (file_fd m1) w1 * 100 < 2 ^ 63" "file_size m1 \<noteq> 0"
      using assms(5,6) f by simp_all
    from send_chunk_spec [OF f(2) assms(2) r(2) this(3,1,2)] obtain m2 p1 where
      c: "send_chunk E m1 p w1 = Inr (m2, p1)" "data_packet p1" "payload p1 \<noteq> []"
        "buffered m1 = payload p1 @ buffered m2" "reader_ok m2" "file_fd m2 = file_fd m1"
        "file_size m2 = file_size m1" "fm_state m2 = fm_state m1" by blast
    have "read_work E m p w = Inr (fm_state m2, m2, p1, w1)"
      using f(1) r c assms(3,4) by (simp add: read_work_def read_from_file_def)
    moreover have "length p1 = PACKET_MAX_SIZE" using c(2) by (simp add: data_packet_def)
    ultimately show ?thesis using False c f r assms(3) by auto
  qed
qed

end


section \<open>Whole files\<close>

text \<open>The packets of a file: \<^verbatim>\<open>read_work\<close> until the manager is no longer working.\<close>

fun read_all :: "'w cenv \<Rightarrow> nat \<Rightarrow> file_manager \<Rightarrow> packet \<Rightarrow> 'w \<Rightarrow> fault + (packet list \<times> file_manager \<times> 'w)" where
  "read_all E n m p w =
     bindE (read_work E m p w) (\<lambda>(st, m1, p1, w1).
       if st \<noteq> FM_WORKING then Inr ([], m1, w1)
       else case n of 0 \<Rightarrow> Inl Out_Of_Fuel
            | Suc k \<Rightarrow> bindE (read_all E k m1 p1 w1) (\<lambda>(ps, m2, w2). Inr (p1 # ps, m2, w2)))"

declare read_all.simps [simp del]

fun write_all :: "'w cenv \<Rightarrow> file_manager \<Rightarrow> packet list \<Rightarrow> 'w \<Rightarrow> fault + (file_manager \<times> 'w)" where
  "write_all E m [] w = Inr (m, w)"
| "write_all E m (p # ps) w = bindE (write_work E m p w) (\<lambda>(_, m1, w1). write_all E m1 ps w1)"

context stdio
begin

lemma read_all_spec:
  assumes "reader_ok m" "length p = PACKET_MAX_SIZE" "fm_state m = FM_WORKING" "file_fd m \<noteq> 0" "file_size m \<noteq> 0"
    and "\<forall>v. \<not> ferror E (file_fd m) v \<and> 0 \<le> ftell E (file_fd m) v \<and> ftell E (file_fd m) v * 100 < 2 ^ 63"
    and "length (buffered m @ rest w (file_fd m)) \<le> n"
  shows "\<exists>ps m1 w1. read_all E n m p w = Inr (ps, m1, w1) \<and> fm_state m1 = FM_COMPLETE \<and>
    (\<forall>q \<in> set ps. data_packet q \<and> payload q \<noteq> []) \<and> concat (map payload ps) = buffered m @ rest w (file_fd m)"
  using assms
proof (induction n arbitrary: m p w)
  case (0 m p w)
  then have nil: "buffered m @ rest w (file_fd m) = []" by simp
  from read_work_spec [OF 0(1-6), of w] nil obtain m1 p1 w1 where
    "read_work E m p w = Inr (fm_state m1, m1, p1, w1)" "fm_state m1 = FM_COMPLETE" by auto
  with nil show ?case by (subst read_all.simps) simp
next
  case (Suc n m p w)
  from read_work_spec [OF Suc.prems(1-6), of w] obtain m1 p1 w1 where
    r: "read_work E m p w = Inr (fm_state m1, m1, p1, w1)" "reader_ok m1" "file_fd m1 = file_fd m"
      "file_size m1 = file_size m" "length p1 = PACKET_MAX_SIZE"
      "if buffered m @ rest w (file_fd m) = [] then fm_state m1 = FM_COMPLETE
       else fm_state m1 = FM_WORKING \<and> data_packet p1 \<and> payload p1 \<noteq> [] \<and>
         buffered m @ rest w (file_fd m) = payload p1 @ buffered m1 @ rest w1 (file_fd m)" by blast
  show ?case
  proof (cases "buffered m @ rest w (file_fd m) = []")
    case True
    with r show ?thesis by (subst read_all.simps) simp
  next
    case False
    with r(6) have c: "fm_state m1 = FM_WORKING" "data_packet p1" "payload p1 \<noteq> []"
      "buffered m @ rest w (file_fd m) = payload p1 @ buffered m1 @ rest w1 (file_fd m)" by simp_all
    have "length (buffered m1 @ rest w1 (file_fd m1)) \<le> n"
      using Suc.prems(7) c(3,4) r(3) by (cases "payload p1") auto
    with Suc.IH [OF r(2,5) c(1)] r(3,4) Suc.prems(4-6) obtain ps m2 w2 where
      "read_all E n m1 p1 w1 = Inr (ps, m2, w2)" "fm_state m2 = FM_COMPLETE"
      "\<forall>q \<in> set ps. data_packet q \<and> payload q \<noteq> []" "concat (map payload ps) = buffered m1 @ rest w1 (file_fd m1)"
      by metis
    with r c show ?thesis by (subst read_all.simps) auto
  qed
qed

lemma write_work_spec:
  assumes "data_packet p" "fm_state m = FM_WORKING" "file_size m \<noteq> 0"
    and "\<forall>f bs v. fst (fwrite E f bs v) = length bs"
  shows "\<exists>m1 w1. write_work E m p w = Inr (FM_WORKING, m1, w1) \<and> fm_state m1 = FM_WORKING \<and>
    file_size m1 = file_size m \<and> file_fd m1 = file_fd m \<and>
    buf_len m1 = buf_len m + of_nat (length (payload p)) \<and>
    stored w1 (file_fd m) = stored w (file_fd m) @ payload p"
proof -
  have len: "length p = 1440" "unat (td_b_size p) \<le> 1416" using assms(1) by (simp_all add: data_packet_def)
  then have lp: "length (payload p) = unat (td_b_size p)"
    by (simp add: payload_def td_bytes_def length_get_bytes)
  obtain w1 where f: "fwrite E (file_fd m) (payload p) w = (length (payload p), w1)"
    using assms(4) by (metis prod.collapse)
  from fwrite_stored [OF f] show ?thesis
    using f len lp assms(2,3) by (simp add: write_work_def payload_def)
qed

lemma write_all_spec:
  "\<forall>p \<in> set ps. data_packet p \<Longrightarrow> fm_state m = FM_WORKING \<Longrightarrow> file_size m \<noteq> 0 \<Longrightarrow>
   \<forall>f bs v. fst (fwrite E f bs v) = length bs \<Longrightarrow>
   \<exists>m1 w1. write_all E m ps w = Inr (m1, w1) \<and>
     buf_len m1 = buf_len m + of_nat (length (concat (map payload ps))) \<and>
     stored w1 (file_fd m) = stored w (file_fd m) @ concat (map payload ps)"
proof (induction ps arbitrary: m w)
  case (Cons p ps)
  from write_work_spec [of p m w] Cons.prems obtain m1 w1 where
    "write_work E m p w = Inr (FM_WORKING, m1, w1)" "fm_state m1 = FM_WORKING"
    "file_size m1 = file_size m" "file_fd m1 = file_fd m"
    "buf_len m1 = buf_len m + of_nat (length (payload p))"
    "stored w1 (file_fd m) = stored w (file_fd m) @ payload p" by auto
  with Cons.IH [of m1 w1] Cons.prems show ?case by (auto simp: algebra_simps)
qed simp

end

section \<open>A machine with files and TLS streams\<close>

text \<open>
  \<open>d_rest f\<close> and \<open>d_stored f\<close>: the bytes of a file still to be read, and those written; \<open>d_taken\<close> and
  \<open>d_arriving\<close> the plain bytes TLS has taken and will deliver. Every path opens the file 1.
\<close>

record disk =
  d_rest :: "u64 \<Rightarrow> bytes"
  d_stored :: "u64 \<Rightarrow> bytes"
  d_opened :: "bytes list"
  d_time :: nat
  d_taken :: bytes
  d_arriving :: bytes

definition disk_env :: "disk cenv" where
  "disk_env = \<lparr>
     fopen = (\<lambda>path _ w. (1, w\<lparr>d_opened := d_opened w @ [path]\<rparr>)), fseek_end = (\<lambda>_ w. (0, w)),
     ftell = (\<lambda>f w. int (length (d_rest w f)) mod 1024), rewind = (\<lambda>_ w. w),
     fread = (\<lambda>f n w. (take n (d_rest w f), w\<lparr>d_rest := (d_rest w)(f := drop n (d_rest w f))\<rparr>)),
     ferror = (\<lambda>_ _. False), feof = (\<lambda>f w. d_rest w f = []),
     fwrite = (\<lambda>f bs w. (length bs, w\<lparr>d_stored := (d_stored w)(f := d_stored w f @ bs)\<rparr>)),
     fclose = (\<lambda>_ w. w), getenv_USER = (\<lambda>_. Some (ascii ''qs'')),
     clock_now = (\<lambda>w. (int (d_time w), w\<lparr>d_time := d_time w + 2000000\<rparr>)),
     SSL_CTX_new = (\<lambda>w. (1, w)), SSL_CTX_free = (\<lambda>_ w. w), c_SSL_new = (\<lambda>_ w. (2, w)),
     c_SSL_set_fd = (\<lambda>_ _ w. w), c_SSL_free = (\<lambda>_ w. w), c_SSL_do_handshake = (\<lambda>_ w. (1, w)),
     c_SSL_get_error = (\<lambda>_ k _. if 0 < k then CE_NONE else CE_WANT_READ),
     c_SSL_read = (\<lambda>_ k w. (if nat k = 0 \<or> d_arriving w = [] then Inl 1 else Inr (take (nat k) (d_arriving w)),
       w\<lparr>d_arriving := drop (nat k) (d_arriving w)\<rparr>)),
     c_SSL_write = (\<lambda>_ bs w. (int (length bs), w\<lparr>d_taken := d_taken w @ bs\<rparr>)),
     c_SSL_pending = (\<lambda>_ w. d_arriving w \<noteq> []),
     c_socket = (\<lambda>w. (3, w)), c_getfl = (\<lambda>_ _. 0), c_setfl = (\<lambda>_ _ w. w), c_connect = (\<lambda>_ w. (0, w)),
     c_in_progress = (\<lambda>_. False), c_select_write = (\<lambda>_ w. ((1, True), w)), c_select_any = (\<lambda>_ w. ((1, True), w)),
     c_so_error = (\<lambda>_ _. 0),
     c_poll = (\<lambda>_ want w. (\<lparr>pr_ready = 1, pr_read = d_arriving w \<noteq> [], pr_write = want, pr_error = False\<rparr>, w)),
     c_close = (\<lambda>_ w. w), c_sleep = (\<lambda>w. w), c_active = (\<lambda>_. True)\<rparr>"

interpretation disk_io: stdio disk_env d_rest d_stored
  by unfold_locales (auto simp: disk_env_def)

section \<open>Properties\<close>

text \<open>
  C11: a file arrives as it was sent: when reading does not fail and writing is complete, the
  packets \<^verbatim>\<open>read_work\<close> makes of an open file, labelled with any transfer id, are well-formed data
  packets, end with \<^verbatim>\<open>COMPLETE\<close> after at most one packet for each byte, and \<^verbatim>\<open>write_work\<close> on the
  receiving side appends exactly the bytes of the file and counts them.
\<close>

theorem file_roundtrip:
  assumes "stdio E rest stored" "stdio F rest' stored'"
    and "reader_ok m" "length p = PACKET_MAX_SIZE" "fm_state m = FM_WORKING" "file_fd m \<noteq> 0" "file_size m \<noteq> 0"
    and "buf_len m = 0" "length (rest w (file_fd m)) \<le> n"
    and "\<forall>v. \<not> ferror E (file_fd m) v \<and> 0 \<le> ftell E (file_fd m) v \<and> ftell E (file_fd m) v * 100 < 2 ^ 63"
    and "fm_state r = FM_WORKING" "file_size r \<noteq> 0" "\<forall>f bs v. fst (fwrite F f bs v) = length bs"
  shows "\<exists>ps m1 w1 r1 v1. read_all E n m p w = Inr (ps, m1, w1) \<and> fm_state m1 = FM_COMPLETE \<and>
    (\<forall>q \<in> set ps. data_packet q) \<and> length ps \<le> length (rest w (file_fd m)) \<and>
    write_all F r (map (set_td_t_id t) ps) v = Inr (r1, v1) \<and>
    stored' v1 (file_fd r) = stored' v (file_fd r) @ rest w (file_fd m) \<and>
    buf_len r1 = buf_len r + of_nat (length (rest w (file_fd m)))"
proof -
  have b: "buffered m = []" using assms(8) by (simp add: buffered_def get_bytes_def)
  from stdio.read_all_spec [OF assms(1,3-7,10), of w n] assms(9) b obtain ps m1 w1 where
    r: "read_all E n m p w = Inr (ps, m1, w1)" "fm_state m1 = FM_COMPLETE"
      "\<forall>q \<in> set ps. data_packet q \<and> payload q \<noteq> []" "concat (map payload ps) = rest w (file_fd m)" by auto
  then have len: "\<forall>q \<in> set ps. length q = PACKET_MAX_SIZE" by (simp add: data_packet_def)
  have "length qs \<le> length (concat (map payload qs))" if "\<forall>q \<in> set qs. payload q \<noteq> []" for qs
    using that by (induction qs) (simp_all add: Suc_le_eq add_strict_increasing)
  then have "length ps \<le> length (rest w (file_fd m))" using r(3,4) by metis
  moreover have l: "map payload (map (set_td_t_id t) ps) = map payload ps"
    using len payload_set_t_id(1) by simp
  moreover have "\<forall>q \<in> set (map (set_td_t_id t) ps). data_packet q"
    using len r(3) payload_set_t_id(2) by simp
  from stdio.write_all_spec [OF assms(2) this assms(11-13), of v] obtain r1 v1 where
    "write_all F r (map (set_td_t_id t) ps) v = Inr (r1, v1)"
    "buf_len r1 = buf_len r + of_nat (length (rest w (file_fd m)))"
    "stored' v1 (file_fd r) = stored' v (file_fd r) @ rest w (file_fd m)"
    unfolding l r(4) by blast
  ultimately show ?thesis using r(1-3) by blast
qed

definition example_reader_fm :: file_manager where
  "example_reader_fm = \<lparr>fm_type = READ_FILE, fm_state = FM_WORKING, progress = 0, file_fd = 1,
     buf = replicate 3072 0, buf_len = 0, buf_cnt = 0, file_size = 3\<rparr>"

definition example_disk :: disk where
  "example_disk = \<lparr>d_rest = (\<lambda>_. [1, 2, 3]), d_stored = (\<lambda>_. []), d_opened = [], d_time = 0, d_taken = [], d_arriving = []\<rparr>"

theorem file_roundtrip_witness:
  "\<exists>ps m1 w1 r1 v1. read_all disk_env 3 example_reader_fm zero_packet example_disk = Inr (ps, m1, w1) \<and>
    write_all disk_env (example_reader_fm\<lparr>fm_type := WRITE_FILE\<rparr>) (map (set_td_t_id 7) ps) example_disk = Inr (r1, v1) \<and>
    d_stored v1 1 = [1, 2, 3]"
proof -
  have "\<forall>v. \<not> ferror disk_env 1 v \<and> 0 \<le> ftell disk_env 1 v \<and> ftell disk_env 1 v * 100 < 2 ^ 63"
  proof
    fix v :: disk
    have "int (length (d_rest v 1)) mod 1024 < 1024" by simp
    then show "\<not> ferror disk_env 1 v \<and> 0 \<le> ftell disk_env 1 v \<and> ftell disk_env 1 v * 100 < 2 ^ 63"
      by (simp add: disk_env_def)
  qed
  moreover have "\<forall>f bs v. fst (fwrite disk_env f bs v) = length bs" by (simp add: disk_env_def)
  ultimately show ?thesis
    using file_roundtrip [OF disk_io.stdio_axioms disk_io.stdio_axioms, of example_reader_fm zero_packet
        example_disk 3 "example_reader_fm\<lparr>fm_type := WRITE_FILE\<rparr>" 7 example_disk]
    by (auto simp: example_reader_fm_def example_disk_def reader_ok_def)
qed


text \<open>
  C32: what a peer announces can drive the receiving side out of the defined behaviour: after a
  request for a file of size 0 the first data packet divides by zero, and a data packet that
  announces more than its 1416 bytes is read behind its end.
\<close>

theorem peer_crashes_writer:
  assumes "write_file E filename f_size m w = Inr (True, m1, w1)" "length p = PACKET_MAX_SIZE"
    and "f_size = 0 \<and> fst (fwrite E (file_fd m1) (payload p) w1) = unat (td_b_size p) \<or> DATA_MAX < unat (td_b_size p)"
  shows "write_work E m1 p w1 = Inl Undefined"
proof -
  have "fm_state m1 = FM_WORKING" "file_size m1 = f_size"
    using assms(1) by (auto simp: write_file_def Let_def split: option.splits prod.splits if_splits)
  then show ?thesis using assms(2,3)
    by (auto simp: write_work_def payload_def split: prod.splits)
qed

theorem peer_crashes_writer_witness:
  "\<exists>m1 w1. write_file disk_env [65] 0 (example_reader_fm\<lparr>fm_type := WRITE_FILE\<rparr>) example_disk = Inr (True, m1, w1) \<and>
    write_work disk_env m1 zero_packet w1 = Inl Undefined"
proof -
  obtain m1 w1 where w: "write_file disk_env [65] 0 (example_reader_fm\<lparr>fm_type := WRITE_FILE\<rparr>) example_disk = Inr (True, m1, w1)"
    by (auto simp: write_file_def disk_env_def example_reader_fm_def)
  moreover have "fst (fwrite disk_env (file_fd m1) (payload zero_packet) w1) = unat (td_b_size zero_packet)"
    by (simp add: disk_env_def payload_def data_field_defs zero_packet_def byte_simps)
  ultimately show ?thesis using peer_crashes_writer [OF w, of zero_packet] by auto
qed

end
