(* ===== verification/Transfer_Manager.thy ===== *)
theory Transfer_Manager
  imports Lock_Free_Steps File_Manager
begin

text \<open>
  The transfers of the client, \<^verbatim>\<open>src/transfer_manager.cpp\<close>: six transfers it offers and six it
  receives, each a small state machine driven by commands of the user interface, by packets of
  the server and by \<^verbatim>\<open>do_work\<close>, which produces at most one packet to send.
\<close>

section \<open>The state\<close>

abbreviation TRANSFER_QUEUE_MAX :: u64 where "TRANSFER_QUEUE_MAX \<equiv> 6"
abbreviation SIM_TRANSFERS_MAX :: nat where "SIM_TRANSFERS_MAX \<equiv> 6"

datatype at_state = AT_EMPTY | AT_CANCEL | AT_SEND_REQ | AT_GET_RESPONSE | AT_ACCEPT | AT_DENY | AT_PENDING | AT_ACTIVE

text \<open>\<open>at_hdr\<close> is the byte image of the \<^verbatim>\<open>Transfer_Hdr\<close>, \<open>at_file_size\<close> the bits of an \<^verbatim>\<open>i64\<close>.\<close>

record active_transfer =
  at_state :: at_state
  at_hdr :: bytes
  accept_list :: "at_state list"
  local_id :: transfer_id
  past_send :: int
  at_file :: bytes
  at_file_size :: u64
  f_manager :: file_manager

definition h_t_id :: "bytes \<Rightarrow> transfer_id" where "h_t_id h = get_u64 0 h"
definition h_from :: "bytes \<Rightarrow> client_id" where "h_from h = get_u64 8 h"
definition h_to :: "nat \<Rightarrow> bytes \<Rightarrow> client_id" where "h_to i h = get_u64 (16 + 8 * i) h"
definition set_h_to :: "bytes \<Rightarrow> bytes \<Rightarrow> bytes" where "set_h_to to h = put_bytes 16 to h"

definition can_cancel :: "active_transfer \<Rightarrow> bool" where
  "can_cancel t \<longleftrightarrow> at_state t = AT_ACTIVE \<or> at_state t = AT_PENDING \<or> at_state t = AT_GET_RESPONSE"

datatype ti_state = TI_CANCELLED | TI_DENIED | TI_REJECTED | TI_COMPLETE

text \<open>A command: its type with the members of the union it uses. \<^verbatim>\<open>to\<close> is the image of six ids.\<close>

datatype transfer_cmd =
    Cmd_Request bytes bytes
  | Cmd_Reply transfer_id bool
  | Cmd_Cancel transfer_id

text \<open>The constructor for a request copies at most 128 bytes of the path over what was there.\<close>

definition request_cmd :: "bytes \<Rightarrow> bytes \<Rightarrow> bytes \<Rightarrow> transfer_cmd" where
  "request_cmd raw filepath to = Cmd_Request
     (put_bytes 0 (take (min (length (cstr filepath) + 1) (2 * FILE_NAME_LEN)) (cstr filepath @ [0])) raw) to"

datatype work_state = HAS_WORK | NO_WORK | WAIT_WORK

record transfer_manager =
  backlog :: "(ti_state \<times> bytes) list"
  dirty :: bool
  client_transfer_ids :: transfer_id
  cmd_queue :: "transfer_cmd lf_queue"
  recv_transfers :: "active_transfer list"
  host_transfers :: "active_transfer list"

datatype side = HOST | RECV

fun transfers :: "side \<Rightarrow> transfer_manager \<Rightarrow> active_transfer list" where
  "transfers HOST tm = host_transfers tm"
| "transfers RECV tm = recv_transfers tm"

fun upd_transfer :: "side \<Rightarrow> nat \<Rightarrow> (active_transfer \<Rightarrow> active_transfer) \<Rightarrow> transfer_manager \<Rightarrow> transfer_manager" where
  "upd_transfer HOST i f tm = tm\<lparr>host_transfers := (host_transfers tm)[i := f (host_transfers tm ! i)]\<rparr>"
| "upd_transfer RECV i f tm = tm\<lparr>recv_transfers := (recv_transfers tm)[i := f (recv_transfers tm ! i)]\<rparr>"

text \<open>\<^verbatim>\<open>std::find_if\<close> on an array, as an index.\<close>

fun find_ix :: "('a \<Rightarrow> bool) \<Rightarrow> 'a list \<Rightarrow> nat option" where
  "find_ix P [] = None"
| "find_ix P (x # xs) = (if P x then Some 0 else map_option Suc (find_ix P xs))"

section \<open>Construction\<close>

definition Active_Transfer_new :: "active_transfer \<Rightarrow> active_transfer" where
  "Active_Transfer_new raw = raw\<lparr>at_state := AT_EMPTY, at_hdr := replicate sizeof_Transfer_Hdr 0,
     accept_list := replicate TRANSFER_CLIENTS_MAX AT_EMPTY, local_id := 0, at_file := [],
     f_manager := File_Manager_new (f_manager raw)\<rparr>"

fun init_reads :: "(u64 \<Rightarrow> nat \<Rightarrow> bytes) \<Rightarrow> active_transfer list \<Rightarrow> memory_pool \<Rightarrow>
    fault + (active_transfer list \<times> memory_pool)" where
  "init_reads mem [] pool = Inr ([], pool)"
| "init_reads mem (t # ts) pool = bindE (init_read mem (f_manager t) pool) (\<lambda>(m, pool1).
     bindE (init_reads mem ts pool1) (\<lambda>(ts1, pool2). Inr (t\<lparr>f_manager := m\<rparr> # ts1, pool2)))"

definition Transfer_Manager_new :: "(u64 \<Rightarrow> nat \<Rightarrow> bytes) \<Rightarrow> u64 \<Rightarrow> (nat \<Rightarrow> transfer_cmd) \<Rightarrow>
    (nat \<Rightarrow> active_transfer) \<Rightarrow> memory_pool \<Rightarrow> fault + (transfer_manager \<times> memory_pool)" where
  "Transfer_Manager_new mem node_size raw_cmd raw pool =
     bindE (LockFreeQueue node_size raw_cmd TRANSFER_QUEUE_MAX pool) (\<lambda>(q, pool1).
       let recv = map (\<lambda>i. Active_Transfer_new (raw i)) [0..<SIM_TRANSFERS_MAX];
           host = map (\<lambda>i. Active_Transfer_new (raw (SIM_TRANSFERS_MAX + i))) [0..<SIM_TRANSFERS_MAX]
       in bindE (init_reads mem host pool1) (\<lambda>(host1, pool2).
            Inr (\<lparr>backlog = [], dirty = False, client_transfer_ids = 1, cmd_queue = q,
                  recv_transfers = map (\<lambda>t. t\<lparr>f_manager := init_write (f_manager t)\<rparr>) recv,
                  host_transfers = host1\<rparr>, pool2)))"

section \<open>Common operations\<close>

definition get_transfer :: "active_transfer list \<Rightarrow> nat option" where
  "get_transfer ts = find_ix (\<lambda>t. at_state t = AT_EMPTY) ts"

definition push_backlog :: "ti_state \<Rightarrow> bytes \<Rightarrow> transfer_manager \<Rightarrow> transfer_manager" where
  "push_backlog st file tm = tm\<lparr>backlog := backlog tm @ [(st, file)], dirty := True\<rparr>"

text \<open>\<^verbatim>\<open>copy\<close>, called by the user interface; \<open>locked\<close> is the result of \<^verbatim>\<open>try_lock\<close>.\<close>

definition copy_backlog :: "bool \<Rightarrow> (ti_state \<times> bytes) list \<Rightarrow> transfer_manager \<Rightarrow>
    (ti_state \<times> bytes) list \<times> transfer_manager" where
  "copy_backlog locked t_vec tm =
     (if dirty tm \<and> locked then (backlog tm, tm\<lparr>dirty := False\<rparr>) else (t_vec, tm))"

definition zero_transfer :: "active_transfer \<Rightarrow> active_transfer" where
  "zero_transfer t = t\<lparr>at_state := AT_EMPTY, accept_list := replicate TRANSFER_CLIENTS_MAX AT_EMPTY,
     at_hdr := replicate sizeof_Transfer_Hdr 0, local_id := 0\<rparr>"

definition set_state :: "at_state \<Rightarrow> active_transfer \<Rightarrow> active_transfer" where
  "set_state st t = t\<lparr>at_state := st\<rparr>"

text \<open>The last two statements of every ending: the transfer is cleared, its file goes to the backlog.\<close>

definition end_transfer :: "side \<Rightarrow> nat \<Rightarrow> ti_state \<Rightarrow> transfer_manager \<Rightarrow> transfer_manager" where
  "end_transfer sd i st tm =
     (let tm1 = upd_transfer sd i zero_transfer tm in push_backlog st (at_file (transfers sd tm1 ! i)) tm1)"

section \<open>Commands of the user interface\<close>

definition cmd_host_request :: "'w cenv \<Rightarrow> bytes \<Rightarrow> bytes \<Rightarrow> transfer_manager \<Rightarrow> 'w \<Rightarrow> fault + (transfer_manager \<times> 'w)" where
  "cmd_host_request E path to tm w =
     (case get_transfer (host_transfers tm) of
        None \<Rightarrow> Inr (tm, w)
      | Some i \<Rightarrow>
          if 0 \<notin> set path then Inl Undefined
          else bindE (read_file E (cstr path) (f_manager (host_transfers tm ! i)) w) (\<lambda>(r, m, w1).
            case r of
              None \<Rightarrow> Inr (upd_transfer HOST i (\<lambda>t. t\<lparr>f_manager := m\<rparr>) tm, w1)
            | Some n \<Rightarrow>
                let (now, w2) = clock_now E w1 in
                Inr (upd_transfer HOST i (\<lambda>t. t\<lparr>f_manager := m, at_file_size := n,
                       local_id := client_transfer_ids tm, at_hdr := set_h_to to (at_hdr t),
                       past_send := now, at_file := cstr path, at_state := AT_SEND_REQ\<rparr>)
                     (tm\<lparr>client_transfer_ids := client_transfer_ids tm + 1\<rparr>), w2)))"

definition cmd_recv_request_reply :: "transfer_id \<Rightarrow> bool \<Rightarrow> transfer_manager \<Rightarrow> transfer_manager" where
  "cmd_recv_request_reply t_id reply tm =
     (case find_ix (\<lambda>t. at_state t = AT_GET_RESPONSE \<and> h_t_id (at_hdr t) = t_id) (recv_transfers tm) of
        None \<Rightarrow> tm
      | Some i \<Rightarrow> upd_transfer RECV i (set_state (if reply then AT_ACCEPT else AT_DENY)) tm)"

definition cmd_cancel :: "transfer_id \<Rightarrow> transfer_manager \<Rightarrow> transfer_manager" where
  "cmd_cancel t_id tm =
     (let search = find_ix (\<lambda>t. can_cancel t \<and> t_id = h_t_id (at_hdr t)) in
      case (search (recv_transfers tm), search (host_transfers tm)) of
        (Some i, _) \<Rightarrow> upd_transfer RECV i (set_state AT_CANCEL) tm
      | (None, Some i) \<Rightarrow> upd_transfer HOST i (set_state AT_CANCEL) tm
      | (None, None) \<Rightarrow> tm)"

fun run_cmd :: "'w cenv \<Rightarrow> transfer_cmd \<Rightarrow> transfer_manager \<Rightarrow> 'w \<Rightarrow> fault + (transfer_manager \<times> 'w)" where
  "run_cmd E (Cmd_Request path to) tm w = cmd_host_request E path to tm w"
| "run_cmd E (Cmd_Reply t_id reply) tm w = Inr (cmd_recv_request_reply t_id reply tm, w)"
| "run_cmd E (Cmd_Cancel t_id) tm w = Inr (cmd_cancel t_id tm, w)"

fun process_cmds :: "'w cenv \<Rightarrow> nat \<Rightarrow> transfer_manager \<Rightarrow> 'w \<Rightarrow> fault + (transfer_manager \<times> 'w)" where
  "process_cmds E n tm w =
     (case peek (cmd_queue tm) of
        None \<Rightarrow> Inr (tm, w)
      | Some cmd \<Rightarrow> (case n of 0 \<Rightarrow> Inl Out_Of_Fuel | Suc m \<Rightarrow>
          bindE (run_cmd E cmd tm w) (\<lambda>(tm1, w1).
            process_cmds E m (tm1\<lparr>cmd_queue := snd (pop (cmd_queue tm1))\<rparr>) w1)))"

declare process_cmds.simps [simp del]


section \<open>Packets of the server\<close>

definition host_request_valid :: "packet \<Rightarrow> bool \<Rightarrow> transfer_manager \<Rightarrow> transfer_manager" where
  "host_request_valid p reply tm =
     (case find_ix (\<lambda>t. at_state t = AT_GET_RESPONSE \<and> local_id t = rq_client_transfer_id p) (host_transfers tm) of
        None \<Rightarrow> tm
      | Some i \<Rightarrow> upd_transfer HOST i (\<lambda>t. if reply
            then t\<lparr>at_hdr := get_bytes 8 sizeof_Transfer_Hdr p, at_state := AT_PENDING\<rparr>
            else t\<lparr>at_state := AT_CANCEL\<rparr>) tm)"

text \<open>The second loop of \<^verbatim>\<open>set_request\<close>: \<open>(all_reply, all_cancel)\<close> over the recipients up to the first 0.\<close>

fun reply_flags :: "(client_id \<times> at_state) list \<Rightarrow> bool \<times> bool \<Rightarrow> bool \<times> bool" where
  "reply_flags [] fl = fl"
| "reply_flags ((c, a) # xs) (all_reply, all_cancel) =
     (if c = 0 then (all_reply, all_cancel)
      else reply_flags xs (all_reply \<and> a \<noteq> AT_EMPTY, all_cancel \<and> a = AT_DENY))"

definition recipients :: "active_transfer \<Rightarrow> client_id list" where
  "recipients t = map (\<lambda>i. h_to i (at_hdr t)) [0..<TRANSFER_CLIENTS_MAX]"

definition set_request :: "client_id \<Rightarrow> bool \<Rightarrow> active_transfer \<Rightarrow> active_transfer" where
  "set_request c_id reply t =
     (let t1 = (case find_ix (\<lambda>c. c = c_id) (recipients t) of
                  None \<Rightarrow> t
                | Some i \<Rightarrow> t\<lparr>accept_list := (accept_list t)[i := if reply then AT_ACCEPT else AT_DENY]\<rparr>);
          (all_reply, all_cancel) = reply_flags (zip (recipients t1) (accept_list t1)) (True, True)
      in if all_cancel then set_state AT_CANCEL t1
         else if all_reply then set_state AT_ACTIVE t1 else t1)"

text \<open>\<^verbatim>\<open>write_file\<close> reads the file name as a C string once it has the user: it must end inside its array.\<close>

definition create_recv_request :: "'w cenv \<Rightarrow> packet \<Rightarrow> transfer_manager \<Rightarrow> 'w \<Rightarrow>
    fault + (bool \<times> transfer_manager \<times> 'w)" where
  "create_recv_request E p tm w =
     (case get_transfer (recv_transfers tm) of
        None \<Rightarrow> Inr (False, tm, w)
      | Some i \<Rightarrow>
          if 0 \<notin> set (rq_file_name p) \<and> getenv_USER E w \<noteq> None then Inl Undefined
          else bindE (write_file E (cstr (rq_file_name p)) (rq_file_size p) (f_manager (recv_transfers tm ! i)) w)
            (\<lambda>(ok, m, w1). Inr (ok, upd_transfer RECV i (\<lambda>t. if ok
               then t\<lparr>f_manager := m, at_hdr := get_bytes 8 sizeof_Transfer_Hdr p,
                      at_file := cstr (rq_file_name p), at_state := AT_GET_RESPONSE\<rparr>
               else t\<lparr>f_manager := m\<rparr>) tm, w1)))"

definition recv_cancel :: "packet \<Rightarrow> transfer_manager \<Rightarrow> transfer_manager" where
  "recv_cancel p tm =
     (let search = find_ix (\<lambda>t. can_cancel t \<and> th_t_id p = h_t_id (at_hdr t)) in
      case (search (recv_transfers tm), search (host_transfers tm)) of
        (Some i, _) \<Rightarrow> end_transfer RECV i TI_CANCELLED tm
      | (None, Some i) \<Rightarrow> upd_transfer HOST i (set_request (th_from p) False) tm
      | (None, None) \<Rightarrow> tm)"

definition host_request_reply :: "transfer_id \<Rightarrow> client_id \<Rightarrow> bool \<Rightarrow> transfer_manager \<Rightarrow> transfer_manager" where
  "host_request_reply t_id c_id reply tm =
     (case find_ix (\<lambda>t. at_state t = AT_PENDING \<and> h_t_id (at_hdr t) = t_id) (host_transfers tm) of
        None \<Rightarrow> tm
      | Some i \<Rightarrow> upd_transfer HOST i (set_request c_id reply) tm)"

definition handle_transfer_data :: "'w cenv \<Rightarrow> nat \<Rightarrow> packet \<Rightarrow> transfer_manager \<Rightarrow> 'w \<Rightarrow> fault + (transfer_manager \<times> 'w)" where
  "handle_transfer_data E i p tm w =
     bindE (write_work E (f_manager (recv_transfers tm ! i)) p w) (\<lambda>(_, m, w1).
       Inr (upd_transfer RECV i (\<lambda>t. t\<lparr>f_manager := m\<rparr>) tm, w1))"

definition recv_data :: "'w cenv \<Rightarrow> packet \<Rightarrow> transfer_manager \<Rightarrow> 'w \<Rightarrow> fault + (transfer_manager \<times> 'w)" where
  "recv_data E p tm w =
     (case find_ix (\<lambda>t. at_state t = AT_ACTIVE \<and> td_t_id p = h_t_id (at_hdr t)) (recv_transfers tm) of
        None \<Rightarrow> Inr (tm, w)
      | Some i \<Rightarrow> handle_transfer_data E i p tm w)"

definition recv_complete :: "'w cenv \<Rightarrow> transfer_id \<Rightarrow> transfer_manager \<Rightarrow> 'w \<Rightarrow> transfer_manager \<times> 'w" where
  "recv_complete E t_id tm w =
     (case find_ix (\<lambda>t. at_state t = AT_ACTIVE \<and> t_id = h_t_id (at_hdr t)) (recv_transfers tm) of
        None \<Rightarrow> (tm, w)
      | Some i \<Rightarrow>
          let (m, w1) = fm_close E (f_manager (recv_transfers tm ! i)) w
          in (end_transfer RECV i TI_COMPLETE (upd_transfer RECV i (\<lambda>t. t\<lparr>f_manager := m\<rparr>) tm), w1))"

section \<open>Packets to the server\<close>

definition set_th_hdr :: "bytes \<Rightarrow> packet \<Rightarrow> packet" where "set_th_hdr h p = put_bytes 8 h p"
definition set_rq_client_transfer_id :: "transfer_id \<Rightarrow> packet \<Rightarrow> packet" where
  "set_rq_client_transfer_id v p = put_u64 72 v p"
definition set_rq_file_name :: "bytes \<Rightarrow> packet \<Rightarrow> packet" where "set_rq_file_name bs p = put_bytes 80 bs p"
definition set_rq_file_size :: "u64 \<Rightarrow> packet \<Rightarrow> packet" where "set_rq_file_size v p = put_u64 144 v p"
definition set_tr_accept :: "u8 \<Rightarrow> packet \<Rightarrow> packet" where "set_tr_accept v p = put_u8 72 v p"

lemmas client_field_defs = data_field_defs set_th_hdr_def set_rq_client_transfer_id_def set_rq_file_name_def
  set_rq_file_size_def set_tr_accept_def h_t_id_def h_from_def h_to_def set_h_to_def

definition send_cancel :: "side \<Rightarrow> nat \<Rightarrow> transfer_manager \<Rightarrow> packet \<Rightarrow> transfer_manager \<times> packet" where
  "send_cancel sd i tm p =
     (end_transfer sd i TI_CANCELLED tm,
      set_th_hdr (at_hdr (transfers sd tm ! i)) (PACKET_HDR P_TRANSFER_CANCEL sizeof_transfer_state p))"

text \<open>\<^verbatim>\<open>std::filesystem::path::filename\<close> on POSIX: what follows the last slash.\<close>

definition path_filename :: "bytes \<Rightarrow> bytes" where
  "path_filename path = rev (takeWhile (\<lambda>b. b \<noteq> of_char CHR ''/'') (rev path))"

definition send_request :: "nat \<Rightarrow> transfer_manager \<Rightarrow> packet \<Rightarrow> transfer_manager \<times> packet" where
  "send_request i tm p =
     (let t = host_transfers tm ! i;
          name = path_filename (at_file t);
          p1 = set_rq_client_transfer_id (local_id t) (PACKET_HDR P_TRANSFER_REQUEST sizeof_request p);
          p2 = set_rq_file_name (take (min (length name + 1) FILE_NAME_LEN) (name @ [0])) p1;
          p3 = (if FILE_NAME_LEN \<le> length name + 1 then p2[80 + FILE_NAME_LEN - 1 := 0] else p2)
      in (upd_transfer HOST i (set_state AT_GET_RESPONSE) tm,
          set_th_hdr (at_hdr t) (set_rq_file_size (at_file_size t) p3)))"

definition send_recv_request_reply :: "nat \<Rightarrow> transfer_manager \<Rightarrow> packet \<Rightarrow> transfer_manager \<times> packet" where
  "send_recv_request_reply i tm p =
     (let t = recv_transfers tm ! i;
          p1 = set_tr_accept (if at_state t = AT_ACCEPT then 1 else 0)
                 (PACKET_HDR P_TRANSFER_REPLY sizeof_transfer_reply p);
          p2 = set_th_t_id (h_t_id (at_hdr t)) p1
      in (if tr_accept p2 \<noteq> 0 then upd_transfer RECV i (set_state AT_ACTIVE) tm
          else end_transfer RECV i TI_DENIED tm, p2))"

text \<open>What \<^verbatim>\<open>send_data\<close> does with the result of \<^verbatim>\<open>read_work\<close>.\<close>

definition after_read :: "'w cenv \<Rightarrow> fm_state \<Rightarrow> nat \<Rightarrow> transfer_manager \<Rightarrow> packet \<Rightarrow> 'w \<Rightarrow>
    transfer_manager \<times> packet \<times> 'w" where
  "after_read E st i tm p w =
     (let t = host_transfers tm ! i in
      case st of
        FM_WORKING \<Rightarrow> (tm, set_td_t_id (h_t_id (at_hdr t)) p, w)
      | FM_COMPLETE \<Rightarrow>
          let (m, w1) = fm_close E (f_manager t) w
          in (end_transfer HOST i TI_COMPLETE (upd_transfer HOST i (\<lambda>t. t\<lparr>f_manager := m\<rparr>) tm),
              set_th_t_id (h_t_id (at_hdr t)) (PACKET_HDR P_TRANSFER_COMPLETE sizeof_transfer_state p), w1)
      | FM_ERROR \<Rightarrow> (let (tm1, p1) = send_cancel HOST i tm p in (tm1, p1, w))
      | FM_EMPTY \<Rightarrow> (let (tm1, p1) = send_cancel HOST i tm p in (tm1, p1, w)))"

definition send_data :: "'w cenv \<Rightarrow> nat \<Rightarrow> transfer_manager \<Rightarrow> packet \<Rightarrow> 'w \<Rightarrow>
    fault + (work_state \<times> transfer_manager \<times> packet \<times> 'w)" where
  "send_data E i tm p w =
     (let (now, w1) = clock_now E w in
      if (now - past_send (host_transfers tm ! i)) div 1000000 < 1 then Inr (WAIT_WORK, tm, p, w1)
      else bindE (read_work E (f_manager (host_transfers tm ! i)) p w1) (\<lambda>(st, m, p1, w2).
        let (tm1, p2, w3) = after_read E st i (upd_transfer HOST i (\<lambda>t. t\<lparr>f_manager := m\<rparr>) tm) p1 w2;
            (now2, w4) = clock_now E w3
        in Inr (HAS_WORK, upd_transfer HOST i (\<lambda>t. t\<lparr>past_send := now2\<rparr>) tm1, p2, w4)))"

definition host_transfer_work :: "'w cenv \<Rightarrow> transfer_manager \<Rightarrow> packet \<Rightarrow> 'w \<Rightarrow>
    fault + (work_state \<times> transfer_manager \<times> packet \<times> 'w)" where
  "host_transfer_work E tm p w =
     (case find_ix (\<lambda>t. at_state t = AT_ACTIVE \<or> at_state t = AT_CANCEL \<or> at_state t = AT_SEND_REQ)
             (host_transfers tm) of
        None \<Rightarrow> Inr (NO_WORK, tm, p, w)
      | Some i \<Rightarrow>
          (if at_state (host_transfers tm ! i) = AT_ACTIVE then send_data E i tm p w
           else if at_state (host_transfers tm ! i) = AT_CANCEL
                then let (tm1, p1) = send_cancel HOST i tm p in Inr (HAS_WORK, tm1, p1, w)
           else let (tm1, p1) = send_request i tm p in Inr (HAS_WORK, tm1, p1, w)))"

definition recv_transfer_work :: "transfer_manager \<Rightarrow> packet \<Rightarrow> work_state \<times> transfer_manager \<times> packet" where
  "recv_transfer_work tm p =
     (case find_ix (\<lambda>t. at_state t = AT_CANCEL \<or> at_state t = AT_ACCEPT \<or> at_state t = AT_DENY)
             (recv_transfers tm) of
        None \<Rightarrow> (NO_WORK, tm, p)
      | Some i \<Rightarrow> (HAS_WORK, if at_state (recv_transfers tm ! i) = AT_CANCEL then send_cancel RECV i tm p
                               else send_recv_request_reply i tm p))"

definition do_work :: "'w cenv \<Rightarrow> nat \<Rightarrow> transfer_manager \<Rightarrow> packet \<Rightarrow> 'w \<Rightarrow>
    fault + (work_state \<times> transfer_manager \<times> packet \<times> 'w)" where
  "do_work E fuel tm p w =
     bindE (process_cmds E fuel tm w) (\<lambda>(tm1, w1).
     bindE (host_transfer_work E tm1 p w1) (\<lambda>(host, tm2, p2, w2).
       if host \<noteq> NO_WORK then Inr (host, tm2, p2, w2)
       else let (recv, tm3, p3) = recv_transfer_work tm2 p2 in Inr (recv, tm3, p3, w2)))"

end
