(* ===== verification/Transfer_States.thy ===== *)
theory Transfer_States
  imports Transfer_Manager
begin

text \<open>
  The state machines of the transfers: what holds of every transfer between two operations of
  \<^verbatim>\<open>src/transfer_manager.cpp\<close>, and which changes of its state an operation can make.
\<close>

section \<open>Searching the arrays\<close>

lemma find_ix_Some: "find_ix P xs = Some i \<Longrightarrow> i < length xs \<and> P (xs ! i) \<and> (\<forall>j < i. \<not> P (xs ! j))"
proof (induction xs arbitrary: i)
  case (Cons x xs)
  then show ?case by (cases i) (auto simp: nth_Cons split: if_splits nat.splits)
qed simp

lemma find_ix_None: "find_ix P xs = None \<longleftrightarrow> (\<forall>x \<in> set xs. \<not> P x)"
  by (induction xs) auto

lemma find_ix_first:
  "i < length xs \<Longrightarrow> P (xs ! i) \<Longrightarrow> (\<And>j. j < i \<Longrightarrow> \<not> P (xs ! j)) \<Longrightarrow> find_ix P xs = Some i"
proof (induction xs arbitrary: i)
  case (Cons x xs)
  show ?case
  proof (cases i)
    case 0
    with Cons.prems show ?thesis by simp
  next
    case (Suc k)
    then have "\<not> P x" using Cons.prems(3) [of 0] by simp
    moreover have "find_ix P xs = Some k"
    proof (rule Cons.IH)
      show "\<not> P (xs ! j)" if "j < k" for j using Cons.prems(3) [of "Suc j"] that Suc by simp
    qed (use Cons.prems Suc in simp_all)
    ultimately show ?thesis using Suc by simp
  qed
qed simp

section \<open>Well-formed transfers\<close>

definition cleared :: "active_transfer \<Rightarrow> bool" where
  "cleared t \<longleftrightarrow> at_hdr t = replicate 64 0 \<and> accept_list t = replicate 6 AT_EMPTY \<and> local_id t = 0"

definition transfer_ok :: "active_transfer \<Rightarrow> bool" where
  "transfer_ok t \<longleftrightarrow> length (at_hdr t) = 64 \<and> length (accept_list t) = 6 \<and>
     set (accept_list t) \<subseteq> {AT_EMPTY, AT_ACCEPT, AT_DENY} \<and> (at_state t = AT_EMPTY \<longrightarrow> cleared t)"

text \<open>An offered transfer has its file open for reading, and no answer before the request is valid.\<close>

definition host_ok :: "active_transfer \<Rightarrow> bool" where
  "host_ok t \<longleftrightarrow> transfer_ok t \<and> at_state t \<noteq> AT_ACCEPT \<and> at_state t \<noteq> AT_DENY \<and>
     fm_type (f_manager t) = READ_FILE \<and> length (buf (f_manager t)) = FILE_BUFFER_SIZE \<and>
     (at_state t \<noteq> AT_EMPTY \<longrightarrow> fm_state (f_manager t) = FM_WORKING \<and> file_fd (f_manager t) \<noteq> 0 \<and>
        file_size (f_manager t) \<noteq> 0 \<and> reader_ok (f_manager t)) \<and>
     (at_state t = AT_SEND_REQ \<or> at_state t = AT_GET_RESPONSE \<longrightarrow> AT_ACCEPT \<notin> set (accept_list t))"

text \<open>A received transfer has its file open for writing.\<close>

definition recv_ok :: "active_transfer \<Rightarrow> bool" where
  "recv_ok t \<longleftrightarrow> transfer_ok t \<and> at_state t \<noteq> AT_SEND_REQ \<and> at_state t \<noteq> AT_PENDING \<and>
     fm_type (f_manager t) = WRITE_FILE \<and>
     (at_state t \<noteq> AT_EMPTY \<longrightarrow> fm_state (f_manager t) = FM_WORKING \<and> file_fd (f_manager t) \<noteq> 0)"

fun side_ok :: "side \<Rightarrow> active_transfer \<Rightarrow> bool" where
  "side_ok HOST t = host_ok t" | "side_ok RECV t = recv_ok t"

fun cmd_ok :: "transfer_cmd \<Rightarrow> bool" where
  "cmd_ok (Cmd_Request path to) \<longleftrightarrow> length path = 2 * FILE_NAME_LEN \<and> length to = 48"
| "cmd_ok _ \<longleftrightarrow> True"

definition cmds_ok :: "transfer_manager \<Rightarrow> bool" where
  "cmds_ok tm \<longleftrightarrow> lf_ok 3 (cmd_queue tm) \<and> (\<forall>c \<in> set (lf_items (cmd_queue tm)). cmd_ok c)"

definition tm_ok :: "transfer_manager \<Rightarrow> bool" where
  "tm_ok tm \<longleftrightarrow> cmds_ok tm \<and> (\<forall>sd. length (transfers sd tm) = 6 \<and> (\<forall>i < 6. side_ok sd (transfers sd tm ! i)))"

section \<open>The edges\<close>

fun edge :: "side \<Rightarrow> at_state \<Rightarrow> at_state \<Rightarrow> bool" where
  "edge HOST a b \<longleftrightarrow> (a, b) \<in> {(AT_EMPTY, AT_SEND_REQ), (AT_SEND_REQ, AT_GET_RESPONSE),
     (AT_GET_RESPONSE, AT_PENDING), (AT_GET_RESPONSE, AT_CANCEL), (AT_PENDING, AT_ACTIVE),
     (AT_PENDING, AT_CANCEL), (AT_ACTIVE, AT_CANCEL), (AT_ACTIVE, AT_EMPTY), (AT_CANCEL, AT_EMPTY)}"
| "edge RECV a b \<longleftrightarrow> (a, b) \<in> {(AT_EMPTY, AT_GET_RESPONSE), (AT_GET_RESPONSE, AT_ACCEPT),
     (AT_GET_RESPONSE, AT_DENY), (AT_GET_RESPONSE, AT_CANCEL), (AT_GET_RESPONSE, AT_EMPTY),
     (AT_ACCEPT, AT_ACTIVE), (AT_DENY, AT_EMPTY), (AT_ACTIVE, AT_CANCEL), (AT_ACTIVE, AT_EMPTY),
     (AT_CANCEL, AT_EMPTY)}"

text \<open>\<open>moves tm tm'\<close>: a well-formed outcome in which at most one transfer took an edge.\<close>

definition state_of :: "side \<Rightarrow> nat \<Rightarrow> transfer_manager \<Rightarrow> at_state" where
  "state_of sd i tm = at_state (transfers sd tm ! i)"

definition same_states :: "transfer_manager \<Rightarrow> transfer_manager \<Rightarrow> bool" where
  "same_states tm tm' \<longleftrightarrow> (\<forall>sd i. i < 6 \<longrightarrow> state_of sd i tm' = state_of sd i tm)"

definition moves :: "transfer_manager \<Rightarrow> transfer_manager \<Rightarrow> bool" where
  "moves tm tm' \<longleftrightarrow> tm_ok tm' \<and> (same_states tm tm' \<or>
     (\<exists>sd i. i < 6 \<and> edge sd (state_of sd i tm) (state_of sd i tm') \<and>
        (\<forall>sd' j. j < 6 \<longrightarrow> (sd', j) \<noteq> (sd, i) \<longrightarrow> state_of sd' j tm' = state_of sd' j tm)))"

lemma moves_refl: "tm_ok tm \<Longrightarrow> moves tm tm"
  by (simp add: moves_def same_states_def)

lemma moves_ok: "moves tm tm' \<Longrightarrow> tm_ok tm'"
  by (simp add: moves_def)

lemma tm_ok_transfer: "tm_ok tm \<Longrightarrow> i < 6 \<Longrightarrow> side_ok sd (transfers sd tm ! i)"
  by (simp add: tm_ok_def)

lemma tm_ok_length: "tm_ok tm \<Longrightarrow> length (transfers sd tm) = 6"
  by (simp add: tm_ok_def)

lemma transfers_upd:
  "transfers sd' (upd_transfer sd i f tm) =
     (if sd' = sd then (transfers sd tm)[i := f (transfers sd tm ! i)] else transfers sd' tm)"
  by (cases sd; cases sd') simp_all

lemma upd_transfer_fields [simp]:
  "cmd_queue (upd_transfer sd i f tm) = cmd_queue tm" "backlog (upd_transfer sd i f tm) = backlog tm"
  "cmds_ok (upd_transfer sd i f tm) = cmds_ok tm"
  by (cases sd; simp add: cmds_ok_def)+

declare upd_transfer.simps [simp del]

text \<open>An operation on one transfer.\<close>

lemma tm_ok_upd:
  "tm_ok tm \<Longrightarrow> i < 6 \<Longrightarrow> side_ok sd (f (transfers sd tm ! i)) \<Longrightarrow> tm_ok (upd_transfer sd i f tm)"
  by (auto simp: tm_ok_def transfers_upd nth_list_update)

lemma moves_upd:
  assumes ok: "tm_ok tm" and i: "i < 6" and t: "side_ok sd (f (transfers sd tm ! i))"
    and e: "at_state (f (transfers sd tm ! i)) = state_of sd i tm \<or>
      edge sd (state_of sd i tm) (at_state (f (transfers sd tm ! i)))"
  shows "moves tm (upd_transfer sd i f tm)"
proof -
  note len = tm_ok_length [OF ok]
  have st: "state_of sd' j (upd_transfer sd i f tm) =
      (if (sd', j) = (sd, i) then at_state (f (transfers sd tm ! i)) else state_of sd' j tm)" if "j < 6" for sd' j
    using that len i by (simp add: state_of_def transfers_upd)
  have "tm_ok (upd_transfer sd i f tm)" using ok i t by (rule tm_ok_upd)
  with e i st show ?thesis unfolding moves_def same_states_def by (metis prod.inject)
qed

lemma log_simps [simp]:
  "transfers sd (push_backlog st file tm) = transfers sd tm" "cmd_queue (push_backlog st file tm) = cmd_queue tm"
  "client_transfer_ids (push_backlog st file tm) = client_transfer_ids tm"
  "cmds_ok (push_backlog st file tm) = cmds_ok tm"
  by (cases sd; simp add: push_backlog_def cmds_ok_def)+

lemma log_ok [simp]: "tm_ok (push_backlog st file tm) = tm_ok tm"
  "state_of sd i (push_backlog st file tm) = state_of sd i tm"
  "moves tm1 (push_backlog st file tm) = moves tm1 tm"
  by (simp_all only: tm_ok_def moves_def same_states_def state_of_def log_simps)

lemma ids_simps [simp]:
  "transfers sd (tm\<lparr>client_transfer_ids := n\<rparr>) = transfers sd tm" "cmds_ok (tm\<lparr>client_transfer_ids := n\<rparr>) = cmds_ok tm"
  "transfers sd (tm\<lparr>cmd_queue := q\<rparr>) = transfers sd tm"
  by (cases sd; simp add: cmds_ok_def)+

lemma ids_ok [simp]: "tm_ok (tm\<lparr>client_transfer_ids := n\<rparr>) = tm_ok tm"
  "state_of sd i (tm\<lparr>client_transfer_ids := n\<rparr>) = state_of sd i tm"
  "moves (tm\<lparr>client_transfer_ids := n\<rparr>) tm1 = moves tm tm1"
  "state_of sd i (tm\<lparr>cmd_queue := q\<rparr>) = state_of sd i tm"
  by (simp_all only: tm_ok_def moves_def same_states_def state_of_def ids_simps)

section \<open>Every operation keeps the transfers well formed\<close>

lemma cleared_simps [simp]:
  "cleared (zero_transfer t)" "at_state (zero_transfer t) = AT_EMPTY" "f_manager (zero_transfer t) = f_manager t"
  "at_file (zero_transfer t) = at_file t" "at_state (set_state st t) = st" "f_manager (set_state st t) = f_manager t"
  "transfer_ok (zero_transfer t)" "at_hdr (set_state st t) = at_hdr t" "accept_list (set_state st t) = accept_list t"
  by (simp_all add: zero_transfer_def cleared_def transfer_ok_def set_state_def)

lemma transfer_ok_state: "transfer_ok t \<Longrightarrow> st \<noteq> AT_EMPTY \<Longrightarrow> transfer_ok (set_state st t)"
  by (simp add: transfer_ok_def set_state_def)

lemma side_ok_zero: "side_ok sd t \<Longrightarrow> side_ok sd (zero_transfer t)"
  by (cases sd) (simp_all add: host_ok_def recv_ok_def)

lemma end_transfer_moves:
  assumes "tm_ok tm" "i < 6" "edge sd (state_of sd i tm) AT_EMPTY"
  shows "moves tm (end_transfer sd i st tm)"
proof -
  have "side_ok sd (transfers sd tm ! i)" using assms by (simp add: tm_ok_transfer)
  then show ?thesis
    using assms side_ok_zero by (simp add: end_transfer_def Let_def moves_upd)
qed

lemma find_transfer:
  assumes "tm_ok tm" "find_ix P (transfers sd tm) = Some i"
  shows "i < 6" "P (transfers sd tm ! i)" "side_ok sd (transfers sd tm ! i)"
  using find_ix_Some [OF assms(2)] assms(1) by (auto simp: tm_ok_def)

lemma find_host: "find_ix P (host_transfers tm) = Some i \<Longrightarrow> tm_ok tm \<Longrightarrow>
    i < 6 \<and> P (host_transfers tm ! i) \<and> host_ok (host_transfers tm ! i)"
  using find_transfer [of tm P HOST i] by simp

lemma find_recv: "find_ix P (recv_transfers tm) = Some i \<Longrightarrow> tm_ok tm \<Longrightarrow>
    i < 6 \<and> P (recv_transfers tm ! i) \<and> recv_ok (recv_transfers tm ! i)"
  using find_transfer [of tm P RECV i] by simp

lemma cmd_recv_request_reply_moves: "tm_ok tm \<Longrightarrow> moves tm (cmd_recv_request_reply t_id reply tm)"
  using transfer_ok_state
  by (auto simp: cmd_recv_request_reply_def moves_refl state_of_def recv_ok_def intro!: moves_upd
      split: option.splits dest!: find_recv)

lemma cmd_cancel_moves: "tm_ok tm \<Longrightarrow> moves tm (cmd_cancel t_id tm)"
  using transfer_ok_state
  by (auto simp: cmd_cancel_def moves_refl state_of_def recv_ok_def host_ok_def can_cancel_def Let_def
      intro!: moves_upd split: option.splits dest!: find_recv find_host)

text \<open>Answers of the recipients.\<close>

lemma set_request_fields:
  "at_hdr (set_request c r t) = at_hdr t" "f_manager (set_request c r t) = f_manager t"
  "at_state (set_request c r t) \<in> {at_state t, AT_CANCEL, AT_ACTIVE}"
  by (auto simp: set_request_def set_state_def Let_def split: option.splits prod.splits)

lemma set_request_accept:
  "accept_list (set_request c r t) = (case find_ix (\<lambda>x. x = c) (recipients t) of None \<Rightarrow> accept_list t
     | Some i \<Rightarrow> (accept_list t)[i := if r then AT_ACCEPT else AT_DENY])"
  by (auto simp: set_request_def set_state_def Let_def split: option.splits prod.splits)

lemma reply_flags_eq:
  "reply_flags xs (a, b) = (a \<and> list_all (\<lambda>x. snd x \<noteq> AT_EMPTY) (takeWhile (\<lambda>x. fst x \<noteq> 0) xs),
     b \<and> list_all (\<lambda>x. snd x = AT_DENY) (takeWhile (\<lambda>x. fst x \<noteq> 0) xs))"
proof (induction xs arbitrary: a b)
  case (Cons x xs)
  obtain c st where "x = (c, st)" by (cases x)
  with Cons.IH [of "a \<and> st \<noteq> AT_EMPTY" "b \<and> st = AT_DENY"] show ?case by simp
qed simp

text \<open>The recipients before the first 0, with their answers.\<close>

definition asked :: "active_transfer \<Rightarrow> (client_id \<times> at_state) list" where
  "asked t = takeWhile (\<lambda>x. fst x \<noteq> 0) (zip (recipients t) (accept_list t))"

lemma set_request_state:
  "at_state (set_request c r t) =
     (let xs = asked (set_request c r t) in
      if \<forall>x \<in> set xs. snd x = AT_DENY then AT_CANCEL
      else if \<forall>x \<in> set xs. snd x \<noteq> AT_EMPTY then AT_ACTIVE else at_state t)"
proof -
  define t1 where "t1 = (case find_ix (\<lambda>x. x = c) (recipients t) of None \<Rightarrow> t
    | Some i \<Rightarrow> t\<lparr>accept_list := (accept_list t)[i := if r then AT_ACCEPT else AT_DENY]\<rparr>)"
  have "asked (set_request c r t) = asked t1"
    by (simp add: asked_def set_request_accept recipients_def set_request_fields t1_def split: option.splits)
  moreover have "at_state t1 = at_state t" by (simp add: t1_def split: option.splits)
  moreover have "reply_flags (zip (recipients t1) (accept_list t1)) (True, True) =
      (\<forall>x \<in> set (asked t1). snd x \<noteq> AT_EMPTY, \<forall>x \<in> set (asked t1). snd x = AT_DENY)"
    by (simp add: reply_flags_eq asked_def list_all_iff)
  ultimately show ?thesis
    by (simp add: set_request_def t1_def [symmetric] Let_def set_state_def)
qed

lemma set_request_ok:
  assumes "transfer_ok t" "at_state t \<noteq> AT_EMPTY"
  shows "transfer_ok (set_request c r t)"
proof -
  have "set (accept_list (set_request c r t)) \<subseteq> insert AT_ACCEPT (insert AT_DENY (set (accept_list t)))"
    by (auto simp: set_request_accept split: option.splits dest: set_update_subset_insert [THEN subsetD])
  moreover have "length (accept_list (set_request c r t)) = length (accept_list t)"
    by (simp add: set_request_accept split: option.splits)
  ultimately show ?thesis
    using assms set_request_fields [of c r t] by (auto simp: transfer_ok_def)
qed


lemma host_request_valid_moves:
  assumes "tm_ok tm" "length p = PACKET_MAX_SIZE"
  shows "moves tm (host_request_valid p reply tm)"
proof -
  have "length (get_bytes 8 64 p) = 64" using assms(2) by (simp add: length_get_bytes)
  then show ?thesis using assms(1)
    by (cases reply) (auto simp: host_request_valid_def moves_refl state_of_def host_ok_def transfer_ok_def
        intro!: moves_upd split: option.splits dest!: find_host)
qed

lemma host_set_request:
  assumes "host_ok t" "at_state t = AT_PENDING \<or> at_state t = AT_ACTIVE \<or> at_state t = AT_GET_RESPONSE \<and> \<not> r"
  shows "host_ok (set_request c r t)" "at_state (set_request c r t) = at_state t \<or>
    edge HOST (at_state t) (at_state (set_request c r t))"
proof -
  have ok: "transfer_ok (set_request c r t)"
    using assms by (intro set_request_ok) (auto simp: host_ok_def)
  have acc: "AT_ACCEPT \<notin> set (accept_list (set_request c r t))" if "at_state t = AT_GET_RESPONSE"
    using assms that by (auto simp: set_request_accept host_ok_def split: option.splits
        dest: set_update_subset_insert [THEN subsetD])
  have not_active: "at_state (set_request c r t) \<noteq> AT_ACTIVE" if "at_state t = AT_GET_RESPONSE"
  proof
    assume a: "at_state (set_request c r t) = AT_ACTIVE"
    have sub: "snd x \<in> set (accept_list (set_request c r t))" if "x \<in> set (asked (set_request c r t))" for x
      using that set_takeWhileD set_zip_rightD by (metis asked_def prod.collapse)
    from a that have "\<forall>x \<in> set (asked (set_request c r t)). snd x \<noteq> AT_EMPTY"
      "\<not> (\<forall>x \<in> set (asked (set_request c r t)). snd x = AT_DENY)"
      by (auto simp: set_request_state Let_def split: if_splits)
    then obtain x where "x \<in> set (asked (set_request c r t))" "snd x \<noteq> AT_EMPTY" "snd x \<noteq> AT_DENY" by blast
    with sub [of x] acc [OF that] ok show False by (auto simp: transfer_ok_def)
  qed
  have st: "at_state (set_request c r t) = at_state t \<or> at_state (set_request c r t) = AT_CANCEL \<or>
      at_state (set_request c r t) = AT_ACTIVE \<and> at_state t \<noteq> AT_GET_RESPONSE"
    using set_request_fields(3) [of c r t] not_active by blast
  have fm: "host_ok t" "at_state t \<noteq> AT_EMPTY" "at_state t \<noteq> AT_SEND_REQ" "f_manager (set_request c r t) = f_manager t"
    using assms by (auto simp: set_request_fields)
  show "host_ok (set_request c r t)"
    using st ok acc fm by (elim disjE) (simp_all add: host_ok_def)
  show "at_state (set_request c r t) = at_state t \<or> edge HOST (at_state t) (at_state (set_request c r t))"
    using st assms(2) by (elim disjE) simp_all
qed

lemma host_request_reply_moves:
  assumes "tm_ok tm"
  shows "moves tm (host_request_reply t_id c r tm)"
proof (cases "find_ix (\<lambda>t. at_state t = AT_PENDING \<and> h_t_id (at_hdr t) = t_id) (host_transfers tm)")
  case None
  then show ?thesis using assms by (simp add: host_request_reply_def moves_refl)
next
  case (Some i)
  from find_host [OF this assms] host_set_request [of "host_transfers tm ! i" r c] Some assms show ?thesis
    by (auto simp: host_request_reply_def state_of_def intro!: moves_upd simp del: edge.simps)
qed

lemma recv_cancel_moves:
  assumes ok: "tm_ok tm"
  shows "moves tm (recv_cancel p tm)"
proof -
  let ?P = "\<lambda>t. can_cancel t \<and> th_t_id p = h_t_id (at_hdr t)"
  consider (recv) i where "find_ix ?P (recv_transfers tm) = Some i"
    | (host) i where "find_ix ?P (recv_transfers tm) = None" "find_ix ?P (host_transfers tm) = Some i"
    | (none) "find_ix ?P (recv_transfers tm) = None" "find_ix ?P (host_transfers tm) = None"
    by (cases "find_ix ?P (recv_transfers tm)"; cases "find_ix ?P (host_transfers tm)") blast+
  then show ?thesis
  proof cases
    case recv
    have i: "i < 6" "can_cancel (recv_transfers tm ! i)" "recv_ok (recv_transfers tm ! i)"
      using find_recv [OF recv ok] by simp_all
    then have "edge RECV (state_of RECV i tm) AT_EMPTY" by (auto simp: can_cancel_def recv_ok_def state_of_def)
    from end_transfer_moves [OF ok i(1) this] recv show ?thesis by (simp add: recv_cancel_def)
  next
    case host
    have i: "i < 6" "can_cancel (host_transfers tm ! i)" "host_ok (host_transfers tm ! i)"
      using find_host [OF host(2) ok] by simp_all
    have "moves tm (upd_transfer HOST i (set_request (th_from p) False) tm)"
      using i host_set_request [of "host_transfers tm ! i" False "th_from p"]
      by (intro moves_upd ok) (auto simp: can_cancel_def state_of_def simp del: edge.simps)
    with host show ?thesis by (simp add: recv_cancel_def)
  next
    case none
    with ok show ?thesis by (simp add: recv_cancel_def Let_def moves_refl)
  qed
qed

text \<open>Opening files.\<close>

lemma read_file_cases:
  "read_file E path m w = Inr (r, m1, w1) \<Longrightarrow> fm_type m = READ_FILE \<and> fm_type m1 = fm_type m \<and> buf m1 = buf m \<and>
     (r \<noteq> None \<longrightarrow> fm_state m1 = FM_WORKING \<and> file_fd m1 \<noteq> 0 \<and> file_size m1 \<noteq> 0 \<and> buf_len m1 = 0 \<and> buf_cnt m1 = 0)"
  by (auto simp: read_file_def Let_def split: prod.splits if_splits)

lemma write_file_cases:
  "write_file E name n m w = Inr (r, m1, w1) \<Longrightarrow> fm_type m = WRITE_FILE \<and> fm_type m1 = fm_type m \<and>
     (r \<longrightarrow> fm_state m1 = FM_WORKING \<and> file_fd m1 \<noteq> 0 \<and> file_size m1 = n)"
  by (auto simp: write_file_def Let_def split: option.splits prod.splits if_splits)

lemma get_transfer_Some: "get_transfer (transfers sd tm) = Some i \<Longrightarrow> tm_ok tm \<Longrightarrow>
    i < 6 \<and> state_of sd i tm = AT_EMPTY \<and> side_ok sd (transfers sd tm ! i) \<and> cleared (transfers sd tm ! i)"
  using find_transfer [of tm "\<lambda>t. at_state t = AT_EMPTY" sd i]
  by (cases sd) (auto simp: get_transfer_def state_of_def host_ok_def recv_ok_def transfer_ok_def)

lemma create_recv_request_moves:
  assumes ok: "tm_ok tm" and p: "length p = PACKET_MAX_SIZE"
  shows "keepsE False (\<lambda>(b, tm1, w1). moves tm tm1) (create_recv_request E p tm w)"
proof (cases "get_transfer (recv_transfers tm)")
  case None
  then show ?thesis using ok by (simp add: create_recv_request_def moves_refl)
next
  case (Some i)
  with get_transfer_Some [of RECV tm i] ok have i: "i < 6" "state_of RECV i tm = AT_EMPTY"
    "recv_ok (recv_transfers tm ! i)" "cleared (recv_transfers tm ! i)" by simp_all
  have len: "length (get_bytes 8 64 p) = 64" using p by (simp add: length_get_bytes)
  show ?thesis
  proof (cases "write_file E (cstr (rq_file_name p)) (rq_file_size p) (f_manager (recv_transfers tm ! i)) w")
    case (Inl e)
    then show ?thesis using Some by (auto simp: create_recv_request_def)
  next
    case (Inr x)
    obtain r m w1 where x: "x = (r, m, w1)" by (cases x)
    note wr = write_file_cases [OF Inr [unfolded x]]
    define f where "f = (\<lambda>t :: active_transfer. if r then t\<lparr>f_manager := m, at_hdr := get_bytes 8 sizeof_Transfer_Hdr p,
      at_file := cstr (rq_file_name p), at_state := AT_GET_RESPONSE\<rparr> else t\<lparr>f_manager := m\<rparr>)"
    have "moves tm (upd_transfer RECV i f tm)"
      using ok i len wr by (intro moves_upd; cases r) (auto simp: f_def recv_ok_def transfer_ok_def cleared_def state_of_def)
    then show ?thesis using Some Inr x by (simp add: create_recv_request_def f_def)
  qed
qed

lemma cmd_host_request_moves:
  assumes ok: "tm_ok tm" and to: "length to = 48"
  shows "keepsE False (\<lambda>(tm1, w1). moves tm tm1) (cmd_host_request E path to tm w)"
proof (cases "get_transfer (host_transfers tm)")
  case None
  then show ?thesis using ok by (simp add: cmd_host_request_def moves_refl)
next
  case (Some i)
  with get_transfer_Some [of HOST tm i] ok have i: "i < 6" "state_of HOST i tm = AT_EMPTY"
    "host_ok (host_transfers tm ! i)" "cleared (host_transfers tm ! i)" by simp_all
  show ?thesis
  proof (cases "read_file E (cstr path) (f_manager (host_transfers tm ! i)) w")
    case (Inl e)
    then show ?thesis using Some by (auto simp: cmd_host_request_def)
  next
    case (Inr x)
    obtain r m w1 where x: "x = (r, m, w1)" by (cases x)
    obtain now w2 where c: "clock_now E w1 = (now, w2)" by force
    note rd = read_file_cases [OF Inr [unfolded x]]
    have len: "length (set_h_to to (at_hdr (host_transfers tm ! i))) = 64"
      using i(3) to by (simp add: set_h_to_def host_ok_def transfer_ok_def length_put_bytes)
    show ?thesis
    proof (cases r)
      case None
      have "moves tm (upd_transfer HOST i (\<lambda>t. t\<lparr>f_manager := m\<rparr>) tm)"
        using ok i rd by (intro moves_upd) (auto simp: host_ok_def transfer_ok_def cleared_def state_of_def)
      then show ?thesis using Some Inr x None by (simp add: cmd_host_request_def)
    next
      case (Some n)
      define f where "f = (\<lambda>t :: active_transfer. t\<lparr>f_manager := m, at_file_size := n, local_id := client_transfer_ids tm,
        at_hdr := set_h_to to (at_hdr t), past_send := now, at_file := cstr path, at_state := AT_SEND_REQ\<rparr>)"
      have "moves (tm\<lparr>client_transfer_ids := client_transfer_ids tm + 1\<rparr>)
          (upd_transfer HOST i f (tm\<lparr>client_transfer_ids := client_transfer_ids tm + 1\<rparr>))"
        using ok i rd len Some
        by (intro moves_upd) (auto simp: f_def host_ok_def transfer_ok_def cleared_def state_of_def reader_ok_def)
      then have "moves tm (upd_transfer HOST i f (tm\<lparr>client_transfer_ids := client_transfer_ids tm + 1\<rparr>))" by simp
      then show ?thesis using \<open>get_transfer (host_transfers tm) = Some i\<close> Inr x Some c
        by (simp add: cmd_host_request_def f_def)
    qed
  qed
qed


text \<open>Data.\<close>

lemma write_work_cases:
  "write_work E m p w = Inr (st, m1, w1) \<Longrightarrow> fm_type m1 = fm_type m \<and> fm_state m1 = fm_state m \<and> file_fd m1 = file_fd m"
  by (auto simp: write_work_def Let_def split: prod.splits if_splits)

lemma recv_data_moves:
  assumes ok: "tm_ok tm"
  shows "keepsE False (\<lambda>(tm1, w1). moves tm tm1) (recv_data E p tm w)"
proof (cases "find_ix (\<lambda>t. at_state t = AT_ACTIVE \<and> td_t_id p = h_t_id (at_hdr t)) (recv_transfers tm)")
  case None
  then show ?thesis using ok by (simp add: recv_data_def moves_refl)
next
  case (Some i)
  have i: "i < 6" "at_state (recv_transfers tm ! i) = AT_ACTIVE" "recv_ok (recv_transfers tm ! i)"
    using find_recv [OF Some ok] by simp_all
  have "moves tm (upd_transfer RECV i (\<lambda>t. t\<lparr>f_manager := m\<rparr>) tm)"
    if "write_work E (f_manager (recv_transfers tm ! i)) p w = Inr (st, m, w1)" for st m w1
    using i write_work_cases [OF that]
    by (intro moves_upd ok) (simp_all add: recv_ok_def transfer_ok_def state_of_def)
  then show ?thesis using Some
    by (auto simp: recv_data_def handle_transfer_data_def keepsE_def)
qed

lemma end_after_moves:
  assumes ok: "tm_ok tm" and i: "i < 6" and e: "edge sd (state_of sd i tm) AT_EMPTY"
    and m: "fm_type m = fm_type (f_manager (transfers sd tm ! i))" "sd = HOST \<Longrightarrow> length (buf m) = FILE_BUFFER_SIZE"
  shows "moves tm (end_transfer sd i st (upd_transfer sd i (\<lambda>t. t\<lparr>f_manager := m\<rparr>) tm))"
    "moves tm (upd_transfer sd i (\<lambda>t. t\<lparr>past_send := n\<rparr>) (end_transfer sd i st (upd_transfer sd i (\<lambda>t. t\<lparr>f_manager := m\<rparr>) tm)))"
proof -
  have t: "side_ok sd (transfers sd tm ! i)" by (rule tm_ok_transfer [OF ok i])
  have len: "length (transfers sd tm) = 6" by (rule tm_ok_length [OF ok])
  have two: "upd_transfer sd i f (upd_transfer sd i g tm) = upd_transfer sd i (f \<circ> g) tm" for f g
    using len i by (cases sd) (simp_all add: upd_transfer.simps)
  have lg: "upd_transfer sd i f (push_backlog st' fl tm') = push_backlog st' fl (upd_transfer sd i f tm')" for f st' fl tm'
    by (cases sd) (simp_all add: upd_transfer.simps push_backlog_def)
  have three: "upd_transfer sd i f (upd_transfer sd i g (upd_transfer sd i h tm)) = upd_transfer sd i (f \<circ> g \<circ> h) tm" for f g h
    using len i by (cases sd) (simp_all add: upd_transfer.simps)
  show "moves tm (end_transfer sd i st (upd_transfer sd i (\<lambda>t. t\<lparr>f_manager := m\<rparr>) tm))"
    using ok i e m t unfolding end_transfer_def Let_def two log_ok
    by (intro moves_upd; cases sd) (simp_all add: host_ok_def recv_ok_def)
  show "moves tm (upd_transfer sd i (\<lambda>t. t\<lparr>past_send := n\<rparr>) (end_transfer sd i st (upd_transfer sd i (\<lambda>t. t\<lparr>f_manager := m\<rparr>) tm)))"
    using ok i e m t unfolding end_transfer_def Let_def lg three log_ok
    by (intro moves_upd; cases sd) (simp_all add: host_ok_def recv_ok_def transfer_ok_def cleared_def zero_transfer_def)
qed

lemma recv_complete_moves:
  assumes ok: "tm_ok tm"
  shows "moves tm (fst (recv_complete E t_id tm w))"
proof (cases "find_ix (\<lambda>t. at_state t = AT_ACTIVE \<and> t_id = h_t_id (at_hdr t)) (recv_transfers tm)")
  case None
  then show ?thesis using ok by (simp add: recv_complete_def moves_refl)
next
  case (Some i)
  have i: "i < 6" "at_state (recv_transfers tm ! i) = AT_ACTIVE"
    using find_recv [OF Some ok] by simp_all
  then show ?thesis using Some end_after_moves(1) [of tm i RECV "fst (fm_close E (f_manager (recv_transfers tm ! i)) w)"] ok
    by (simp add: recv_complete_def fm_close_def state_of_def)
qed

text \<open>Work.\<close>

lemma send_recv_request_reply_moves:
  assumes ok: "tm_ok tm" and p: "length p = PACKET_MAX_SIZE"
    and i: "i < 6" "at_state (recv_transfers tm ! i) = AT_ACCEPT \<or> at_state (recv_transfers tm ! i) = AT_DENY"
  shows "moves tm (fst (send_recv_request_reply i tm p))" "length (snd (send_recv_request_reply i tm p)) = PACKET_MAX_SIZE"
proof -
  have t: "recv_ok (recv_transfers tm ! i)" using tm_ok_transfer [OF ok i(1), of RECV] by simp
  have "moves tm (upd_transfer RECV i (set_state AT_ACTIVE) tm)" if "at_state (recv_transfers tm ! i) = AT_ACCEPT"
    using i t that by (intro moves_upd ok) (auto simp: state_of_def recv_ok_def intro: transfer_ok_state)
  moreover have "moves tm (end_transfer RECV i TI_DENIED tm)" if "at_state (recv_transfers tm ! i) = AT_DENY"
    using i that by (intro end_transfer_moves ok) (simp_all add: state_of_def)
  moreover have "tr_accept (set_th_t_id v (set_tr_accept b (PACKET_HDR ty n p))) = b" for v b ty n
    using p by (simp add: client_field_defs byte_simps)
  ultimately show "moves tm (fst (send_recv_request_reply i tm p))"
    using i(2) by (auto simp: send_recv_request_reply_def Let_def)
  show "length (snd (send_recv_request_reply i tm p)) = PACKET_MAX_SIZE"
    using p by (simp add: send_recv_request_reply_def Let_def set_tr_accept_def byte_simps)
qed

lemma send_cancel_moves:
  assumes ok: "tm_ok tm" and p: "length p = PACKET_MAX_SIZE" and i: "i < 6" "state_of sd i tm = AT_CANCEL"
  shows "moves tm (fst (send_cancel sd i tm p))" "length (snd (send_cancel sd i tm p)) = PACKET_MAX_SIZE"
proof -
  have "length (at_hdr (transfers sd tm ! i)) = 64"
    using tm_ok_transfer [OF ok i(1), of sd] by (cases sd) (simp_all add: host_ok_def recv_ok_def transfer_ok_def)
  then show "length (snd (send_cancel sd i tm p)) = PACKET_MAX_SIZE"
    using p by (simp add: send_cancel_def set_th_hdr_def byte_simps)
  show "moves tm (fst (send_cancel sd i tm p))"
    using i by (cases sd) (simp_all add: send_cancel_def end_transfer_moves ok)
qed

lemma send_request_moves:
  assumes ok: "tm_ok tm" and p: "length p = PACKET_MAX_SIZE" and i: "i < 6" "state_of HOST i tm = AT_SEND_REQ"
  shows "moves tm (fst (send_request i tm p))" "length (snd (send_request i tm p)) = PACKET_MAX_SIZE"
proof -
  have t: "host_ok (host_transfers tm ! i)" using tm_ok_transfer [OF ok i(1), of HOST] by simp
  have "moves tm (upd_transfer HOST i (set_state AT_GET_RESPONSE) tm)"
    using i t by (intro moves_upd ok) (auto simp: state_of_def host_ok_def intro: transfer_ok_state)
  then show "moves tm (fst (send_request i tm p))" by (simp add: send_request_def Let_def)
  have "length (at_hdr (host_transfers tm ! i)) = 64" using t by (simp add: host_ok_def transfer_ok_def)
  then show "length (snd (send_request i tm p)) = PACKET_MAX_SIZE"
    using p by (simp add: send_request_def Let_def client_field_defs byte_simps)
qed

text \<open>What \<^verbatim>\<open>read_work\<close> keeps without any promise of the library.\<close>

lemma fill_buffer_cases:
  assumes f: "fill_buffer E m w = Inr (r, m1, w1)" and ok: "reader_ok m"
  shows "fm_type m1 = fm_type m \<and> file_fd m1 = file_fd m \<and> file_size m1 = file_size m \<and>
     length (buf m1) = FILE_BUFFER_SIZE \<and> (r = None \<longrightarrow> reader_ok m1 \<and> fm_state m1 = fm_state m) \<and>
     (r = Some True \<longrightarrow> fm_state m1 = FM_COMPLETE)"
proof (cases "buf_len m = 0")
  case False
  with f ok show ?thesis by (simp add: fill_buffer_def reader_ok_def)
next
  case True
  obtain bs w2 where b: "fread E (file_fd m) FILE_BUFFER_SIZE w = (bs, w2)" by force
  with f True ok have le: "length bs \<le> 3072" "length (buf m) = 3072"
    by (simp_all add: fill_buffer_def reader_ok_def Let_def split: if_splits)
  then have "length (put_bytes 0 bs (buf m)) = 3072" "unat (of_nat (length bs) :: u64) = length bs"
    by (simp_all add: length_put_bytes unat_of_nat)
  with f True b le show ?thesis
    by (auto simp: fill_buffer_def reader_ok_def Let_def split: if_splits)
qed

lemma send_chunk_cases:
  assumes c: "send_chunk E m p w = Inr (m1, p1)" and ok: "reader_ok m" and p: "length p = PACKET_MAX_SIZE"
  shows "fm_type m1 = fm_type m \<and> file_fd m1 = file_fd m \<and> file_size m1 = file_size m \<and> fm_state m1 = fm_state m \<and>
    reader_ok m1 \<and> length p1 = PACKET_MAX_SIZE"
proof -
  define n where "n = min (buf_len m) (of_nat DATA_MAX)"
  have n: "unat n \<le> 1416" "unat n \<le> unat (buf_len m)"
    by (simp_all add: n_def unat_min)
  have len: "unat (buf_cnt m) + unat (buf_len m) \<le> 3072" "length (buf m) = 3072"
    using ok by (simp_all add: reader_ok_def)
  have w: "unat (buf_len m - n) = unat (buf_len m) - unat n" "unat (buf_cnt m + n) = unat (buf_cnt m) + unat n"
    using n len by (simp_all add: unat_sub_if' unat_word_ariths)
  have lc: "length (get_bytes (unat (buf_cnt m)) (unat n) (buf m)) = unat n" using len n by (simp add: length_get_bytes)
  obtain pc where pc: "percent_read (ftell E (file_fd m) w) (file_size m) = Inr pc"
    using c unfolding send_chunk_def Let_def by (auto split: if_splits)
  have "m1 = m\<lparr>buf_len := buf_len m - n, buf_cnt := buf_cnt m + n, progress := pc\<rparr>"
    "p1 = set_td_bytes (get_bytes (unat (buf_cnt m)) (unat n) (buf m))
       (set_td_b_size n (PACKET_HDR P_TRANSFER_DATA sizeof_transfer_data p))"
    using c pc len n unfolding send_chunk_def Let_def n_def [symmetric] by simp_all
  then show ?thesis using n len p lc by (simp add: reader_ok_def w data_field_defs byte_simps)
qed

lemma read_work_cases:
  assumes r: "read_work E m p w = Inr (st, m1, p1, w1)" and ok: "reader_ok m" and p: "length p = PACKET_MAX_SIZE"
    and st: "fm_state m = FM_WORKING"
  shows "st = fm_state m1 \<and> fm_type m1 = fm_type m \<and> file_fd m1 = file_fd m \<and> file_size m1 = file_size m \<and>
    length (buf m1) = FILE_BUFFER_SIZE \<and> length p1 = PACKET_MAX_SIZE \<and> (st = FM_WORKING \<longrightarrow> reader_ok m1)"
proof -
  from r st obtain b m2 where rf: "read_from_file E m p w = Inr (b, m2, p1, w1)"
    "m1 = (if b then m2 else m2\<lparr>fm_state := FM_ERROR\<rparr>)" "st = fm_state m1"
    by (auto simp: read_work_def split: prod.splits)
  then obtain x m3 w3 where f: "fill_buffer E m w = Inr (x, m3, w3)"
    by (auto simp: read_from_file_def)
  note fc = fill_buffer_cases [OF f ok]
  show ?thesis
  proof (cases x)
    case None
    with rf(1) f obtain m4 where c: "send_chunk E m3 p w3 = Inr (m4, p1)" "m2 = m4" "b"
      by (auto simp: read_from_file_def)
    from send_chunk_cases [OF c(1) _ p] fc None rf(2,3) c(2,3) show ?thesis by (auto simp: reader_ok_def)
  next
    case (Some y)
    with rf(1) f have "m2 = m3" "b = y" "p1 = p" by (auto simp: read_from_file_def)
    with rf(2,3) fc Some p show ?thesis by (cases y) auto
  qed
qed

lemma send_data_moves:
  assumes ok: "tm_ok tm" and p: "length p = PACKET_MAX_SIZE" and i: "i < 6" "state_of HOST i tm = AT_ACTIVE"
  shows "keepsE False (\<lambda>(st, tm1, p1, w1). moves tm tm1 \<and> length p1 = PACKET_MAX_SIZE \<and> st \<noteq> NO_WORK) (send_data E i tm p w)"
proof -
  let ?t = "host_transfers tm ! i"
  have t: "host_ok ?t" using tm_ok_transfer [OF ok i(1), of HOST] by simp
  have act: "at_state ?t = AT_ACTIVE" using i(2) by (simp add: state_of_def)
  obtain now w1 where c: "clock_now E w = (now, w1)" by force
  show ?thesis
  proof (cases "read_work E (f_manager ?t) p w1")
    case (Inl e)
    then show ?thesis using ok p c by (auto simp: send_data_def moves_refl)
  next
    case (Inr x)
    obtain st m p1 w2 where x: "x = (st, m, p1, w2)" by (cases x)
    have r: "st = fm_state m \<and> fm_type m = READ_FILE \<and> file_fd m \<noteq> 0 \<and> file_size m \<noteq> 0 \<and>
        length (buf m) = FILE_BUFFER_SIZE \<and> length p1 = PACKET_MAX_SIZE \<and> (st = FM_WORKING \<longrightarrow> reader_ok m)"
      using read_work_cases [OF Inr [unfolded x]] t act p by (simp add: host_ok_def)
    let ?tm = "upd_transfer HOST i (\<lambda>t. t\<lparr>f_manager := m\<rparr>) tm"
    have len: "length (host_transfers tm) = 6" using tm_ok_length [OF ok, of HOST] by simp
    have hi: "host_transfers ?tm ! i = ?t\<lparr>f_manager := m\<rparr>" using i(1) len by (simp add: upd_transfer.simps)
    have hl: "length (at_hdr ?t) = 64" using t by (simp add: host_ok_def transfer_ok_def)
    have fin_edge: "edge HOST (state_of HOST i tm) AT_EMPTY" using i(2) by simp
    have fin: "moves tm (upd_transfer HOST i (\<lambda>t. t\<lparr>past_send := n\<rparr>) tm2) \<and> length p2 = PACKET_MAX_SIZE"
      if "after_read E st i ?tm p1 w2 = (tm2, p2, w3)" for tm2 p2 w3 n
    proof (cases st)
      case FM_WORKING
      have "moves tm (upd_transfer HOST i (\<lambda>t. t\<lparr>f_manager := m, past_send := n\<rparr>) tm)"
        using r t act i FM_WORKING by (intro moves_upd ok) (auto simp: host_ok_def transfer_ok_def state_of_def)
      moreover have "upd_transfer HOST i (\<lambda>t. t\<lparr>past_send := n\<rparr>) ?tm = upd_transfer HOST i (\<lambda>t. t\<lparr>f_manager := m, past_send := n\<rparr>) tm"
        using i(1) len by (simp add: upd_transfer.simps)
      ultimately show ?thesis using that FM_WORKING r
        by (auto simp: after_read_def set_td_t_id_def byte_simps)
    next
      case FM_COMPLETE
      let ?m = "m\<lparr>fm_state := FM_EMPTY\<rparr>"
      have "upd_transfer HOST i (\<lambda>t. t\<lparr>f_manager := ?m\<rparr>) ?tm = upd_transfer HOST i (\<lambda>t. t\<lparr>f_manager := ?m\<rparr>) tm"
        using i(1) len by (simp add: upd_transfer.simps)
      then show ?thesis
        using that FM_COMPLETE r t fin_edge end_after_moves(2) [OF ok i(1) fin_edge, of ?m n TI_COMPLETE]
        by (auto simp: after_read_def fm_close_def hi host_ok_def)
    next
      case FM_ERROR
      then show ?thesis
        using that r t hl end_after_moves(2) [OF ok i(1) fin_edge, of m n TI_CANCELLED]
        by (auto simp: after_read_def send_cancel_def hi host_ok_def set_th_hdr_def byte_simps)
    next
      case FM_EMPTY
      then show ?thesis
        using that r t hl end_after_moves(2) [OF ok i(1) fin_edge, of m n TI_CANCELLED]
        by (auto simp: after_read_def send_cancel_def hi host_ok_def set_th_hdr_def byte_simps)
    qed
    show ?thesis
      using c Inr x fin by (auto simp: send_data_def keepsE_def moves_refl ok p split: prod.splits)
  qed
qed


lemma host_transfer_work_moves:
  assumes ok: "tm_ok tm" and p: "length p = PACKET_MAX_SIZE"
  shows "keepsE False (\<lambda>(st, tm1, p1, w1). moves tm tm1 \<and> length p1 = PACKET_MAX_SIZE) (host_transfer_work E tm p w)"
proof (cases "find_ix (\<lambda>t. at_state t = AT_ACTIVE \<or> at_state t = AT_CANCEL \<or> at_state t = AT_SEND_REQ) (host_transfers tm)")
  case None
  then show ?thesis using ok p by (simp add: host_transfer_work_def moves_refl)
next
  case (Some i)
  have i: "i < 6" "at_state (host_transfers tm ! i) = AT_ACTIVE \<or> at_state (host_transfers tm ! i) = AT_CANCEL \<or>
      at_state (host_transfers tm ! i) = AT_SEND_REQ"
    using find_host [OF Some ok] by simp_all
  have 1: "keepsE False (\<lambda>(st, tm1, p1, w1). moves tm tm1 \<and> length p1 = PACKET_MAX_SIZE) (send_data E i tm p w)"
    if "at_state (host_transfers tm ! i) = AT_ACTIVE"
    using send_data_moves [OF ok p i(1), of E w] that by (auto simp: state_of_def keepsE_def)
  from i(2) show ?thesis
    using Some 1 send_cancel_moves [OF ok p i(1), of HOST] send_request_moves [OF ok p i(1)]
    by (elim disjE) (simp_all add: host_transfer_work_def state_of_def case_prod_beta)
qed

lemma recv_transfer_work_moves:
  assumes ok: "tm_ok tm" and p: "length p = PACKET_MAX_SIZE"
  shows "case recv_transfer_work tm p of (st, tm1, p1) \<Rightarrow> moves tm tm1 \<and> length p1 = PACKET_MAX_SIZE"
proof (cases "find_ix (\<lambda>t. at_state t = AT_CANCEL \<or> at_state t = AT_ACCEPT \<or> at_state t = AT_DENY) (recv_transfers tm)")
  case None
  then show ?thesis using ok p by (simp add: recv_transfer_work_def moves_refl)
next
  case (Some i)
  have i: "i < 6" "at_state (recv_transfers tm ! i) = AT_CANCEL \<or> at_state (recv_transfers tm ! i) = AT_ACCEPT \<or>
      at_state (recv_transfers tm ! i) = AT_DENY"
    using find_recv [OF Some ok] by simp_all
  then show ?thesis
    using Some send_cancel_moves [OF ok p i(1), of RECV] send_recv_request_reply_moves [OF ok p i(1)]
    by (elim disjE) (simp_all add: recv_transfer_work_def state_of_def case_prod_beta)
qed

section \<open>Runs\<close>

text \<open>The operations of the user interface and of the network thread, as steps.\<close>

inductive tm_step :: "'w cenv \<Rightarrow> transfer_manager \<times> 'w \<Rightarrow> transfer_manager \<times> 'w \<Rightarrow> bool" for E :: "'w cenv" where
  send_cmd: "cmd_ok cmd \<Longrightarrow> push cmd (cmd_queue tm) = (b, q) \<Longrightarrow> tm_step E (tm, w) (tm\<lparr>cmd_queue := q\<rparr>, w)"
| take_cmd: "peek (cmd_queue tm) = Some cmd \<Longrightarrow> run_cmd E cmd tm w = Inr (tm1, w1) \<Longrightarrow>
    tm_step E (tm, w) (tm1\<lparr>cmd_queue := snd (pop (cmd_queue tm1))\<rparr>, w1)"
| host_work: "length p = PACKET_MAX_SIZE \<Longrightarrow> host_transfer_work E tm p w = Inr (st, tm1, p1, w1) \<Longrightarrow> tm_step E (tm, w) (tm1, w1)"
| recv_work: "length p = PACKET_MAX_SIZE \<Longrightarrow> recv_transfer_work tm p = (st, tm1, p1) \<Longrightarrow> tm_step E (tm, w) (tm1, w)"
| on_valid: "length p = PACKET_MAX_SIZE \<Longrightarrow> tm_step E (tm, w) (host_request_valid p reply tm, w)"
| on_reply: "tm_step E (tm, w) (host_request_reply t_id c_id reply tm, w)"
| on_request: "length p = PACKET_MAX_SIZE \<Longrightarrow> create_recv_request E p tm w = Inr (b, tm1, w1) \<Longrightarrow> tm_step E (tm, w) (tm1, w1)"
| on_cancel: "tm_step E (tm, w) (recv_cancel p tm, w)"
| on_data: "recv_data E p tm w = Inr (tm1, w1) \<Longrightarrow> tm_step E (tm, w) (tm1, w1)"
| on_complete: "recv_complete E t_id tm w = (tm1, w1) \<Longrightarrow> tm_step E (tm, w) (tm1, w1)"

lemma run_cmd_moves:
  assumes "tm_ok tm" "cmd_ok cmd"
  shows "keepsE False (\<lambda>(tm1, w1). moves tm tm1) (run_cmd E cmd tm w)"
proof (cases cmd)
  case (Cmd_Request path to)
  with assms show ?thesis using cmd_host_request_moves [OF assms(1), of to E path w] by simp
qed (use assms cmd_recv_request_reply_moves cmd_cancel_moves in simp_all)

lemma run_cmd_queue: "run_cmd E cmd tm w = Inr (tm1, w1) \<Longrightarrow> cmd_queue tm1 = cmd_queue tm"
  by (cases cmd) (auto simp: cmd_host_request_def cmd_recv_request_reply_def cmd_cancel_def Let_def
      split: option.splits if_splits prod.splits)

lemma moves_queue:
  assumes "moves tm tm1" "lf_ok 3 q" "\<forall>c \<in> set (lf_items q). cmd_ok c"
  shows "moves tm (tm1\<lparr>cmd_queue := q\<rparr>)"
  using assms by (simp add: moves_def same_states_def tm_ok_def cmds_ok_def)

lemma tm_step_moves:
  assumes "tm_step E s s'" "tm_ok (fst s)"
  shows "moves (fst s) (fst s')"
  using assms
proof (induction rule: tm_step.induct)
  case (send_cmd cmd tm b q w)
  then have q: "lf_ok 3 (cmd_queue tm)" "\<forall>c \<in> set (lf_items (cmd_queue tm)). cmd_ok c"
    by (simp_all add: tm_ok_def cmds_ok_def)
  have "lf_ok 3 q \<and> (\<forall>c \<in> set (lf_items q). cmd_ok c)"
  proof (cases "length (lf_items (cmd_queue tm)) < 8")
    case True
    with lf.push_room [OF q(1), of cmd] send_cmd q(2) show ?thesis by auto
  next
    case False
    with lf.bounded [OF q(1)] have "length (lf_items (cmd_queue tm)) = 2 ^ 3" by simp
    with lf.push_full [OF q(1) this, of cmd] send_cmd q show ?thesis by auto
  qed
  then show ?case using moves_queue [OF moves_refl] send_cmd by simp
next
  case (take_cmd tm cmd w tm1 w1)
  then have q: "lf_ok 3 (cmd_queue tm)" "\<forall>c \<in> set (lf_items (cmd_queue tm)). cmd_ok c"
    by (simp_all add: tm_ok_def cmds_ok_def)
  from take_cmd(1) lf.peek_waiting [OF q(1)] obtain xs where xs: "lf_items (cmd_queue tm) = cmd # xs"
    by (auto split: list.splits)
  with q(2) have "cmd_ok cmd" by simp
  with run_cmd_moves [of tm cmd E w] take_cmd(2,3) have mv: "moves tm tm1" by simp
  from lf.pop_first [OF q(1) xs] obtain q1 where "pop (cmd_queue tm) = (True, q1)" "lf_ok 3 q1" "lf_items q1 = xs" by blast
  with moves_queue [OF mv] run_cmd_queue [OF take_cmd(2)] q(2) xs show ?case by simp
next
  case (host_work p tm w st tm1 p1 w1)
  then show ?case using host_transfer_work_moves [of tm p E w] by simp
next
  case (recv_work p tm st tm1 p1 w)
  then show ?case using recv_transfer_work_moves [of tm p] by simp
next
  case (on_valid p tm w reply)
  then show ?case by (simp add: host_request_valid_moves)
next
  case (on_reply tm w t_id c_id reply)
  then show ?case by (simp add: host_request_reply_moves)
next
  case (on_request p tm w b tm1 w1)
  then show ?case using create_recv_request_moves [of tm p E w] by simp
next
  case (on_cancel tm w p)
  then show ?case by (simp add: recv_cancel_moves)
next
  case (on_data p tm w tm1 w1)
  then show ?case using recv_data_moves [of tm E p w] by simp
next
  case (on_complete t_id tm w tm1 w1)
  then show ?case using recv_complete_moves [of tm E t_id w] by simp
qed

end
