(* ===== verification/Client_Users.thy ===== *)
theory Client_Users
  imports Transfer_States
begin

text \<open>
  The list of the other members of the session that the client shows, \<^verbatim>\<open>src/users.cpp\<close>, and its
  refinement: under the packets of the server the list is the partial map from ids to names that
  joining and leaving make.
\<close>

section \<open>The list\<close>

record user =
  u_id :: client_id
  u_name :: bytes
  u_selected :: bool

record user_list =
  ul_dirty :: bool
  user_vec :: "user list"

definition User_List_new :: user_list where
  "User_List_new = \<lparr>ul_dirty = False, user_vec = []\<rparr>"

definition User_new :: "bytes \<Rightarrow> client_id \<Rightarrow> user" where
  "User_new name i = \<lparr>u_id = i, u_name = name, u_selected = False\<rparr>"

text \<open>
  The loop of \<^verbatim>\<open>add_users\<close> from \<open>i\<close> on: \<^verbatim>\<open>users_len\<close> is a byte of the server's packet, the arrays have
  \<^verbatim>\<open>CLIENT_LIST_LEN\<close> elements.
\<close>

fun add_users_loop :: "packet \<Rightarrow> nat list \<Rightarrow> user list \<Rightarrow> fault + user list" where
  "add_users_loop p [] us = Inr us"
| "add_users_loop p (i # ix) us =
     (if CLIENT_LIST_LEN \<le> i then Inl Undefined
      else add_users_loop p ix (us @ [User_new (nu_name i p) (nu_id i p)]))"

definition add_users :: "packet \<Rightarrow> user_list \<Rightarrow> fault + user_list" where
  "add_users p ul =
     bindE (assertE (hdr_type p = P_SERVER_NEW_USERS)) (\<lambda>_.
     bindE (add_users_loop p [0..<unat (nu_users_len p)] (user_vec ul)) (\<lambda>us.
       Inr (ul\<lparr>user_vec := us, ul_dirty := True\<rparr>)))"

definition remove_user :: "packet \<Rightarrow> user_list \<Rightarrow> fault + user_list" where
  "remove_user p ul =
     bindE (assertE (hdr_type p = P_SERVER_DEL_USERS)) (\<lambda>_.
       let us = (case find_ix (\<lambda>u. u_id u = du_id p) (user_vec ul) of
                   None \<Rightarrow> user_vec ul
                 | Some i \<Rightarrow> take i (user_vec ul) @ drop (Suc i) (user_vec ul))
       in Inr (ul\<lparr>user_vec := us, ul_dirty := True\<rparr>))"

text \<open>\<^verbatim>\<open>copy\<close>, called by the user interface; \<open>locked\<close> is the result of \<^verbatim>\<open>try_lock\<close>.\<close>

definition copy_users :: "bool \<Rightarrow> user list \<Rightarrow> user_list \<Rightarrow> user list \<times> user_list" where
  "copy_users locked vec ul =
     (if ul_dirty ul \<and> locked then (user_vec ul, ul\<lparr>ul_dirty := False\<rparr>) else (vec, ul))"

section \<open>The members of the session\<close>

text \<open>The cards of the users, and those a packet announces.\<close>

definition user_card :: "user \<Rightarrow> client_id \<times> bytes" where
  "user_card u = (u_id u, u_name u)"

definition cards :: "user_list \<Rightarrow> (client_id \<times> bytes) list" where
  "cards ul = map user_card (user_vec ul)"

definition announced :: "packet \<Rightarrow> (client_id \<times> bytes) list" where
  "announced p = map (\<lambda>i. (nu_id i p, nu_name i p)) [0..<unat (nu_users_len p)]"

lemma add_users_loop_run:
  "\<forall>i \<in> set ix. i < CLIENT_LIST_LEN \<Longrightarrow> add_users_loop p ix us = Inr (us @ map (\<lambda>i. User_new (nu_name i p) (nu_id i p)) ix)"
  by (induction ix arbitrary: us) simp_all

lemma add_users_loop_range:
  "add_users_loop p [m..<n] us =
     (if m < n \<and> CLIENT_LIST_LEN < n then Inl Undefined
      else Inr (us @ map (\<lambda>i. User_new (nu_name i p) (nu_id i p)) [m..<n]))"
proof (induction "n - m" arbitrary: m us)
  case (Suc k)
  then have m: "[m..<n] = m # [Suc m..<n]" by (simp add: upt_conv_Cons)
  show ?case
  proof (cases "CLIENT_LIST_LEN \<le> m")
    case True
    with Suc(2) show ?thesis by (simp add: m)
  next
    case False
    with Suc.hyps(1) [of "Suc m"] Suc(2) show ?thesis by (auto simp: m)
  qed
qed simp

lemma add_users_spec:
  "hdr_type p = P_SERVER_NEW_USERS \<Longrightarrow>
   add_users p ul = (if CLIENT_LIST_LEN < unat (nu_users_len p) then Inl Undefined
     else Inr (ul\<lparr>user_vec := user_vec ul @ map (\<lambda>c. User_new (snd c) (fst c)) (announced p), ul_dirty := True\<rparr>))"
  by (auto simp: add_users_def add_users_loop_range announced_def)

lemma take_drop_nth: "i < length xs \<Longrightarrow> xs = take i xs @ xs ! i # drop (Suc i) xs"
  by (simp add: id_take_nth_drop)

text \<open>Removing the first user with an id, when no id occurs twice, is filtering.\<close>

lemma erase_filter:
  assumes "distinct (map fst xs)" "find_ix (\<lambda>u. fst u = i) xs = Some k"
  shows "take k xs @ drop (Suc k) xs = filter (\<lambda>u. fst u \<noteq> i) xs"
  using assms
proof (induction xs arbitrary: k)
  case (Cons x xs)
  show ?case
  proof (cases "fst x = i")
    case True
    with Cons.prems(1) have "i \<notin> fst ` set xs" by simp
    then have "\<forall>u \<in> set xs. fst u \<noteq> i" by (metis imageI)
    with True Cons.prems(2) show ?thesis by simp
  next
    case False
    with Cons show ?thesis by auto
  qed
qed simp

lemma find_ix_map: "find_ix P (map f xs) = find_ix (\<lambda>x. P (f x)) xs"
  by (induction xs) simp_all

lemma remove_user_spec:
  assumes "hdr_type p = P_SERVER_DEL_USERS" "distinct (map fst (cards ul))"
  shows "\<exists>us. remove_user p ul = Inr (ul\<lparr>user_vec := us, ul_dirty := True\<rparr>) \<and>
    map user_card us = filter (\<lambda>c. fst c \<noteq> du_id p) (cards ul)"
proof (cases "find_ix (\<lambda>u. u_id u = du_id p) (user_vec ul)")
  case None
  then have "\<forall>c \<in> set (cards ul). fst c \<noteq> du_id p" by (auto simp: find_ix_None cards_def user_card_def)
  then have "filter (\<lambda>c. fst c \<noteq> du_id p) (cards ul) = map user_card (user_vec ul)"
    by (simp add: cards_def)
  with None assms(1) show ?thesis
    by (intro exI [of _ "user_vec ul"]) (simp add: remove_user_def)
next
  case (Some k)
  then have "find_ix (\<lambda>c. fst c = du_id p) (cards ul) = Some k"
    by (simp add: cards_def find_ix_map user_card_def)
  from erase_filter [OF assms(2) this] Some assms(1) show ?thesis
    by (intro exI [of _ "take k (user_vec ul) @ drop (Suc k) (user_vec ul)"])
      (simp add: remove_user_def cards_def take_map drop_map)
qed

text \<open>The packets of the server about users, and the map they make.\<close>

definition users_packet :: "packet \<Rightarrow> user_list \<Rightarrow> fault + user_list" where
  "users_packet p ul = (if hdr_type p = P_SERVER_NEW_USERS then add_users p ul else remove_user p ul)"

fun users_run :: "packet list \<Rightarrow> user_list \<Rightarrow> fault + user_list" where
  "users_run [] ul = Inr ul"
| "users_run (p # ps) ul = bindE (users_packet p ul) (users_run ps)"

type_synonym members = "client_id \<rightharpoonup> bytes"

definition member_step :: "packet \<Rightarrow> members \<Rightarrow> members" where
  "member_step p m = (if hdr_type p = P_SERVER_NEW_USERS then m ++ map_of (announced p) else m(du_id p := None))"

text \<open>Newcomers have ids that no member has.\<close>

fun fresh_joins :: "packet list \<Rightarrow> members \<Rightarrow> bool" where
  "fresh_joins [] m \<longleftrightarrow> True"
| "fresh_joins (p # ps) m \<longleftrightarrow>
     (hdr_type p = P_SERVER_NEW_USERS \<and> unat (nu_users_len p) \<le> CLIENT_LIST_LEN \<and>
        distinct (map fst (announced p)) \<and> fst ` set (announced p) \<inter> dom m = {} \<or> hdr_type p = P_SERVER_DEL_USERS) \<and>
     fresh_joins ps (member_step p m)"

lemma map_of_filter: "map_of (filter (\<lambda>c. fst c \<noteq> i) xs) = (map_of xs)(i := None)"
  by (induction xs) (auto simp: fun_upd_twist)

lemma users_packet_refines:
  assumes "distinct (map fst (cards ul))" "fresh_joins [p] (map_of (cards ul))"
  shows "\<exists>ul1. users_packet p ul = Inr ul1 \<and> distinct (map fst (cards ul1)) \<and> ul_dirty ul1 \<and>
    map_of (cards ul1) = member_step p (map_of (cards ul)) \<and>
    set (cards ul1) \<subseteq> set (cards ul) \<union> (if hdr_type p = P_SERVER_NEW_USERS then set (announced p) else {})"
proof (cases "hdr_type p = P_SERVER_NEW_USERS")
  case True
  let ?ul = "ul\<lparr>user_vec := user_vec ul @ map (\<lambda>c. User_new (snd c) (fst c)) (announced p), ul_dirty := True\<rparr>"
  have n: "unat (nu_users_len p) \<le> CLIENT_LIST_LEN" "distinct (map fst (announced p))"
    "fst ` set (announced p) \<inter> fst ` set (cards ul) = {}"
    using assms(2) True by (auto simp: dom_map_of_conv_image_fst)
  have c: "cards ?ul = cards ul @ announced p"
    by (simp add: cards_def user_card_def User_new_def o_def)
  have "map_of (cards ul @ announced p) = map_of (cards ul) ++ map_of (announced p)"
    using n(3) by (metis map_add_comm dom_map_of_conv_image_fst map_of_append inf_commute)
  moreover have "distinct (map fst (cards ul @ announced p))" using assms(1) n by auto
  moreover have "users_packet p ul = Inr ?ul" using True n(1) by (simp add: users_packet_def add_users_spec)
  ultimately show ?thesis using True c
    by (intro exI [of _ ?ul]) (simp add: member_step_def)
next
  case False
  with assms(2) have t: "hdr_type p = P_SERVER_DEL_USERS" by simp
  from remove_user_spec [OF t assms(1)] obtain us where
    u: "remove_user p ul = Inr (ul\<lparr>user_vec := us, ul_dirty := True\<rparr>)"
       "map user_card us = filter (\<lambda>c. fst c \<noteq> du_id p) (cards ul)" by blast
  then have c: "cards (ul\<lparr>user_vec := us, ul_dirty := True\<rparr>) = filter (\<lambda>c. fst c \<noteq> du_id p) (cards ul)"
    by (simp add: cards_def)
  have "distinct (map fst (filter (\<lambda>c. fst c \<noteq> du_id p) (cards ul)))" using assms(1) by (rule distinct_map_filter)
  with u(1) c False show ?thesis by (auto simp: users_packet_def member_step_def map_of_filter)
qed

lemma users_run_refines:
  "distinct (map fst (cards ul)) \<Longrightarrow> fresh_joins ps (map_of (cards ul)) \<Longrightarrow>
   \<exists>ul1. users_run ps ul = Inr ul1 \<and> distinct (map fst (cards ul1)) \<and>
     map_of (cards ul1) = fold member_step ps (map_of (cards ul))"
proof (induction ps arbitrary: ul)
  case (Cons p ps)
  from Cons.prems(2) have "fresh_joins [p] (map_of (cards ul))" by simp
  from users_packet_refines [OF Cons.prems(1) this] obtain ul1 where
    1: "users_packet p ul = Inr ul1" "distinct (map fst (cards ul1))" "map_of (cards ul1) = member_step p (map_of (cards ul))"
    by blast
  with Cons.IH [OF 1(2)] Cons.prems(2) show ?case by simp
qed simp

section \<open>An example\<close>

definition joins_7 :: packet where
  "joins_7 = set_nu_users_len 1 (set_nu_id 0 7 (PACKET_HDR P_SERVER_NEW_USERS sizeof_new_users zero_packet))"

definition leaves_7 :: packet where
  "leaves_7 = set_du_id 7 (PACKET_HDR P_SERVER_DEL_USERS sizeof_del_user zero_packet)"

lemma joins_leaves_7: "hdr_type joins_7 = P_SERVER_NEW_USERS" "nu_users_len joins_7 = 1" "nu_id 0 joins_7 = 7"
  "hdr_type leaves_7 = P_SERVER_DEL_USERS" "du_id leaves_7 = 7"
  by (simp_all add: joins_7_def leaves_7_def packet_field_defs byte_simps)

end
