(* ===== verification/Client_Server.thy ===== *)
theory Client_Server
  imports Net_Intro Client_Users
begin

text \<open>
  Both ends together: what the server tells a member about the others, and the list of users the
  client keeps of it.
\<close>

section \<open>What the server tells\<close>

text \<open>
  The messages are those \<open>packet_intro_spec\<close> and the closing of a client post: the list of members to a
  newcomer, in an element of the queue that was clear, and a notice of each coming and going.
\<close>

datatype member_event = Welcome "(client_id \<times> bytes) list" | Joins client_id bytes | Leaves client_id bytes

fun tells :: "member_event \<Rightarrow> packet \<Rightarrow> bool" where
  "tells (Welcome us) p \<longleftrightarrow> session_list {0} us p"
| "tells (Joins i nm) p \<longleftrightarrow> user_notice P_SERVER_NEW_USERS i nm p"
| "tells (Leaves i nm) p \<longleftrightarrow> user_notice P_SERVER_DEL_USERS i nm p"

fun joiners :: "member_event \<Rightarrow> (client_id \<times> bytes) list" where
  "joiners (Welcome us) = us"
| "joiners (Joins i nm) = [(i, nm)]"
| "joiners (Leaves i nm) = []"

fun after_event :: "member_event \<Rightarrow> members \<Rightarrow> members" where
  "after_event (Welcome us) m = m ++ map_of us"
| "after_event (Joins i nm) m = m(i \<mapsto> nm)"
| "after_event (Leaves i nm) m = m(i := None)"

text \<open>No newcomer has the id of a member, as long as the clock gives each client its own.\<close>

fun fresh_events :: "member_event list \<Rightarrow> members \<Rightarrow> bool" where
  "fresh_events [] m \<longleftrightarrow> True"
| "fresh_events (e # es) m \<longleftrightarrow> length (joiners e) \<le> CLIENT_LIST_LEN \<and> distinct (map fst (joiners e)) \<and>
     fst ` set (joiners e) \<inter> dom m = {} \<and> fresh_events es (after_event e m)"

lemma announced_list:
  assumes "session_list {0} us p" "length us \<le> CLIENT_LIST_LEN"
  shows "announced p = us"
proof -
  have n: "unat (nu_users_len p) = length us" using assms by (simp add: session_list_def unat_of_nat)
  then show ?thesis using assms(1) by (intro nth_equalityI) (simp_all add: announced_def session_list_def)
qed

lemma announced_notice:
  "user_notice P_SERVER_NEW_USERS i nm p \<Longrightarrow> announced p = [(i, nm)]"
  by (simp add: user_notice_def announced_def)

lemma tells_packet:
  assumes "tells e p" "length (joiners e) \<le> CLIENT_LIST_LEN" "distinct (map fst (joiners e))" "fst ` set (joiners e) \<inter> dom m = {}"
  shows "fresh_joins [p] m" "member_step p m = after_event e m"
proof -
  have "fresh_joins [p] m \<and> member_step p m = after_event e m"
  proof (cases e)
    case (Welcome us)
    with announced_list [of us p] assms have "announced p = us" "hdr_type p = P_SERVER_NEW_USERS"
      "unat (nu_users_len p) \<le> CLIENT_LIST_LEN"
      by (simp_all add: session_list_def unat_of_nat)
    with Welcome assms show ?thesis by (simp add: member_step_def)
  next
    case (Joins i nm)
    with assms announced_notice [of i nm p] show ?thesis
      by (simp add: member_step_def user_notice_def map_add_def fun_eq_iff)
  next
    case (Leaves i nm)
    with assms show ?thesis by (simp add: member_step_def user_notice_def)
  qed
  then show "fresh_joins [p] m" "member_step p m = after_event e m" by simp_all
qed

lemma tells_run:
  "list_all2 tells es ps \<Longrightarrow> fresh_events es m \<Longrightarrow>
   fresh_joins ps m \<and> fold member_step ps m = fold after_event es m"
proof (induction es ps arbitrary: m rule: list_all2_induct)
  case (Cons e es p ps)
  with tells_packet [of e p m] show ?case by auto
qed simp

section \<open>Properties\<close>

text \<open>
  C17: the client mirrors the members of its session: after any sequence of messages that tell of lists
  of members, of comings and of goings, the list of users of the client is, as a map from ids to names,
  the map these events make. It is so for lists of at most 32 members that the server wrote into an
  element with count 0, when the ids of newcomers differ from each other and from those of the members
  listed (\<open>fresh_events\<close>): clients that the server accepts in the same second break this.
\<close>

theorem client_mirrors_session:
  assumes "list_all2 tells es ps" "fresh_events es (map_of (cards ul))" "distinct (map fst (cards ul))"
  shows "\<exists>ul1. users_run ps ul = Inr ul1 \<and> map_of (cards ul1) = fold after_event es (map_of (cards ul)) \<and>
    distinct (map fst (cards ul1))"
  using users_run_refines [OF assms(3), of ps] tells_run [OF assms(1,2)] by auto

theorem client_mirrors_session_witness:
  "\<exists>ul1. users_run [joins_7, leaves_7] User_List_new = Inr ul1 \<and> map_of (cards ul1) = Map.empty"
proof -
  let ?nm = "nu_name 0 joins_7"
  have "tells (Joins 7 ?nm) joins_7" "tells (Leaves 7 (du_name leaves_7)) leaves_7"
    by (simp_all add: user_notice_def joins_7_def leaves_7_def packet_field_defs byte_simps)
  then have "list_all2 tells [Joins 7 ?nm, Leaves 7 (du_name leaves_7)] [joins_7, leaves_7]" by simp
  from client_mirrors_session [OF this, of User_List_new] show ?thesis
    by (auto simp: User_List_new_def cards_def)
qed

end
