(* ===== verification/Client_Network.thy ===== *)
theory Client_Network
  imports Client_Users
begin

text \<open>
  The network thread of the client, \<^verbatim>\<open>src/network.cpp\<close>: it connects, hands at most one packet a turn
  to TLS, cuts the bytes of the server into packets and gives them to the transfers and the list of
  users. The singletons \<^verbatim>\<open>Network\<close>, \<^verbatim>\<open>Transfer_Manager\<close>, \<^verbatim>\<open>User_List\<close>, the memory pool and the table of threads
  are the components of one state.
\<close>

section \<open>The state\<close>

datatype net_state = UNINITIALIZED | INIT_ERROR | NET_ERROR | OPENED | CONNECTED | SESSION_ERROR | SESSION_SUCCESS

text \<open>A queued request for a session.\<close>

record session_msg =
  s_name :: bytes
  s_id :: bytes
  s_opt :: bool

record packet_buf =
  pb_packet :: packet
  pb_len :: u32
  pb_size :: u32

text \<open>The table of threads: the flag of each slot and the number of slots in use.\<close>

record thread_table =
  th_active :: "bool list"
  th_num :: nat

record network =
  nw_sock :: int
  nw_want_write :: bool
  nw_state :: net_state
  nw_queue :: "session_msg lf_queue"
  nw_rbuf :: packet_buf
  nw_wbuf :: packet_buf
  nw_ssl_ctx :: u64
  nw_ssl :: u64
  nw_pool :: memory_pool
  nw_threads :: thread_table
  nw_tm :: transfer_manager
  nw_users :: user_list

abbreviation SERVER_MSG_QUEUE_SIZE :: u64 where "SERVER_MSG_QUEUE_SIZE \<equiv> 6"
abbreviation MAX_THREAD_NUMBER :: nat where "MAX_THREAD_NUMBER \<equiv> 8"

section \<open>Threads\<close>

definition new_thread :: "thread_table \<Rightarrow> bool \<times> thread_table" where
  "new_thread tt =
     (if th_num tt = MAX_THREAD_NUMBER then (False, tt)
      else (True, tt\<lparr>th_active := (th_active tt)[th_num tt := True], th_num := th_num tt + 1\<rparr>))"

definition close_all :: "thread_table \<Rightarrow> thread_table" where
  "close_all tt = tt\<lparr>th_active := fold (\<lambda>i a. a[i := False]) [0..<th_num tt] (th_active tt), th_num := 0\<rparr>"

section \<open>Requests for a session\<close>

text \<open>\<open>raw\<close>: what the members of the object hold before the constructor runs.\<close>

definition Session_new :: "session_msg \<Rightarrow> bytes \<Rightarrow> bytes \<Rightarrow> bool \<Rightarrow> fault + session_msg" where
  "Session_new raw name sid opt =
     bindE (safe_strcpy (s_name raw) name PC_NAME_MAX_LEN) (\<lambda>n.
     bindE (safe_strcpy (s_id raw) sid SESSION_ID_MAX_LEN) (\<lambda>i.
       Inr \<lparr>s_name = n, s_id = i, s_opt = opt\<rparr>))"

definition set_intro_session :: "u64 \<Rightarrow> packet \<Rightarrow> packet" where "set_intro_session v p = put_u64 40 v p"

definition to_packet :: "session_msg \<Rightarrow> packet \<Rightarrow> fault + packet" where
  "to_packet m p =
     (let p1 = PACKET_HDR P_CLIENT_INTRO sizeof_intro p in
      bindE (safe_strcpy (get_bytes 24 SESSION_ID_MAX_LEN p1) (s_id m) SESSION_ID_MAX_LEN) (\<lambda>i.
      let p2 = put_bytes 24 i p1 in
      bindE (safe_strcpy (get_bytes 8 PC_NAME_MAX_LEN p2) (s_name m) PC_NAME_MAX_LEN) (\<lambda>n.
      Inr (set_intro_session (of_bool (s_opt m)) (put_bytes 8 n p2)))))"

definition start_network :: "network \<Rightarrow> fault + network" where
  "start_network s =
     (let (ok, tt) = new_thread (nw_threads s) in
      bindE (assertE ok) (\<lambda>_. Inr (s\<lparr>nw_threads := tt, nw_state := OPENED\<rparr>)))"

text \<open>\<^verbatim>\<open>session\<close>, called by the user interface.\<close>

definition session :: "session_msg \<Rightarrow> bytes \<Rightarrow> bytes \<Rightarrow> bool \<Rightarrow> network \<Rightarrow> fault + network" where
  "session raw name sid opt s =
     (let current = nw_state s; can_queue = (current = UNINITIALIZED \<or> current = SESSION_ERROR) in
      bindE (if current = UNINITIALIZED then start_network s else Inr s) (\<lambda>s1.
        if \<not> can_queue then Inr s1
        else bindE (Session_new raw name sid opt) (\<lambda>m.
          let (ok, q) = push m (nw_queue s1) in
          bindE (assertE ok) (\<lambda>_. Inr (s1\<lparr>nw_queue := q, nw_state := CONNECTED\<rparr>)))))"

section \<open>Packets of the server\<close>

definition server_response :: "packet \<Rightarrow> network \<Rightarrow> network" where
  "server_response p s = s\<lparr>nw_state := if hdr_type p = P_SERVER_OK then SESSION_SUCCESS else SESSION_ERROR\<rparr>"

definition update_users :: "packet \<Rightarrow> network \<Rightarrow> fault + network" where
  "update_users p s =
     bindE (if hdr_type p = P_SERVER_NEW_USERS then add_users p (nw_users s) else remove_user p (nw_users s))
       (\<lambda>ul. Inr (s\<lparr>nw_users := ul\<rparr>))"

definition analize :: "'w cenv \<Rightarrow> network \<Rightarrow> 'w \<Rightarrow> fault + (network \<times> 'w)" where
  "analize E s w =
     (let p = pb_packet (nw_rbuf s); ty = hdr_type p; tm = nw_tm s in
      if ty = P_SERVER_OK \<or> ty = P_SERVER_DENY then Inr (server_response p s, w)
      else if ty = P_SERVER_NEW_USERS \<or> ty = P_SERVER_DEL_USERS
      then bindE (update_users p s) (\<lambda>s1. Inr (s1, w))
      else if ty = P_TRANSFER_REQUEST
      then bindE (create_recv_request E p tm w) (\<lambda>(ok, tm1, w1).
             bindE (assertE ok) (\<lambda>_. Inr (s\<lparr>nw_tm := tm1\<rparr>, w1)))
      else if ty = P_TRANSFER_VALID \<or> ty = P_TRANSFER_INVALID
      then Inr (s\<lparr>nw_tm := host_request_valid p (ty = P_TRANSFER_VALID) tm\<rparr>, w)
      else if ty = P_TRANSFER_CANCEL then Inr (s\<lparr>nw_tm := recv_cancel p tm\<rparr>, w)
      else if ty = P_TRANSFER_REPLY
      then Inr (s\<lparr>nw_tm := host_request_reply (th_t_id p) (th_from p) (tr_accept p \<noteq> 0) tm\<rparr>, w)
      else if ty = P_TRANSFER_DATA
      then bindE (recv_data E p tm w) (\<lambda>(tm1, w1). Inr (s\<lparr>nw_tm := tm1\<rparr>, w1))
      else if ty = P_TRANSFER_COMPLETE
      then (let (tm1, w1) = recv_complete E (th_t_id p) tm w in Inr (s\<lparr>nw_tm := tm1\<rparr>, w1))
      else Inr (s, w))"

section \<open>Reading\<close>

text \<open>The length \<^verbatim>\<open>SSL_read\<close> is asked for: a \<^verbatim>\<open>size_t\<close>, passed as an \<^verbatim>\<open>int\<close>.\<close>

definition read_request :: "packet_buf \<Rightarrow> int" where
  "read_request b = sint (ucast (8 + ucast (pb_size b) - ucast (pb_len b) :: u64) :: u32)"

text \<open>The bytes that came, and the size of the header once it is complete.\<close>

definition append_rbuf :: "bytes \<Rightarrow> packet_buf \<Rightarrow> fault + packet_buf" where
  "append_rbuf bs b =
     (if PACKET_MAX_SIZE < unat (pb_len b) + length bs then Inl Undefined
      else let b1 = b\<lparr>pb_packet := put_bytes (unat (pb_len b)) bs (pb_packet b),
                      pb_len := pb_len b + of_nat (length bs)\<rparr>
           in Inr (if pb_len b1 = of_nat sizeof_Packet_Hdr then b1\<lparr>pb_size := hdr_size (pb_packet b1)\<rparr> else b1))"

definition rbuf_complete :: "packet_buf \<Rightarrow> bool" where
  "rbuf_complete b \<longleftrightarrow> (ucast (pb_len b) :: u64) = ucast (pb_size b) + of_nat sizeof_Packet_Hdr"

definition reset_buf :: "packet_buf \<Rightarrow> packet_buf" where
  "reset_buf b = b\<lparr>pb_size := 0, pb_len := 0\<rparr>"

text \<open>The branch of the loop for bytes that came.\<close>

definition take_bytes :: "'w cenv \<Rightarrow> bytes \<Rightarrow> network \<Rightarrow> 'w \<Rightarrow> fault + (network \<times> 'w)" where
  "take_bytes E bs s w =
     bindE (append_rbuf bs (nw_rbuf s)) (\<lambda>b.
       let s1 = s\<lparr>nw_rbuf := b\<rparr> in
       if rbuf_complete b
       then bindE (analize E s1 w) (\<lambda>(s2, w1). Inr (s2\<lparr>nw_rbuf := reset_buf (nw_rbuf s2)\<rparr>, w1))
       else Inr (s1, w))"

text \<open>The body of the loop of \<^verbatim>\<open>read_data\<close>; \<open>True\<close> when it breaks.\<close>

definition read_turn :: "'w cenv \<Rightarrow> network \<Rightarrow> 'w \<Rightarrow> fault + (bool \<times> network \<times> 'w)" where
  "read_turn E s w =
     (let (r, w1) = c_SSL_read E (nw_ssl s) (read_request (nw_rbuf s)) w;
          nbytes = (case r of Inl k \<Rightarrow> - int k | Inr bs \<Rightarrow> int (length bs));
          bs = (case r of Inl k \<Rightarrow> [] | Inr bs \<Rightarrow> bs);
          err = c_SSL_get_error E (nw_ssl s) nbytes w1
      in if 0 < nbytes then bindE (take_bytes E bs s w1) (\<lambda>(s1, w2). Inr (False, s1, w2))
         else if err = CE_ZERO_RETURN \<or> err = CE_SSL \<or> err = CE_SYSCALL then Inl Assert_Failed
         else Inr (err = CE_WANT_WRITE \<or> err = CE_WANT_READ, s, w1))"

fun Network_read_data :: "'w cenv \<Rightarrow> nat \<Rightarrow> network \<Rightarrow> 'w \<Rightarrow> fault + (network \<times> 'w)" where
  "Network_read_data E n s w =
     bindE (read_turn E s w) (\<lambda>(brk, s1, w1).
       if brk \<or> \<not> c_SSL_pending E (nw_ssl s1) w1 then Inr (s1, w1)
       else (case n of 0 \<Rightarrow> Inl Out_Of_Fuel | Suc m \<Rightarrow> Network_read_data E m s1 w1))"

declare Network_read_data.simps [simp del]


section \<open>Writing\<close>

text \<open>
  \<^verbatim>\<open>do_work\<close> writes its packet into \<^verbatim>\<open>wbuf.packet\<close>; a queue of commands has room for 8, so 8 turns of
  \<^verbatim>\<open>process_cmds\<close> are enough.
\<close>

definition convert_msg :: "'w cenv \<Rightarrow> network \<Rightarrow> 'w \<Rightarrow> fault + (bool \<times> network \<times> 'w)" where
  "convert_msg E s w =
     bindE (do_work E 8 (nw_tm s) (pb_packet (nw_wbuf s)) w) (\<lambda>(work, tm1, p, w1).
       let s1 = s\<lparr>nw_tm := tm1, nw_wbuf := (nw_wbuf s)\<lparr>pb_packet := p\<rparr>\<rparr>;
           filled = (\<lambda>q. \<lparr>pb_packet = q, pb_len = 0, pb_size = hdr_size q + of_nat sizeof_Packet_Hdr\<rparr>)
       in case work of
            NO_WORK \<Rightarrow>
              (case peek (nw_queue s1) of
                 None \<Rightarrow> Inr (False, s1, w1)
               | Some m \<Rightarrow> bindE (to_packet m p) (\<lambda>q.
                   Inr (True, s1\<lparr>nw_queue := snd (pop (nw_queue s1)), nw_wbuf := filled q\<rparr>, w1)))
          | WAIT_WORK \<Rightarrow> Inr (True, s1\<lparr>nw_wbuf := reset_buf (nw_wbuf s1)\<rparr>, w1)
          | HAS_WORK \<Rightarrow> Inr (True, s1\<lparr>nw_wbuf := filled p\<rparr>, w1))"

text \<open>
  \<^verbatim>\<open>wbuf.packet + wbuf.len\<close> advances by whole packets: with a length other than 0 it points outside the
  buffer. The bytes \<^verbatim>\<open>SSL_write\<close> is given must lie inside it.
\<close>

definition Network_write_data :: "'w cenv \<Rightarrow> network \<Rightarrow> 'w \<Rightarrow> fault + (network \<times> 'w)" where
  "Network_write_data E s w =
     (let b = nw_wbuf s in
      if pb_size b - pb_len b = 0 then Inr (s, w)
      else if pb_len b \<noteq> 0 \<or> PACKET_MAX_SIZE < unat (pb_size b) then Inl Undefined
      else let (nbytes, w1) = c_SSL_write E (nw_ssl s) (take (unat (pb_size b)) (pb_packet b)) w in
        if 0 < nbytes
        then let b1 = b\<lparr>pb_len := pb_len b + of_int nbytes\<rparr>
             in Inr (s\<lparr>nw_wbuf := if pb_len b1 = pb_size b1 then reset_buf b1 else b1\<rparr>, w1)
        else Inl Assert_Failed)"

definition check_write :: "'w cenv \<Rightarrow> network \<Rightarrow> 'w \<Rightarrow> fault + (network \<times> 'w)" where
  "check_write E s w =
     (let s1 = s\<lparr>nw_want_write := False\<rparr> in
      if pb_len (nw_wbuf s1) = 0
      then bindE (convert_msg E s1 w) (\<lambda>(b, s2, w1). Inr (if b then s2\<lparr>nw_want_write := True\<rparr> else s2, w1))
      else Inr (s1, w))"

section \<open>The connection\<close>

text \<open>One turn of the loop of \<^verbatim>\<open>handle\<close>; \<open>False\<close> when it returns because of an error.\<close>

definition handle_turn :: "'w cenv \<Rightarrow> nat \<Rightarrow> network \<Rightarrow> 'w \<Rightarrow> fault + (bool \<times> network \<times> 'w)" where
  "handle_turn E n s w =
     bindE (check_write E s w) (\<lambda>(s1, w1).
       let (r, w2) = c_poll E (nw_sock s1) (nw_want_write s1) w1 in
       if pr_ready r < 0 \<or> pr_error r then Inr (False, s1\<lparr>nw_state := NET_ERROR\<rparr>, w2)
       else bindE (if pr_read r then Network_read_data E n s1 w2 else Inr (s1, w2)) (\<lambda>(s2, w3).
            bindE (if pr_write r then Network_write_data E s2 w3 else Inr (s2, w3)) (\<lambda>(s3, w4).
              Inr (True, s3, w4))))"

fun handle_loop :: "'w cenv \<Rightarrow> nat \<Rightarrow> nat \<Rightarrow> network \<Rightarrow> 'w \<Rightarrow> fault + (network \<times> 'w)" where
  "handle_loop E n k s w =
     (if \<not> c_active E w then Inr (s, w)
      else case k of 0 \<Rightarrow> Inl Out_Of_Fuel | Suc j \<Rightarrow>
        bindE (handle_turn E n s w) (\<lambda>(go, s1, w1). if go then handle_loop E n j s1 w1 else Inr (s1, w1)))"

declare handle_loop.simps [simp del]

definition handle :: "'w cenv \<Rightarrow> nat \<Rightarrow> nat \<Rightarrow> network \<Rightarrow> 'w \<Rightarrow> fault + (network \<times> 'w)" where
  "handle E n k s w = handle_loop E n k (s\<lparr>nw_want_write := False\<rparr>) w"

text \<open>\<^verbatim>\<open>EINPROGRESS\<close> or \<^verbatim>\<open>EAGAIN\<close> after a failed \<^verbatim>\<open>connect\<close> leads to a \<^verbatim>\<open>select\<close> for three seconds.\<close>

definition tcp_connect :: "'w cenv \<Rightarrow> network \<Rightarrow> 'w \<Rightarrow> bool \<times> 'w" where
  "tcp_connect E s w =
     (let (rc, w1) = c_connect E (nw_sock s) w in
      if 0 \<le> rc then (True, w1)
      else if c_in_progress E w1
      then let ((n_events, is_set), w2) = c_select_write E (nw_sock s) w1
           in (0 < n_events \<and> is_set \<and> c_so_error E (nw_sock s) w2 = 0, w2)
      else (False, w1))"

fun tls_loop :: "'w cenv \<Rightarrow> nat \<Rightarrow> network \<Rightarrow> int \<Rightarrow> 'w \<Rightarrow> fault + (bool \<times> 'w)" where
  "tls_loop E n s ret w =
     (if 0 < ret then Inr (True, w)
      else let err = c_SSL_get_error E (nw_ssl s) ret w in
        if err = CE_WANT_READ \<or> err = CE_WANT_WRITE
        then let ((n_events, is_set), w1) = c_select_any E (nw_sock s) w in
          if 0 < n_events \<and> is_set
          then (case n of 0 \<Rightarrow> Inl Out_Of_Fuel | Suc m \<Rightarrow>
                 let (ret1, w2) = c_SSL_do_handshake E (nw_ssl s) w1 in tls_loop E m s ret1 w2)
          else Inr (False, w1)
        else Inr (False, w))"

declare tls_loop.simps [simp del]

definition tls_connect :: "'w cenv \<Rightarrow> nat \<Rightarrow> network \<Rightarrow> 'w \<Rightarrow> fault + (bool \<times> 'w)" where
  "tls_connect E n s w = (let (ret, w1) = c_SSL_do_handshake E (nw_ssl s) w in tls_loop E n s ret w1)"

datatype conn_state = C_INIT | C_ERROR | C_TCP_CONNECT | C_TLS_CONNECT

text \<open>
  The loop of \<^verbatim>\<open>init_conn\<close>: the three calls that prepare the TLS object are \<^verbatim>\<open>c_SSL_new\<close>, which
  includes setting the connect state, and \<^verbatim>\<open>c_SSL_set_fd\<close>.
\<close>

fun conn_loop :: "'w cenv \<Rightarrow> nat \<Rightarrow> nat \<Rightarrow> conn_state \<Rightarrow> network \<Rightarrow> 'w \<Rightarrow> fault + (bool \<times> network \<times> 'w)" where
  "conn_loop E n k st s w =
     (if \<not> c_active E w then Inr (True, s, w)
      else case k of 0 \<Rightarrow> Inl Out_Of_Fuel | Suc j \<Rightarrow>
        (case st of
           C_INIT \<Rightarrow>
             let (h, w1) = c_SSL_new E (nw_ssl_ctx s) w; s1 = s\<lparr>nw_ssl := h\<rparr> in
             if h = 0 then Inr (False, s1\<lparr>nw_state := INIT_ERROR\<rparr>, w1)
             else conn_loop E n j C_TCP_CONNECT s1 (c_SSL_set_fd E h (nw_sock s1) w1)
         | C_TCP_CONNECT \<Rightarrow>
             let (ok, w1) = tcp_connect E s w in
             if ok then conn_loop E n j C_TLS_CONNECT s w1 else conn_loop E n j C_TCP_CONNECT s (c_sleep E w1)
         | C_TLS_CONNECT \<Rightarrow>
             bindE (tls_connect E n s w) (\<lambda>(ok, w1).
               if ok then Inr (True, s\<lparr>nw_state := CONNECTED\<rparr>, w1) else conn_loop E n j C_ERROR s w1)
         | C_ERROR \<Rightarrow>
             conn_loop E n j C_INIT (s\<lparr>nw_ssl := 0\<rparr>) (c_sleep E (c_SSL_free E (nw_ssl s) w))))"

declare conn_loop.simps [simp del]

definition init_conn :: "'w cenv \<Rightarrow> nat \<Rightarrow> nat \<Rightarrow> network \<Rightarrow> 'w \<Rightarrow> fault + (bool \<times> network \<times> 'w)" where
  "init_conn E n k s w = conn_loop E n k C_INIT s w"

text \<open>\<^verbatim>\<open>O_NONBLOCK\<close>, and the socket of \<^verbatim>\<open>Connection\<close>.\<close>

abbreviation O_NONBLOCK :: int where "O_NONBLOCK \<equiv> 2048"

definition create_socket :: "'w cenv \<Rightarrow> network \<Rightarrow> 'w \<Rightarrow> bool \<times> network \<times> 'w" where
  "create_socket E s w = (let (fd, w1) = c_socket E w in (0 \<le> fd, s\<lparr>nw_sock := fd\<rparr>, w1))"

definition set_non_blocking :: "'w cenv \<Rightarrow> network \<Rightarrow> 'w \<Rightarrow> 'w" where
  "set_non_blocking E s w = c_setfl E (nw_sock s) (or (c_getfl E (nw_sock s) w) O_NONBLOCK) w"

text \<open>\<^verbatim>\<open>init\<close>; \<open>mem\<close> is what the memory of an allocation holds.\<close>

definition init :: "'w cenv \<Rightarrow> (u64 \<Rightarrow> nat \<Rightarrow> bytes) \<Rightarrow> network \<Rightarrow> 'w \<Rightarrow> bool \<times> network \<times> 'w" where
  "init E mem s w =
     (let (ctx, w1) = SSL_CTX_new E w;
          (ra, pool1) = alloc (of_nat PACKET_MAX_SIZE) (nw_pool s);
          (wa, pool2) = alloc (of_nat PACKET_MAX_SIZE) pool1;
          s1 = s\<lparr>nw_ssl_ctx := ctx, nw_pool := pool2,
                 nw_rbuf := \<lparr>pb_packet = mem ra PACKET_MAX_SIZE, pb_len = 0, pb_size = 0\<rparr>,
                 nw_wbuf := \<lparr>pb_packet = mem wa PACKET_MAX_SIZE, pb_len = 0, pb_size = 0\<rparr>\<rparr>;
          (ok, s2, w2) = (if ctx = 0 \<or> ra = 0 \<or> wa = 0 then (False, s1, w1) else create_socket E s1 w1)
      in if \<not> ok then (False, s2\<lparr>nw_state := INIT_ERROR\<rparr>, w2)
         else (True, s2, set_non_blocking E s2 w2))"

definition clean :: "'w cenv \<Rightarrow> network \<Rightarrow> 'w \<Rightarrow> network \<times> 'w" where
  "clean E s w =
     (let w1 = (if nw_ssl s \<noteq> 0 then c_SSL_free E (nw_ssl s) w else w);
          w2 = (if nw_ssl_ctx s \<noteq> 0 then SSL_CTX_free E (nw_ssl_ctx s) w1 else w1);
          w3 = (if nw_sock s \<noteq> 0 then c_close E (nw_sock s) w2 else w2)
      in (s\<lparr>nw_state := UNINITIALIZED, nw_ssl := 0, nw_ssl_ctx := 0\<rparr>, w3))"

fun Network_server_loop :: "'w cenv \<Rightarrow> (u64 \<Rightarrow> nat \<Rightarrow> bytes) \<Rightarrow> nat \<Rightarrow> nat \<Rightarrow> network \<Rightarrow> 'w \<Rightarrow>
    fault + (network \<times> 'w)" where
  "Network_server_loop E mem n k s w =
     (if \<not> c_active E w then Inr (s, w)
      else case k of 0 \<Rightarrow> Inl Out_Of_Fuel | Suc j \<Rightarrow>
        (let (ok, s1, w1) = init E mem s w in
         if \<not> ok then Inr (s1, w1)
         else bindE (init_conn E n n s1 w1) (\<lambda>(ready, s2, w2).
              bindE (if ready then handle E n n s2 w2 else Inr (s2, w2)) (\<lambda>(s3, w3).
                if nw_state s3 = NET_ERROR then Inr (s3, w3)
                else let (s4, w4) = clean E s3 w3 in Network_server_loop E mem n j s4 w4))))"

declare Network_server_loop.simps [simp del]

text \<open>The constructors of the singletons, with \<^verbatim>\<open>state\<close> set to \<^verbatim>\<open>UNINITIALIZED\<close>.\<close>

definition Network_new :: "u64 \<Rightarrow> (nat \<Rightarrow> session_msg) \<Rightarrow> network \<Rightarrow> fault + network" where
  "Network_new node_size raw s =
     bindE (LockFreeQueue node_size raw SERVER_MSG_QUEUE_SIZE (nw_pool s)) (\<lambda>(q, pool1).
       Inr (s\<lparr>nw_sock := 0, nw_queue := q, nw_ssl_ctx := 0, nw_ssl := 0, nw_state := UNINITIALIZED, nw_pool := pool1\<rparr>))"

end
