(* ===== verification/Transfer_Properties.thy ===== *)
theory Transfer_Properties
  imports Transfer_States
begin

text \<open>
  What the transfers of the client promise: the state machines over whole runs, the settling of a
  request, the request on the wire, the order of commands, and three ways in which transfers go wrong.
\<close>

section \<open>The initial manager\<close>

lemma init_reads_spec:
  "init_reads mem ts pool = Inr (ts1, pool1) \<Longrightarrow> length ts1 = length ts \<and>
   (\<forall>i < length ts. \<exists>m pl pl1. ts1 ! i = (ts ! i)\<lparr>f_manager := m\<rparr> \<and> init_read mem (f_manager (ts ! i)) pl = Inr (m, pl1))"
proof (induction ts arbitrary: pool ts1)
  case (Cons t ts)
  from Cons.prems obtain m pool2 ts2 pool3 where "init_read mem (f_manager t) pool = Inr (m, pool2)"
    "init_reads mem ts pool2 = Inr (ts2, pool3)" "ts1 = t\<lparr>f_manager := m\<rparr> # ts2" "pool3 = pool1"
    by auto
  with Cons.IH [of pool2 ts2] show ?case by (auto simp: nth_Cons split: nat.splits)
qed simp

lemma init_read_fm: "init_read mem m pool = Inr (m1, pool1) \<Longrightarrow>
    fm_type m1 = READ_FILE \<and> (\<exists>a. buf m1 = mem a FILE_BUFFER_SIZE)"
  by (auto simp: init_read_def Let_def split: prod.splits if_splits)

lemma Active_Transfer_new_ok: "transfer_ok (Active_Transfer_new raw)" "cleared (Active_Transfer_new raw)"
  "at_state (Active_Transfer_new raw) = AT_EMPTY"
  by (simp_all add: Active_Transfer_new_def transfer_ok_def cleared_def)

lemma Transfer_Manager_new_ok:
  assumes new: "Transfer_Manager_new mem sz raw_cmd raw pool = Inr (tm, pool1)" and mem: "\<forall>a n. length (mem a n) = n"
  shows "tm_ok tm" "i < 6 \<Longrightarrow> state_of sd i tm = AT_EMPTY" "lf_items (cmd_queue tm) = []"
proof -
  let ?host = "map (\<lambda>i. Active_Transfer_new (raw (6 + i))) [0..<6]"
  from new obtain q pl host pl1 where q: "LockFreeQueue sz raw_cmd 6 pool = Inr (q, pl)"
    and h: "init_reads mem ?host pl = Inr (host, pl1)"
    and tm: "tm = \<lparr>backlog = [], dirty = False, client_transfer_ids = 1, cmd_queue = q,
      recv_transfers = map (\<lambda>i. (Active_Transfer_new (raw i))\<lparr>f_manager := init_write (f_manager (Active_Transfer_new (raw i)))\<rparr>) [0..<6],
      host_transfers = host\<rparr>"
    by (auto simp: Transfer_Manager_new_def Let_def comp_def)
  have host: "host_ok (host ! i) \<and> at_state (host ! i) = AT_EMPTY" if "i < 6" for i
  proof -
    from init_reads_spec [OF h] that obtain m pl pl1 where
      "host ! i = (Active_Transfer_new (raw (6 + i)))\<lparr>f_manager := m\<rparr>"
      "init_read mem (f_manager (Active_Transfer_new (raw (6 + i)))) pl = Inr (m, pl1)" by auto
    with init_read_fm [OF this(2)] mem Active_Transfer_new_ok [of "raw (6 + i)"] show ?thesis
      by (auto simp: host_ok_def transfer_ok_def cleared_def)
  qed
  have recv: "recv_ok (recv_transfers tm ! i) \<and> at_state (recv_transfers tm ! i) = AT_EMPTY" if "i < 6" for i
    using that Active_Transfer_new_ok [of "raw i"]
    by (simp add: tm recv_ok_def transfer_ok_def cleared_def init_write_def del: upt_rec_numeral)
  have len: "length host = 6" using init_reads_spec [OF h] by simp
  have "length (transfers sd tm) = 6 \<and> (\<forall>i < 6. side_ok sd (transfers sd tm ! i))" for sd
    using host recv len by (cases sd) (simp_all add: tm del: upt_rec_numeral)
  then show "tm_ok tm" using lf_ok_start [OF q] by (simp add: tm_ok_def cmds_ok_def tm)
  show "state_of sd i tm = AT_EMPTY" if "i < 6" for i
    using host [OF that] recv [OF that] by (cases sd) (simp_all add: state_of_def tm del: upt_rec_numeral)
  show "lf_items (cmd_queue tm) = []" using lf_ok_start [OF q] by (simp add: tm)
qed

lemma tm_run_ok: "(tm_step E)\<^sup>*\<^sup>* s s' \<Longrightarrow> tm_ok (fst s) \<Longrightarrow> tm_ok (fst s')"
  by (induction rule: rtranclp_induct) (auto dest: tm_step_moves moves_ok)


section \<open>Answers to a request\<close>

text \<open>The recipients asked, and the answers as \<^verbatim>\<open>host_request_reply\<close> takes them in, while pending.\<close>

definition asked_ids :: "active_transfer \<Rightarrow> client_id list" where
  "asked_ids t = takeWhile (\<lambda>c. c \<noteq> 0) (recipients t)"

fun answers :: "(client_id \<times> bool) list \<Rightarrow> active_transfer \<Rightarrow> active_transfer" where
  "answers [] t = t"
| "answers ((c, b) # as) t = (if at_state t = AT_PENDING then answers as (set_request c b t) else t)"

definition answer_of :: "(client_id \<times> bool) list \<Rightarrow> client_id \<Rightarrow> at_state" where
  "answer_of as c = (case map_of as c of None \<Rightarrow> AT_EMPTY | Some True \<Rightarrow> AT_ACCEPT | Some False \<Rightarrow> AT_DENY)"

lemma length_recipients [simp]: "length (recipients t) = 6"
  by (simp add: recipients_def)

lemma asked_ids_nth: "length (asked_ids t) \<le> 6" "j < length (asked_ids t) \<Longrightarrow> recipients t ! j = asked_ids t ! j"
  using length_takeWhile_le [of "\<lambda>c. c \<noteq> 0" "recipients t"] by (simp_all add: asked_ids_def takeWhile_nth)

lemma asked_eq: "length (accept_list t) = 6 \<Longrightarrow> asked t = zip (asked_ids t) (accept_list t)"
proof -
  have "takeWhile (\<lambda>x. fst x \<noteq> 0) (zip xs ys) = zip (takeWhile (\<lambda>c. c \<noteq> 0) xs) ys"
    if "length xs = length ys" for xs :: "client_id list" and ys :: "at_state list"
    using that by (induction xs ys rule: list_induct2) simp_all
  then show "length (accept_list t) = 6 \<Longrightarrow> asked t = zip (asked_ids t) (accept_list t)"
    by (simp add: asked_def asked_ids_def)
qed

lemma find_recipient:
  assumes "distinct (asked_ids t)" "j < length (asked_ids t)"
  shows "find_ix (\<lambda>x. x = asked_ids t ! j) (recipients t) = Some j"
proof (rule find_ix_first)
  show "j < length (recipients t)" using assms(2) asked_ids_nth(1) [of t] by simp
  show "recipients t ! j = asked_ids t ! j" by (rule asked_ids_nth(2) [OF assms(2)])
  show "recipients t ! k \<noteq> asked_ids t ! j" if "k < j" for k
    using that assms asked_ids_nth(2) [of k t] by (simp add: nth_eq_iff_index_eq)
qed

text \<open>One answer of a recipient that has not answered yet.\<close>

lemma set_request_answer:
  assumes d: "distinct (asked_ids t)" and len: "length (accept_list t) = 6"
    and acc: "\<forall>j < length (asked_ids t). accept_list t ! j = answer_of as (asked_ids t ! j)"
    and c: "c \<in> set (asked_ids t)" "c \<notin> fst ` set as"
  shows "asked_ids (set_request c b t) = asked_ids t" "length (accept_list (set_request c b t)) = 6"
    "\<forall>j < length (asked_ids t). accept_list (set_request c b t) ! j = answer_of ((c, b) # as) (asked_ids t ! j)"
proof -
  obtain i where i: "i < length (asked_ids t)" "c = asked_ids t ! i" using c(1) by (metis in_set_conv_nth)
  show a: "asked_ids (set_request c b t) = asked_ids t"
    by (simp add: asked_ids_def recipients_def set_request_fields)
  have l: "accept_list (set_request c b t) = (accept_list t)[i := if b then AT_ACCEPT else AT_DENY]"
    using find_recipient [OF d i(1)] i(2) by (simp add: set_request_accept)
  then show "length (accept_list (set_request c b t)) = 6" using len by simp
  show "\<forall>j < length (asked_ids t). accept_list (set_request c b t) ! j = answer_of ((c, b) # as) (asked_ids t ! j)"
  proof (intro allI impI)
    fix j assume j: "j < length (asked_ids t)"
    then have "j < 6" using asked_ids_nth(1) [of t] by simp
    moreover have "asked_ids t ! j = c \<longleftrightarrow> j = i" using d i j by (simp add: nth_eq_iff_index_eq)
    ultimately show "accept_list (set_request c b t) ! j = answer_of ((c, b) # as) (asked_ids t ! j)"
      using acc j len by (auto simp: l nth_list_update answer_of_def)
  qed
qed

text \<open>What the flags say of a transfer whose answers are \<open>as\<close>.\<close>

lemma all_asked:
  assumes "length (accept_list t) = 6" "\<forall>j < length (asked_ids t). accept_list t ! j = answer_of as (asked_ids t ! j)"
  shows "(\<forall>x \<in> set (asked t). P (snd x)) \<longleftrightarrow> (\<forall>c \<in> set (asked_ids t). P (answer_of as c))"
proof -
  have "map snd (asked t) = map (answer_of as) (asked_ids t)"
    using assms asked_ids_nth(1) [of t] by (intro nth_equalityI) (simp_all add: asked_eq)
  then have "snd ` set (asked t) = answer_of as ` set (asked_ids t)" by (metis list.set_map)
  then show ?thesis by (metis (mono_tags, lifting) imageE imageI)
qed

definition settled :: "(client_id \<times> bool) list \<Rightarrow> client_id list \<Rightarrow> at_state" where
  "settled as cs = (if set cs \<subseteq> fst ` set as
     then (if \<exists>c \<in> set cs. (c, True) \<in> set as then AT_ACTIVE else AT_CANCEL) else AT_PENDING)"

lemma answer_of_iff:
  assumes "distinct (map fst as)"
  shows "answer_of as x \<noteq> AT_EMPTY \<longleftrightarrow> x \<in> fst ` set as" "answer_of as x = AT_DENY \<longleftrightarrow> (x, False) \<in> set as"
    "x \<in> fst ` set as \<longleftrightarrow> (x, True) \<in> set as \<or> (x, False) \<in> set as" "\<not> ((x, True) \<in> set as \<and> (x, False) \<in> set as)"
proof -
  have mem: "map_of as x = Some y \<longleftrightarrow> (x, y) \<in> set as" for y
    using assms by (rule map_of_eq_Some_iff)
  have "answer_of as x \<noteq> AT_EMPTY \<longleftrightarrow> map_of as x \<noteq> None"
    by (auto simp: answer_of_def split: option.splits bool.splits)
  then show "answer_of as x \<noteq> AT_EMPTY \<longleftrightarrow> x \<in> fst ` set as" by (simp add: map_of_eq_None_iff)
  have "answer_of as x = AT_DENY \<longleftrightarrow> map_of as x = Some False"
    by (auto simp: answer_of_def split: option.splits bool.splits)
  then show "answer_of as x = AT_DENY \<longleftrightarrow> (x, False) \<in> set as" using mem by simp
  show "x \<in> fst ` set as \<longleftrightarrow> (x, True) \<in> set as \<or> (x, False) \<in> set as" proof -
    have "x \<in> fst ` set as \<longleftrightarrow> (\<exists>b. (x, b) \<in> set as)" by force
    then show ?thesis by (simp add: ex_bool_eq)
  qed
  show "\<not> ((x, True) \<in> set as \<and> (x, False) \<in> set as)" using mem [of True] mem [of False] by auto
qed

lemma set_request_settled:
  assumes "distinct (asked_ids t)" "length (accept_list t) = 6" "at_state t = AT_PENDING"
    and "\<forall>j < length (asked_ids t). accept_list t ! j = answer_of as (asked_ids t ! j)"
    and "c \<in> set (asked_ids t)" "distinct (map fst ((c, b) # as))"
  shows "at_state (set_request c b t) = settled ((c, b) # as) (asked_ids t)"
proof -
  have c: "c \<notin> fst ` set as" using assms(6) by simp
  note u = set_request_answer [OF assms(1,2,4,5) c, of b]
  define as1 where "as1 = (c, b) # as"
  have d: "distinct (map fst as1)" using assms(6) by (simp only: as1_def)
  have acc: "\<forall>j < length (asked_ids (set_request c b t)).
      accept_list (set_request c b t) ! j = answer_of as1 (asked_ids (set_request c b t) ! j)"
    using u(3) by (simp only: u(1) as1_def)
  note flags = all_asked [OF u(2) acc, unfolded u(1)]
  have "at_state (set_request c b t) = settled as1 (asked_ids t)"
  proof (cases "set (asked_ids t) \<subseteq> fst ` set as1")
    case True
    then have "\<forall>x \<in> set (asked_ids t). (x, True) \<in> set as1 \<or> (x, False) \<in> set as1"
      using answer_of_iff(3) [OF d] by blast
    with True show ?thesis
      unfolding set_request_state Let_def flags [of "\<lambda>a. a = AT_DENY"] flags [of "\<lambda>a. a \<noteq> AT_EMPTY"]
        settled_def answer_of_iff(1,2) [OF d]
      using answer_of_iff(4) [OF d] by auto
  next
    case False
    then obtain x where "x \<in> set (asked_ids t)" "x \<notin> fst ` set as1" by blast
    with answer_of_iff(3) [OF d, of x] have "\<exists>x \<in> set (asked_ids t). (x, False) \<notin> set as1 \<and> x \<notin> fst ` set as1" by blast
    with False show ?thesis
      unfolding set_request_state Let_def flags [of "\<lambda>a. a = AT_DENY"] flags [of "\<lambda>a. a \<noteq> AT_EMPTY"]
        settled_def answer_of_iff(1,2) [OF d]
      using assms(3) by auto
  qed
  then show ?thesis by (simp only: as1_def)
qed

lemma settled_pending: "settled ((c, b) # as) cs = AT_PENDING \<or> set cs \<subseteq> fst ` set ((c, b) # as)"
  by (simp add: settled_def)

lemma answers_settled:
  assumes "distinct (asked_ids t)" "length (accept_list t) = 6" "at_state t = AT_PENDING"
    and "\<forall>j < length (asked_ids t). accept_list t ! j = answer_of old (asked_ids t ! j)"
    and "fst ` set as \<subseteq> set (asked_ids t)" "distinct (map fst (as @ old))" "\<not> set (asked_ids t) \<subseteq> fst ` set old"
  shows "at_state (answers as t) = settled (as @ old) (asked_ids t)"
  using assms
proof (induction as arbitrary: t old)
  case Nil
  then show ?case by (simp add: settled_def)
next
  case (Cons x as)
  obtain c b where x: "x = (c, b)" by (cases x)
  have c: "c \<in> set (asked_ids t)" "c \<notin> fst ` set old" using Cons.prems(5,6) x by auto
  note u = set_request_answer [OF Cons.prems(1,2,4) c, of b]
  have st: "at_state (set_request c b t) = settled ((c, b) # old) (asked_ids t)"
    using Cons.prems(6) x by (intro set_request_settled Cons.prems(1-4) c(1)) auto
  have sw: "settled ((x # as) @ old) cs = settled (as @ (c, b) # old) cs" for cs
    by (simp add: settled_def x)
  show ?case
  proof (cases "set (asked_ids t) \<subseteq> fst ` set ((c, b) # old)")
    case False
    then have "at_state (set_request c b t) = AT_PENDING" using st by (simp add: settled_def)
    with Cons.IH [of "set_request c b t" "(c, b) # old"] u Cons.prems False x show ?thesis
      by (simp add: sw) (simp add: settled_def)
  next
    case True
    have "as = []"
    proof (rule ccontr)
      assume "as \<noteq> []"
      then obtain y where "y \<in> set as" by (cases as) auto
      then have "fst y \<in> set (asked_ids t)" "fst y \<notin> fst ` set ((c, b) # old)"
        using Cons.prems(5,6) x by auto
      with True show False by blast
    qed
    with st x Cons.prems(3) show ?thesis by simp
  qed
qed


section \<open>Commands\<close>

fun run_cmds :: "'w cenv \<Rightarrow> transfer_cmd list \<Rightarrow> transfer_manager \<Rightarrow> 'w \<Rightarrow> fault + (transfer_manager \<times> 'w)" where
  "run_cmds E [] tm w = Inr (tm, w)"
| "run_cmds E (c # cs) tm w = bindE (run_cmd E c tm w) (\<lambda>(tm1, w1). run_cmds E cs tm1 w1)"

text \<open>The commands do not look at the queue they come from.\<close>

lemma upd_queue: "upd_transfer sd i f (tm\<lparr>cmd_queue := q\<rparr>) = (upd_transfer sd i f tm)\<lparr>cmd_queue := q\<rparr>"
  by (cases sd) (simp_all add: upd_transfer.simps)

lemma run_cmd_frame:
  "run_cmd E c (tm\<lparr>cmd_queue := q\<rparr>) w =
     (case run_cmd E c tm w of Inl e \<Rightarrow> Inl e | Inr (tm1, w1) \<Rightarrow> Inr (tm1\<lparr>cmd_queue := q\<rparr>, w1))"
proof (cases c)
  case (Cmd_Request path to)
  then show ?thesis
    by (auto simp: cmd_host_request_def bindE_def Let_def upd_queue split: option.splits sum.splits prod.splits)
      (auto simp: upd_transfer.simps)
qed (auto simp: cmd_recv_request_reply_def cmd_cancel_def Let_def upd_queue split: option.splits)


lemma process_cmds_run:
  "lf_ok 3 (cmd_queue tm) \<Longrightarrow> length (lf_items (cmd_queue tm)) \<le> n \<Longrightarrow>
   \<exists>q. lf_ok 3 q \<and> lf_items q = [] \<and> process_cmds E n tm w =
     (case run_cmds E (lf_items (cmd_queue tm)) tm w of Inl e \<Rightarrow> Inl e | Inr (tm1, w1) \<Rightarrow> Inr (tm1\<lparr>cmd_queue := q\<rparr>, w1))"
proof (induction n arbitrary: tm w)
  case 0
  then have "peek (cmd_queue tm) = None" using lf.peek_waiting [OF 0(1)] by simp
  with 0 show ?case by (intro exI [of _ "cmd_queue tm"]) (simp add: process_cmds.simps)
next
  case (Suc n)
  show ?case
  proof (cases "lf_items (cmd_queue tm)")
    case Nil
    then have "peek (cmd_queue tm) = None" using lf.peek_waiting [OF Suc.prems(1)] by simp
    with Nil Suc show ?thesis by (intro exI [of _ "cmd_queue tm"]) (simp add: process_cmds.simps)
  next
    case (Cons c cs)
    have pk: "peek (cmd_queue tm) = Some c" using lf.peek_waiting [OF Suc.prems(1)] Cons by simp
    from lf.pop_first [OF Suc.prems(1) Cons] obtain q1 where
      q1: "pop (cmd_queue tm) = (True, q1)" "lf_ok 3 q1" "lf_items q1 = cs" by blast
    show ?thesis
    proof (cases "run_cmd E c tm w")
      case (Inl e)
      then show ?thesis using pk Cons lf_ok_start Suc.prems(1)
          Suc.IH [of "tm\<lparr>cmd_queue := q1\<rparr>" w] q1 Suc.prems(2)
        by (subst process_cmds.simps) auto
    next
      case (Inr x)
      obtain tm1 w1 where x: "x = (tm1, w1)" by (cases x)
      have q: "cmd_queue tm1 = cmd_queue tm" using run_cmd_queue Inr x by simp
      have fr: "run_cmds E cs (tm1\<lparr>cmd_queue := q1\<rparr>) w1 =
          (case run_cmds E cs tm1 w1 of Inl e \<Rightarrow> Inl e | Inr (tm2, w2) \<Rightarrow> Inr (tm2\<lparr>cmd_queue := q1\<rparr>, w2))" for cs tm1 w1
        by (induction cs arbitrary: tm1 w1) (auto simp: run_cmd_frame bindE_def split: sum.splits)
      from Suc.IH [of "tm1\<lparr>cmd_queue := q1\<rparr>" w1] q1 Cons Suc.prems(2) obtain q2 where
        q2: "lf_ok 3 q2" "lf_items q2 = []" "process_cmds E n (tm1\<lparr>cmd_queue := q1\<rparr>) w1 =
          (case run_cmds E cs (tm1\<lparr>cmd_queue := q1\<rparr>) w1 of Inl e \<Rightarrow> Inl e
           | Inr (tm1, w1) \<Rightarrow> Inr (tm1\<lparr>cmd_queue := q2\<rparr>, w1))" by auto
      then show ?thesis using pk Cons Inr x q q1(1) fr [of cs tm1 w1]
        by (subst process_cmds.simps) (auto intro!: exI [of _ q2] split: sum.splits)
    qed
  qed
qed

text \<open>Commands with terminated paths do not fail.\<close>

fun cmd_terminated :: "transfer_cmd \<Rightarrow> bool" where
  "cmd_terminated (Cmd_Request path to) \<longleftrightarrow> 0 \<in> set path"
| "cmd_terminated _ \<longleftrightarrow> True"

definition paths_terminated :: "transfer_manager \<Rightarrow> bool" where
  "paths_terminated tm \<longleftrightarrow> (\<forall>c \<in> set (lf_items (cmd_queue tm)). cmd_terminated c)"

lemma run_cmd_cases:
  assumes "tm_ok tm" "cmd_ok cmd"
  shows "returnsE (cmd_terminated cmd) (\<lambda>(tm1, w1). tm_ok tm1) (run_cmd E cmd tm w)"
    "run_cmd E cmd tm w = Inl e \<Longrightarrow> e = Undefined \<and> \<not> cmd_terminated cmd"
proof -
  have "cmd_terminated cmd \<Longrightarrow> \<exists>x. run_cmd E cmd tm w = Inr x"
    and bad: "run_cmd E cmd tm w = Inl e \<Longrightarrow> e = Undefined \<and> \<not> cmd_terminated cmd"
  proof -
    have *: "(cmd_terminated cmd \<longrightarrow> (\<exists>x. run_cmd E cmd tm w = Inr x)) \<and>
      (\<forall>e. run_cmd E cmd tm w = Inl e \<longrightarrow> e = Undefined \<and> \<not> cmd_terminated cmd)"
    proof (cases cmd)
      case (Cmd_Request path to)
      show ?thesis
      proof (cases "get_transfer (host_transfers tm)")
        case (Some i)
        with get_transfer_Some [of HOST tm i] assms(1) have "fm_type (f_manager (host_transfers tm ! i)) = READ_FILE"
          by (simp add: host_ok_def)
        with Some Cmd_Request show ?thesis
          by (auto simp: cmd_host_request_def read_file_def Let_def split: prod.splits if_splits)
      qed (simp add: Cmd_Request cmd_host_request_def)
    qed simp_all
    then show "cmd_terminated cmd \<Longrightarrow> \<exists>x. run_cmd E cmd tm w = Inr x"
      "run_cmd E cmd tm w = Inl e \<Longrightarrow> e = Undefined \<and> \<not> cmd_terminated cmd" by blast+
  qed
  then show "returnsE (cmd_terminated cmd) (\<lambda>(tm1, w1). tm_ok tm1) (run_cmd E cmd tm w)"
    using keepsE_D [OF run_cmd_moves [OF assms, of E w]] by (fastforce simp: returnsE_def dest: moves_ok)
  from bad show "run_cmd E cmd tm w = Inl e \<Longrightarrow> e = Undefined \<and> \<not> cmd_terminated cmd" .
qed

lemma run_cmds_returns:
  "tm_ok tm \<Longrightarrow> \<forall>c \<in> set cs. cmd_ok c \<Longrightarrow>
   returnsE (\<forall>c \<in> set cs. cmd_terminated c) (\<lambda>(tm1, w1). tm_ok tm1) (run_cmds E cs tm w)"
proof (induction cs arbitrary: tm w)
  case (Cons c cs)
  have c: "cmd_ok c" using Cons.prems(2) by simp
  note one = run_cmd_cases(1) [OF Cons.prems(1) c, of E w]
  show ?case
  proof (cases "run_cmd E c tm w")
    case (Inl e)
    with one show ?thesis by (simp add: returnsE_def)
  next
    case (Inr x)
    obtain tm1 w1 where x: "x = (tm1, w1)" by (cases x)
    have "tm_ok tm1" using returnsE_D [OF one Inr] x by simp
    from Cons.IH [OF this, of w1] Cons.prems(2) Inr x show ?thesis by (auto simp: returnsE_def)
  qed
qed simp

lemma run_cmds_fault:
  "tm_ok tm \<Longrightarrow> \<forall>c \<in> set cs. cmd_ok c \<Longrightarrow> run_cmds E cs tm w = Inl e \<Longrightarrow> e = Undefined"
proof (induction cs arbitrary: tm w)
  case (Cons c cs)
  have c: "cmd_ok c" using Cons.prems(2) by simp
  show ?case
  proof (cases "run_cmd E c tm w")
    case (Inl f)
    with run_cmd_cases(2) [OF Cons.prems(1) c Inl] Cons.prems(3) show ?thesis by simp
  next
    case (Inr x)
    obtain tm1 w1 where x: "x = (tm1, w1)" by (cases x)
    have "tm_ok tm1" using returnsE_D [OF run_cmd_cases(1) [OF Cons.prems(1) c] Inr] x by simp
    from Cons.IH [OF this, of w1] Cons.prems(2,3) Inr x show ?thesis by simp
  qed
qed simp

text \<open>Positions in files that can be turned into a percentage: \<^verbatim>\<open>ftell\<close> fails with - 1, or stays below \<open>2\<^sup>63 / 100\<close>.\<close>

definition small_files :: "'w cenv \<Rightarrow> bool" where
  "small_files E \<longleftrightarrow> (\<forall>f w. - 1 \<le> ftell E f w \<and> ftell E f w * 100 < 2 ^ 63)"

section \<open>Work that returns\<close>

text \<open>The packets the client sends: header of a known type, and a size that fits.\<close>

definition client_packet :: "packet \<Rightarrow> bool" where
  "client_packet p \<longleftrightarrow> length p = PACKET_MAX_SIZE \<and> unat (hdr_size p) + 8 \<le> PACKET_MAX_SIZE \<and>
     hdr_type p \<in> {P_TRANSFER_REQUEST, P_TRANSFER_REPLY, P_TRANSFER_DATA, P_TRANSFER_CANCEL, P_TRANSFER_COMPLETE}"

lemma client_packetI:
  assumes "length q = PACKET_MAX_SIZE" "get_u32 0 q = ty" "get_u32 4 q = of_nat n" "n \<le> 1432"
    "ty \<in> {7, 8, 9, 10, 11}"
  shows "client_packet q"
  using assms by (auto simp: client_packet_def hdr_type_def hdr_size_def unat_of_nat)

lemma send_hdrs:
  assumes "length p = PACKET_MAX_SIZE"
  shows "length h = 64 \<Longrightarrow> client_packet (set_th_hdr h (PACKET_HDR P_TRANSFER_CANCEL sizeof_transfer_state p))"
    "client_packet (set_th_t_id v (PACKET_HDR P_TRANSFER_COMPLETE sizeof_transfer_state p))"
    "client_packet (set_th_t_id v (set_tr_accept b (PACKET_HDR P_TRANSFER_REPLY sizeof_transfer_reply p)))"
  using assms client_packetI [where n = sizeof_transfer_state and ty = 10]
    client_packetI [where n = sizeof_transfer_state and ty = 11] client_packetI [where n = sizeof_transfer_reply and ty = 8]
  by (simp_all add: client_field_defs byte_simps)

lemma send_request_hdr:
  assumes "length p = PACKET_MAX_SIZE" "length (at_hdr (host_transfers tm ! i)) = 64"
  shows "client_packet (snd (send_request i tm p))"
proof -
  have u: "get_u32 off (q[143 := 0]) = get_u32 off q" if "length q = 1440" "off + 4 \<le> 143" for off q
    using that by (simp add: get_u32_def get_bytes_def drop_update_swap)
  then show ?thesis
    using assms by (intro client_packetI [where n = sizeof_request and ty = 7])
      (simp_all add: send_request_def Let_def client_field_defs byte_simps)
qed

lemma fill_buffer_total:
  assumes "reader_ok m" "length (fst (fread E (file_fd m) FILE_BUFFER_SIZE w)) \<le> FILE_BUFFER_SIZE"
  shows "\<exists>r m1 w1. fill_buffer E m w = Inr (r, m1, w1)"
  using assms by (auto simp: fill_buffer_def reader_ok_def Let_def split: prod.splits)

lemma send_chunk_client:
  assumes "reader_ok m" "length p = PACKET_MAX_SIZE"
  shows "returnsE (small_files E \<and> file_size m \<noteq> 0) (\<lambda>(m1, p1). client_packet (set_td_t_id t p1)) (send_chunk E m p w)"
proof -
  define n where "n = min (buf_len m) (of_nat DATA_MAX)"
  have n: "unat n \<le> 1416" "unat n \<le> unat (buf_len m)" by (simp_all add: n_def unat_min)
  have len: "unat (buf_cnt m) + unat (buf_len m) \<le> 3072" "length (buf m) = 3072"
    using assms(1) by (simp_all add: reader_ok_def)
  then have "length (get_bytes (unat (buf_cnt m)) (unat n) (buf m)) = unat n" using n by (simp add: length_get_bytes)
  then have "client_packet (set_td_t_id t (set_td_bytes (get_bytes (unat (buf_cnt m)) (unat n) (buf m))
      (set_td_b_size n (PACKET_HDR P_TRANSFER_DATA sizeof_transfer_data p))))"
    using n assms(2) by (intro client_packetI [where n = sizeof_transfer_data and ty = 9])
      (simp_all add: data_field_defs byte_simps)
  moreover have "\<exists>pc. percent_read (ftell E (file_fd m) w) (file_size m) = Inr pc" if "small_files E" "file_size m \<noteq> 0"
  proof -
    have "- 1 \<le> ftell E (file_fd m) w" "ftell E (file_fd m) w * 100 < 2 ^ 63" using that(1) by (simp_all add: small_files_def)
    then show ?thesis using that(2) by (simp add: percent_read_def)
  qed
  ultimately show ?thesis
    unfolding send_chunk_def Let_def n_def [symmetric] using n len
    by (cases "percent_read (ftell E (file_fd m) w) (file_size m)") auto
qed

lemma read_work_client:
  assumes "reader_ok m" "length p = PACKET_MAX_SIZE" "fm_state m = FM_WORKING" "file_fd m \<noteq> 0" "file_size m \<noteq> 0"
    and "\<forall>f n v. length (fst (fread E f n v)) \<le> n"
  shows "returnsE (small_files E) (\<lambda>(st, m1, p1, w1). st = FM_WORKING \<longrightarrow> client_packet (set_td_t_id t p1)) (read_work E m p w)"
proof -
  from fill_buffer_total [of m E w] assms(1,6) obtain r m1 w1 where f: "fill_buffer E m w = Inr (r, m1, w1)" by blast
  note fc = fill_buffer_cases [OF f assms(1)]
  show ?thesis
  proof (cases r)
    case (Some b)
    with f fc assms(3,4) show ?thesis by (cases b) (simp_all add: read_work_def read_from_file_def)
  next
    case None
    have m1: "file_size m1 \<noteq> 0" "reader_ok m1" using fc assms(5) None by simp_all
    note c = send_chunk_client [OF m1(2) assms(2), of E t w1]
    show ?thesis
    proof (cases "send_chunk E m1 p w1")
      case (Inl e)
      with c m1(1) f None assms(3,4) show ?thesis by (simp add: read_work_def read_from_file_def)
    next
      case (Inr x)
      with c f None assms(3,4) show ?thesis by (cases x) (auto simp: read_work_def read_from_file_def)
    qed
  qed
qed

lemma send_data_client:
  assumes ok: "tm_ok tm" and p: "length p = PACKET_MAX_SIZE" and i: "i < 6" "state_of HOST i tm = AT_ACTIVE"
    and io: "\<forall>f n v. length (fst (fread E f n v)) \<le> n"
  shows "returnsE (small_files E) (\<lambda>(st, tm1, p1, w1). st = HAS_WORK \<longrightarrow> client_packet p1) (send_data E i tm p w)"
proof -
  let ?t = "host_transfers tm ! i"
  have t: "host_ok ?t" "at_state ?t = AT_ACTIVE" using tm_ok_transfer [OF ok i(1), of HOST] i(2) by (simp_all add: state_of_def)
  then have fm: "fm_state (f_manager ?t) = FM_WORKING" "file_fd (f_manager ?t) \<noteq> 0" "file_size (f_manager ?t) \<noteq> 0"
    "reader_ok (f_manager ?t)" by (simp_all add: host_ok_def)
  obtain now w1 where c: "clock_now E w = (now, w1)" by force
  note read = read_work_client [OF fm(4) p fm(1-3) io, of "h_t_id (at_hdr ?t)" w1]
  show ?thesis
  proof (cases "read_work E (f_manager ?t) p w1")
    case (Inl e)
    with read c show ?thesis by (auto simp: send_data_def)
  next
    case (Inr x)
    then obtain st m p1 w2 where
      r: "read_work E (f_manager ?t) p w1 = Inr (st, m, p1, w2)"
        "st = FM_WORKING \<longrightarrow> client_packet (set_td_t_id (h_t_id (at_hdr ?t)) p1)"
      using returnsE_D [OF read Inr] by (cases x) auto
    have p1: "length p1 = PACKET_MAX_SIZE" using read_work_cases [OF r(1) fm(4) p fm(1)] by simp
    let ?tm = "upd_transfer HOST i (\<lambda>t. t\<lparr>f_manager := m\<rparr>) tm"
    have len: "length (host_transfers tm) = 6" using tm_ok_length [OF ok, of HOST] by simp
    have hi: "host_transfers ?tm ! i = ?t\<lparr>f_manager := m\<rparr>" using i(1) len by (simp add: upd_transfer.simps)
    have hl: "length (at_hdr ?t) = 64" using t(1) by (simp add: host_ok_def transfer_ok_def)
    have "client_packet (fst (snd (after_read E st i ?tm p1 w2)))"
      using r(2) send_hdrs [OF p1] hl by (cases st) (simp_all add: after_read_def hi send_cancel_def fm_close_def)
    with c r(1) show ?thesis by (auto simp: send_data_def split: prod.splits)
  qed
qed

lemma host_transfer_work_client:
  assumes ok: "tm_ok tm" and p: "length p = PACKET_MAX_SIZE"
    and io: "\<forall>f n v. length (fst (fread E f n v)) \<le> n"
  shows "returnsE (small_files E) (\<lambda>(st, tm1, p1, w1). st = HAS_WORK \<longrightarrow> client_packet p1) (host_transfer_work E tm p w)"
proof (cases "find_ix (\<lambda>t. at_state t = AT_ACTIVE \<or> at_state t = AT_CANCEL \<or> at_state t = AT_SEND_REQ) (host_transfers tm)")
  case None
  then show ?thesis by (simp add: host_transfer_work_def)
next
  case (Some i)
  have i: "i < 6" "at_state (host_transfers tm ! i) = AT_ACTIVE \<or> at_state (host_transfers tm ! i) = AT_CANCEL \<or>
      at_state (host_transfers tm ! i) = AT_SEND_REQ" "host_ok (host_transfers tm ! i)"
    using find_host [OF Some ok] by simp_all
  have hl: "length (at_hdr (host_transfers tm ! i)) = 64" using i(3) by (simp add: host_ok_def transfer_ok_def)
  from i(2) show ?thesis
    using Some send_data_client [OF ok p i(1) _ io, of w] send_hdrs(1) [OF p hl] send_request_hdr [OF p hl]
    by (elim disjE) (simp_all add: host_transfer_work_def state_of_def send_cancel_def case_prod_beta)
qed

lemma recv_transfer_work_hdr:
  assumes ok: "tm_ok tm" and p: "length p = PACKET_MAX_SIZE"
  shows "case recv_transfer_work tm p of (st, tm1, p1) \<Rightarrow> st = HAS_WORK \<longrightarrow> client_packet p1"
proof (cases "find_ix (\<lambda>t. at_state t = AT_CANCEL \<or> at_state t = AT_ACCEPT \<or> at_state t = AT_DENY) (recv_transfers tm)")
  case None
  then show ?thesis by (simp add: recv_transfer_work_def)
next
  case (Some i)
  have hl: "length (at_hdr (recv_transfers tm ! i)) = 64"
    using find_recv [OF Some ok] by (simp add: recv_ok_def transfer_ok_def)
  then show ?thesis
    using Some send_hdrs [OF p]
    by (auto simp: recv_transfer_work_def send_cancel_def send_recv_request_reply_def Let_def split: prod.splits if_splits)
qed

section \<open>Answers through the manager\<close>

lemma host_request_reply_nth:
  assumes "tm_ok tm" "i < 6" "h_t_id (at_hdr (host_transfers tm ! i)) = t_id"
    and "\<forall>j < i. \<not> (at_state (host_transfers tm ! j) = AT_PENDING \<and> h_t_id (at_hdr (host_transfers tm ! j)) = t_id)"
  shows "host_transfers (host_request_reply t_id c b tm) ! i =
      (if at_state (host_transfers tm ! i) = AT_PENDING then set_request c b (host_transfers tm ! i) else host_transfers tm ! i)"
    "\<forall>j < i. host_transfers (host_request_reply t_id c b tm) ! j = host_transfers tm ! j"
proof -
  let ?P = "\<lambda>t. at_state t = AT_PENDING \<and> h_t_id (at_hdr t) = t_id"
  have len: "length (host_transfers tm) = 6" using tm_ok_length [OF assms(1), of HOST] by simp
  have "host_transfers (host_request_reply t_id c b tm) ! i =
      (if at_state (host_transfers tm ! i) = AT_PENDING then set_request c b (host_transfers tm ! i) else host_transfers tm ! i) \<and>
    (\<forall>j < i. host_transfers (host_request_reply t_id c b tm) ! j = host_transfers tm ! j)"
  proof (cases "at_state (host_transfers tm ! i) = AT_PENDING")
    case True
    then have "find_ix ?P (host_transfers tm) = Some i"
      using assms len by (intro find_ix_first) auto
    then show ?thesis using True assms(2) len by (simp add: host_request_reply_def upd_transfer.simps)
  next
    case False
    show ?thesis
    proof (cases "find_ix ?P (host_transfers tm)")
      case None
      then show ?thesis using False by (simp add: host_request_reply_def)
    next
      case (Some k)
      then have "?P (host_transfers tm ! k)" using find_host [OF Some assms(1)] by simp
      then have "i < k" using assms(4) False by (metis linorder_neqE_nat)
      then show ?thesis using Some False by (simp add: host_request_reply_def upd_transfer.simps)
    qed
  qed
  then show "host_transfers (host_request_reply t_id c b tm) ! i =
      (if at_state (host_transfers tm ! i) = AT_PENDING then set_request c b (host_transfers tm ! i) else host_transfers tm ! i)"
    "\<forall>j < i. host_transfers (host_request_reply t_id c b tm) ! j = host_transfers tm ! j" by simp_all
qed

lemma answers_not_pending: "at_state t \<noteq> AT_PENDING \<Longrightarrow> answers as t = t"
  by (cases "as") auto

lemma answers_hdr: "at_hdr (answers as t) = at_hdr t"
  by (induction "as" t rule: answers.induct) (simp_all add: set_request_fields)

lemma replies_answers:
  assumes "tm_ok tm" "i < 6" "h_t_id (at_hdr (host_transfers tm ! i)) = t_id"
    and "\<forall>j < i. \<not> (at_state (host_transfers tm ! j) = AT_PENDING \<and> h_t_id (at_hdr (host_transfers tm ! j)) = t_id)"
  shows "host_transfers (fold (\<lambda>(c, b). host_request_reply t_id c b) as tm) ! i = answers as (host_transfers tm ! i)"
  using assms
proof (induction "as" arbitrary: tm)
  case (Cons x as)
  obtain c b where x: "x = (c, b)" by (cases x)
  note n = host_request_reply_nth [OF Cons.prems, of c b]
  have "tm_ok (host_request_reply t_id c b tm)"
    using host_request_reply_moves [OF Cons.prems(1)] by (rule moves_ok)
  from Cons.IH [OF this Cons.prems(2)] n Cons.prems(3,4) show ?case
    by (simp add: x set_request_fields answers_not_pending)
qed simp


section \<open>An example\<close>

definition raw_transfer :: active_transfer where
  "raw_transfer = \<lparr>at_state = AT_ACTIVE, at_hdr = [], accept_list = [], local_id = 9, past_send = 0, at_file = [],
     at_file_size = 0, f_manager = example_reader_fm\<rparr>"

definition client_pool :: memory_pool where
  "client_pool = \<lparr>root = \<lparr>blk_next = 0, blk_mem = 4096, blk_free = 4096, blk_end = 1052672\<rparr>,
                  block_size = 1048576, mem_used = 0\<rparr>"

abbreviation example_mem :: "u64 \<Rightarrow> nat \<Rightarrow> bytes" where
  "example_mem \<equiv> \<lambda>a n. replicate n 0"

lemma example_new: "\<exists>pool. Transfer_Manager_new example_mem 200 (\<lambda>_. Cmd_Cancel 0) (\<lambda>_. raw_transfer) client_pool =
    Inr (fst (projr (Transfer_Manager_new example_mem 200 (\<lambda>_. Cmd_Cancel 0) (\<lambda>_. raw_transfer) client_pool)), pool)"
  by (simp add: Transfer_Manager_new_def LockFreeQueue_def capacity_mask_6 client_pool_def alloc_def pad8.simps
      init_read_def Let_def upt_rec del: upt_rec_numeral)

definition example_tm :: transfer_manager where
  "example_tm = fst (projr (Transfer_Manager_new example_mem 200 (\<lambda>_. Cmd_Cancel 0) (\<lambda>_. raw_transfer) client_pool))"


lemma example_tm:
  "\<exists>pool. Transfer_Manager_new example_mem 200 (\<lambda>_. Cmd_Cancel 0) (\<lambda>_. raw_transfer) client_pool = Inr (example_tm, pool)"
  "tm_ok example_tm" "i < 6 \<Longrightarrow> state_of sd i example_tm = AT_EMPTY" "lf_items (cmd_queue example_tm) = []"
proof -
  from example_new obtain pool where
    n: "Transfer_Manager_new example_mem 200 (\<lambda>_. Cmd_Cancel 0) (\<lambda>_. raw_transfer) client_pool = Inr (example_tm, pool)"
    unfolding example_tm_def by blast
  then show "\<exists>pool. Transfer_Manager_new example_mem 200 (\<lambda>_. Cmd_Cancel 0) (\<lambda>_. raw_transfer) client_pool = Inr (example_tm, pool)"
    by blast
  have "\<forall>a n. length (example_mem a n) = n" by simp
  note ok = Transfer_Manager_new_ok [OF n this]
  show "tm_ok example_tm" "i < 6 \<Longrightarrow> state_of sd i example_tm = AT_EMPTY" "lf_items (cmd_queue example_tm) = []"
    using ok by simp_all
qed

text \<open>A header for the transfer 5 to the clients 7 and 8, and managers whose first transfer has it.\<close>

definition example_hdr :: bytes where
  "example_hdr = put_u64 0 5 (put_u64 16 7 (put_u64 24 8 (replicate 64 0)))"

lemma example_hdr: "length example_hdr = 64" "h_t_id example_hdr = 5"
  "map (\<lambda>i. h_to i example_hdr) [0..<6] = [7, 8, 0, 0, 0, 0]"
  by (simp_all add: example_hdr_def h_t_id_def h_to_def byte_simps upt_rec del: upt_rec_numeral)

definition hosting :: "at_state \<Rightarrow> transfer_manager" where
  "hosting st = upd_transfer HOST 0 (\<lambda>t. t\<lparr>at_state := st, at_hdr := example_hdr, f_manager := example_reader_fm,
     at_file := ascii ''/tmp/a.txt'', at_file_size := 3, local_id := 1, past_send := 0\<rparr>) example_tm"

definition receiving :: "at_state \<Rightarrow> transfer_manager" where
  "receiving st = upd_transfer RECV 0 (\<lambda>t. t\<lparr>at_state := st, at_hdr := example_hdr, at_file := [65],
     f_manager := example_reader_fm\<lparr>fm_type := WRITE_FILE\<rparr>\<rparr>) example_tm"

lemma example_length: "length (host_transfers example_tm) = 6" "length (recv_transfers example_tm) = 6"
  using tm_ok_length [OF example_tm(2), of HOST] tm_ok_length [OF example_tm(2), of RECV] by simp_all

lemma example_cleared: "i < 6 \<Longrightarrow> cleared (transfers sd example_tm ! i)"
  using tm_ok_transfer [OF example_tm(2), of i sd] example_tm(3) [of i sd]
  by (cases sd) (auto simp: host_ok_def recv_ok_def transfer_ok_def state_of_def)

lemma hosting_nth: "host_transfers (hosting st) ! 0 = (host_transfers example_tm ! 0)\<lparr>at_state := st, at_hdr := example_hdr,
     f_manager := example_reader_fm, at_file := ascii ''/tmp/a.txt'', at_file_size := 3, local_id := 1, past_send := 0\<rparr>"
  "accept_list (host_transfers (hosting st) ! 0) = replicate 6 AT_EMPTY"
  using example_length example_cleared [of 0 HOST] by (simp_all add: hosting_def upd_transfer.simps cleared_def)

lemma receiving_nth: "recv_transfers (receiving st) ! 0 = (recv_transfers example_tm ! 0)\<lparr>at_state := st,
     at_hdr := example_hdr, at_file := [65], f_manager := example_reader_fm\<lparr>fm_type := WRITE_FILE\<rparr>\<rparr>"
  using example_length by (simp add: receiving_def upd_transfer.simps)

lemma hosting_ok: "st \<in> {AT_SEND_REQ, AT_GET_RESPONSE, AT_PENDING, AT_ACTIVE, AT_CANCEL} \<Longrightarrow> tm_ok (hosting st)"
  using example_cleared [of 0 HOST] example_hdr(1) unfolding hosting_def
  by (intro tm_ok_upd example_tm(2))
    (auto simp: host_ok_def transfer_ok_def cleared_def example_reader_fm_def reader_ok_def)

lemma receiving_ok: "st \<in> {AT_GET_RESPONSE, AT_ACCEPT, AT_DENY, AT_ACTIVE, AT_CANCEL} \<Longrightarrow> tm_ok (receiving st)"
  using example_cleared [of 0 RECV] example_hdr(1) unfolding receiving_def
  by (intro tm_ok_upd example_tm(2)) (auto simp: recv_ok_def transfer_ok_def cleared_def example_reader_fm_def)

section \<open>Properties\<close>

text \<open>
  C8: whatever the user interface commands, the server sends and the library answers, every state of
  the transfer manager reachable from its constructor is well formed: a free slot is cleared; every
  other transfer has its file open and, when it sends, its buffer within bounds; an offered transfer
  never accepts and a received one never waits for others; and each step changes the state of at
  most one transfer, along an edge of its state machine.
\<close>

theorem transfer_states_invariant:
  assumes "Transfer_Manager_new mem sz raw_cmd raw pool = Inr (tm0, pool1)" "\<forall>a n. length (mem a n) = n"
    and "(tm_step E)\<^sup>*\<^sup>* (tm0, w0) (tm, w)"
  shows "(\<forall>i < 6. let h = host_transfers tm ! i; r = recv_transfers tm ! i in
      (at_state h = AT_EMPTY \<longrightarrow> cleared h) \<and> (at_state r = AT_EMPTY \<longrightarrow> cleared r) \<and>
      at_state h \<notin> {AT_ACCEPT, AT_DENY} \<and> at_state r \<notin> {AT_SEND_REQ, AT_PENDING} \<and>
      (at_state h \<noteq> AT_EMPTY \<longrightarrow> fm_state (f_manager h) = FM_WORKING \<and> file_fd (f_manager h) \<noteq> 0 \<and> reader_ok (f_manager h)) \<and>
      (at_state r \<noteq> AT_EMPTY \<longrightarrow> fm_state (f_manager r) = FM_WORKING \<and> file_fd (f_manager r) \<noteq> 0)) \<and>
    (\<forall>tm' w'. tm_step E (tm, w) (tm', w') \<longrightarrow> moves tm tm')"
proof -
  have ok: "tm_ok tm" using tm_run_ok [OF assms(3)] Transfer_Manager_new_ok(1) [OF assms(1,2)] by simp
  have "host_ok (host_transfers tm ! i)" "recv_ok (recv_transfers tm ! i)" if "i < 6" for i
    using tm_ok_transfer [OF ok that, of HOST] tm_ok_transfer [OF ok that, of RECV] by simp_all
  moreover have "\<forall>tm' w'. tm_step E (tm, w) (tm', w') \<longrightarrow> moves tm tm'" using ok by (auto dest: tm_step_moves)
  ultimately show ?thesis by (simp add: host_ok_def recv_ok_def transfer_ok_def Let_def)
qed

theorem transfer_states_invariant_witness:
  "\<exists>w tm'. tm_step disk_env (example_tm, example_disk) (tm', w) \<and> moves example_tm tm'"
proof -
  obtain pool where n: "Transfer_Manager_new example_mem 200 (\<lambda>_. Cmd_Cancel 0) (\<lambda>_. raw_transfer) client_pool = Inr (example_tm, pool)"
    using example_tm(1) by blast
  have "\<forall>a n. length (example_mem a n) = n" by simp
  then have "\<forall>tm' w'. tm_step disk_env (example_tm, example_disk) (tm', w') \<longrightarrow> moves example_tm tm'"
    by (intro conjunct2 [OF transfer_states_invariant [OF n _ rtranclp.rtrancl_refl]])
  moreover have "tm_step disk_env (example_tm, example_disk) (recv_cancel zero_packet example_tm, example_disk)"
    by (rule on_cancel)
  ultimately show ?thesis by blast
qed

text \<open>
  C14: the answers to a pending request, in any order and at most one from each of its recipients,
  leave it pending until the last recipient has answered; then it is active when one of them
  accepted, and cancelled when all of them denied.
\<close>

theorem replies_settle:
  assumes "tm_ok tm" "i < 6" "state_of HOST i tm = AT_PENDING" "h_t_id (at_hdr (host_transfers tm ! i)) = t_id"
    and "\<forall>j < i. \<not> (state_of HOST j tm = AT_PENDING \<and> h_t_id (at_hdr (host_transfers tm ! j)) = t_id)"
    and "accept_list (host_transfers tm ! i) = replicate 6 AT_EMPTY"
    and "cs = asked_ids (host_transfers tm ! i)" "cs \<noteq> []" "distinct cs"
    and "distinct (map fst as)" "fst ` set as \<subseteq> set cs"
  shows "state_of HOST i (fold (\<lambda>(c, b). host_request_reply t_id c b) as tm) =
    (if set cs \<subseteq> fst ` set as then (if \<exists>c. (c, True) \<in> set as then AT_ACTIVE else AT_CANCEL) else AT_PENDING)"
proof -
  let ?t = "host_transfers tm ! i"
  have "\<forall>j < length cs. accept_list ?t ! j = answer_of [] (cs ! j)"
    using assms(6,7) asked_ids_nth(1) [of ?t] by (simp add: answer_of_def)
  then have "at_state (answers as ?t) = settled (as @ []) cs"
    using assms by (intro answers_settled [of ?t "[]" "as", folded assms(7)]) (simp_all add: state_of_def)
  moreover have "host_transfers (fold (\<lambda>(c, b). host_request_reply t_id c b) as tm) ! i = answers as ?t"
    using assms(5) by (intro replies_answers assms(1,2,4)) (simp add: state_of_def)
  moreover have "(\<exists>c \<in> set cs. (c, True) \<in> set as) \<longleftrightarrow> (\<exists>c. (c, True) \<in> set as)"
    using assms(11) by force
  ultimately show ?thesis by (simp add: state_of_def settled_def)
qed

theorem replies_settle_witness:
  "state_of HOST 0 (fold (\<lambda>(c, b). host_request_reply 5 c b) [(8, True), (7, False)] (hosting AT_PENDING)) = AT_ACTIVE"
proof -
  have ids: "asked_ids (host_transfers (hosting AT_PENDING) ! 0) = [7, 8]"
    using example_hdr(3) by (simp add: asked_ids_def recipients_def hosting_nth(1) del: upt_rec_numeral)
  show ?thesis
    using replies_settle [of "hosting AT_PENDING" 0 5 "[7, 8]" "[(8, True), (7, False)]"] hosting_ok [of AT_PENDING] ids
      example_hdr(2) hosting_nth(2) [of AT_PENDING]
    by (simp add: state_of_def hosting_nth(1))
qed


text \<open>\<^verbatim>\<open>do_work\<close> leaves no command, and its packet alone when there is nothing to do.\<close>

lemma host_transfer_work_frame:
  assumes "host_transfer_work E tm p w = Inr (st, tm1, p1, w1)"
  shows "cmd_queue tm1 = cmd_queue tm" "st = NO_WORK \<Longrightarrow> p1 = p"
  using assms by (auto simp: host_transfer_work_def send_data_def after_read_def send_cancel_def send_request_def
      end_transfer_def push_backlog_def Let_def split: option.splits if_splits prod.splits fm_state.splits)

lemma recv_transfer_work_frame:
  assumes "recv_transfer_work tm p = (st, tm1, p1)"
  shows "cmd_queue tm1 = cmd_queue tm" "st = NO_WORK \<Longrightarrow> p1 = p" "st \<noteq> WAIT_WORK"
  using assms by (auto simp: recv_transfer_work_def send_cancel_def send_recv_request_reply_def
      end_transfer_def push_backlog_def Let_def split: option.splits if_splits prod.splits)

text \<open>\<^verbatim>\<open>do_work\<close>: what it returns, and that it returns when all paths that wait are terminated.\<close>

lemma do_work_spec:
  assumes "tm_ok tm" "length p = PACKET_MAX_SIZE" "\<forall>f n v. length (fst (fread E f n v)) \<le> n"
  shows "returnsE (small_files E \<and> paths_terminated tm) (\<lambda>(st, tm2, p2, w2). tm_ok tm2 \<and> length p2 = PACKET_MAX_SIZE \<and>
      (st = HAS_WORK \<longrightarrow> client_packet p2) \<and> (st = NO_WORK \<longrightarrow> p2 = p) \<and> lf_items (cmd_queue tm2) = []) (do_work E 8 tm p w)"
    "(\<exists>e. do_work E 8 tm p w = Inl e) \<or> (\<exists>tm1 w1 q. run_cmds E (lf_items (cmd_queue tm)) tm w = Inr (tm1, w1) \<and>
      process_cmds E 8 tm w = Inr (tm1\<lparr>cmd_queue := q\<rparr>, w1) \<and> lf_items q = [])"
    "small_files E \<Longrightarrow> do_work E 8 tm p w = Inl e \<Longrightarrow> e = Undefined \<and> \<not> paths_terminated tm"
proof -
  let ?P = "\<lambda>(st, tm2, p2, w2). tm_ok tm2 \<and> length p2 = PACKET_MAX_SIZE \<and>
      (st = HAS_WORK \<longrightarrow> client_packet p2) \<and> (st = NO_WORK \<longrightarrow> p2 = p) \<and> lf_items (cmd_queue tm2) = []"
  have q0: "lf_ok 3 (cmd_queue tm)" "\<forall>c \<in> set (lf_items (cmd_queue tm)). cmd_ok c"
    using assms(1) by (simp_all add: tm_ok_def cmds_ok_def)
  then have "length (lf_items (cmd_queue tm)) \<le> 8" using lf.bounded [OF q0(1)] by simp
  from process_cmds_run [OF q0(1) this, of E w] obtain q where q: "lf_ok 3 q" "lf_items q = []"
    "process_cmds E 8 tm w = (case run_cmds E (lf_items (cmd_queue tm)) tm w of Inl e \<Rightarrow> Inl e
       | Inr (tm1, w1) \<Rightarrow> Inr (tm1\<lparr>cmd_queue := q\<rparr>, w1))" by blast
  note cmds = run_cmds_returns [OF assms(1) q0(2), of E w, folded paths_terminated_def]
  have "returnsE (small_files E \<and> paths_terminated tm) ?P (do_work E 8 tm p w) \<and>
    ((\<exists>e. do_work E 8 tm p w = Inl e) \<or> (\<exists>tm1 w1 q. run_cmds E (lf_items (cmd_queue tm)) tm w = Inr (tm1, w1) \<and>
      process_cmds E 8 tm w = Inr (tm1\<lparr>cmd_queue := q\<rparr>, w1) \<and> lf_items q = [])) \<and>
    (\<forall>e. small_files E \<longrightarrow> do_work E 8 tm p w = Inl e \<longrightarrow> e = Undefined \<and> \<not> paths_terminated tm)"
  proof (cases "run_cmds E (lf_items (cmd_queue tm)) tm w")
    case (Inl e)
    then have "do_work E 8 tm p w = Inl e" using q(3) by (simp add: do_work_def)
    with Inl cmds run_cmds_fault [OF assms(1) q0(2) Inl] show ?thesis by simp
  next
    case (Inr x)
    obtain tm1 w1 where x: "x = (tm1, w1)" by (cases x)
    let ?tm = "tm1\<lparr>cmd_queue := q\<rparr>"
    have "tm_ok tm1" using returnsE_D [OF cmds Inr] x by simp
    then have ok: "tm_ok ?tm" using moves_ok [OF moves_queue [OF moves_refl q(1)]] q(2) by simp
    have pc: "process_cmds E 8 tm w = Inr (?tm, w1)" using q(3) Inr x by simp
    note work = host_transfer_work_client [OF ok assms(2,3), of w1]
    show ?thesis
    proof (cases "host_transfer_work E ?tm p w1")
      case (Inl e)
      then have "do_work E 8 tm p w = Inl e" using pc by (simp add: do_work_def)
      with Inl work show ?thesis by simp
    next
      case h: (Inr y)
      obtain st tm2 p2 w2 where y: "y = (st, tm2, p2, w2)" by (cases y)
      have hw: "host_transfer_work E ?tm p w1 = Inr (st, tm2, p2, w2)" "st = HAS_WORK \<longrightarrow> client_packet p2"
        using h y returnsE_D [OF work h] by simp_all
      have ok2: "tm_ok tm2" "length p2 = PACKET_MAX_SIZE"
        using host_transfer_work_moves [OF ok assms(2), of E w1] hw(1) by (auto dest: moves_ok)
      note hf = host_transfer_work_frame [OF hw(1)]
      obtain st3 tm3 p3 where v: "recv_transfer_work tm2 p2 = (st3, tm3, p3)" by (cases "recv_transfer_work tm2 p2")
      have ok3: "tm_ok tm3" "length p3 = PACKET_MAX_SIZE" "st3 = HAS_WORK \<longrightarrow> client_packet p3"
        using recv_transfer_work_moves [OF ok2] recv_transfer_work_hdr [OF ok2] v by (auto dest: moves_ok)
      note rf = recv_transfer_work_frame [OF v]
      have "do_work E 8 tm p w = Inr (if st = NO_WORK then (st3, tm3, p3, w2) else (st, tm2, p2, w2))"
        using pc hw(1) v by (simp add: do_work_def)
      with Inr x pc q(2) ok2 ok3 hw(2) hf rf show ?thesis by auto
    qed
  qed
  then show "returnsE (small_files E \<and> paths_terminated tm) ?P (do_work E 8 tm p w)"
    "(\<exists>e. do_work E 8 tm p w = Inl e) \<or> (\<exists>tm1 w1 q. run_cmds E (lf_items (cmd_queue tm)) tm w = Inr (tm1, w1) \<and>
      process_cmds E 8 tm w = Inr (tm1\<lparr>cmd_queue := q\<rparr>, w1) \<and> lf_items q = [])"
    "small_files E \<Longrightarrow> do_work E 8 tm p w = Inl e \<Longrightarrow> e = Undefined \<and> \<not> paths_terminated tm" by simp_all
qed

text \<open>
  C15: \<^verbatim>\<open>do_work\<close>, when \<^verbatim>\<open>fread\<close> keeps to its buffer and \<^verbatim>\<open>ftell\<close> fails with - 1 or stays below
  \<open>2\<^sup>63 / 100\<close>. If every path that waits in a command is terminated, it returns: it runs exactly the
  commands that wait, in order, until none is left (8 turns are enough), keeps the manager well formed,
  and when it reports work the packet is one of the five kinds a client sends, with a size that fits.
  If it does not return, it has left the defined behaviour of C, and some waiting path is not terminated,
  as \<^verbatim>\<open>send_cmd\<close> leaves one of 128 bytes or more.
\<close>

theorem do_work_returns:
  assumes "tm_ok tm" "length p = PACKET_MAX_SIZE" "\<forall>f n v. length (fst (fread E f n v)) \<le> n"
    and "\<forall>f v. - 1 \<le> ftell E f v \<and> ftell E f v * 100 < 2 ^ 63"
  shows "((\<forall>c \<in> set (lf_items (cmd_queue tm)). cmd_terminated c) \<longrightarrow>
      (\<exists>tm1 w1 q st tm2 p2 w2. run_cmds E (lf_items (cmd_queue tm)) tm w = Inr (tm1, w1) \<and>
        process_cmds E 8 tm w = Inr (tm1\<lparr>cmd_queue := q\<rparr>, w1) \<and> lf_items q = [] \<and>
        do_work E 8 tm p w = Inr (st, tm2, p2, w2) \<and> tm_ok tm2 \<and> lf_items (cmd_queue tm2) = [] \<and>
        (st = HAS_WORK \<longrightarrow> client_packet p2))) \<and>
    (\<forall>e. do_work E 8 tm p w = Inl e \<longrightarrow> e = Undefined \<and> (\<exists>c \<in> set (lf_items (cmd_queue tm)). \<not> cmd_terminated c))"
proof -
  have small: "small_files E" using assms(4) by (simp add: small_files_def)
  note spec = do_work_spec [OF assms(1-3), of w]
  have "\<exists>tm1 w1 q st tm2 p2 w2. run_cmds E (lf_items (cmd_queue tm)) tm w = Inr (tm1, w1) \<and>
      process_cmds E 8 tm w = Inr (tm1\<lparr>cmd_queue := q\<rparr>, w1) \<and> lf_items q = [] \<and>
      do_work E 8 tm p w = Inr (st, tm2, p2, w2) \<and> tm_ok tm2 \<and> lf_items (cmd_queue tm2) = [] \<and>
      (st = HAS_WORK \<longrightarrow> client_packet p2)" if "paths_terminated tm"
  proof -
    from returnsE_ex [OF spec(1)] small that obtain st tm2 p2 w2 where
      r: "do_work E 8 tm p w = Inr (st, tm2, p2, w2)" "tm_ok tm2" "lf_items (cmd_queue tm2) = []"
        "st = HAS_WORK \<longrightarrow> client_packet p2" by auto
    with spec(2) show ?thesis by fastforce
  qed
  with spec(3) [OF small] show ?thesis unfolding paths_terminated_def by blast
qed

lemma disk_env_io: "\<forall>f n v. length (fst (fread disk_env f n v)) \<le> n"
  "\<forall>f v. - 1 \<le> ftell disk_env f v \<and> ftell disk_env f v * 100 < 2 ^ 63" "small_files disk_env"
proof -
  show "\<forall>f n v. length (fst (fread disk_env f n v)) \<le> n" by (simp add: disk_env_def)
  have "int k mod 1024 < 1024" for k by simp
  then have "- 1 \<le> int k mod 1024 \<and> int k mod 1024 * 100 < 2 ^ 63" for k
    by (simp add: order_less_trans [of _ 102400] order_trans [of "- 1" 0])
  then show "\<forall>f v. - 1 \<le> ftell disk_env f v \<and> ftell disk_env f v * 100 < 2 ^ 63" by (simp add: disk_env_def)
  then show "small_files disk_env" by (simp add: small_files_def)
qed

theorem do_work_returns_witness:
  "\<exists>st tm2 p2 w2. do_work disk_env 8 (hosting AT_ACTIVE) zero_packet example_disk = Inr (st, tm2, p2, w2) \<and>
    tm_ok tm2 \<and> (st = HAS_WORK \<longrightarrow> client_packet p2)"
proof -
  have "cmd_queue (hosting AT_ACTIVE) = cmd_queue example_tm" by (simp add: hosting_def)
  then have "\<forall>c \<in> set (lf_items (cmd_queue (hosting AT_ACTIVE))). cmd_terminated c" using example_tm(4) by simp
  from do_work_returns [OF hosting_ok length_zero_packet disk_env_io(1,2), of AT_ACTIVE example_disk] this show ?thesis by blast
qed

lemma get_put_prefix: "length bs \<le> n \<Longrightarrow> off + n \<le> length q \<Longrightarrow>
    get_bytes off n (put_bytes off bs q) = bs @ drop (length bs) (get_bytes off n q)"
  by (simp add: get_bytes_def put_bytes_def drop_take add.commute)

lemma get_update: "off + n \<le> length q \<Longrightarrow> k < n \<Longrightarrow> get_bytes off n (q[off + k := b]) = (get_bytes off n q)[k := b]"
  by (simp add: get_bytes_def drop_update_swap take_update_swap)

lemma cstr_append: "0 \<notin> set xs \<Longrightarrow> cstr (xs @ 0 # ys) = xs"
  by (simp add: cstr_def takeWhile_append)

text \<open>The field a name of any length leaves: cut at 63 bytes, and terminated.\<close>

lemma file_name_field:
  assumes "0 \<notin> set name" "length q = PACKET_MAX_SIZE"
    and "q1 = set_rq_file_name (take (min (length name + 1) FILE_NAME_LEN) (name @ [0])) q"
    and "q2 = (if FILE_NAME_LEN \<le> length name + 1 then q1[80 + FILE_NAME_LEN - 1 := 0] else q1)"
  shows "0 \<in> set (rq_file_name q2)" "cstr (rq_file_name q2) = take 63 name" "length q2 = PACKET_MAX_SIZE"
proof -
  let ?bs = "take (min (length name + 1) 64) (name @ [0])"
  have l1: "length q1 = 1440" using assms(2,3) by (simp add: set_rq_file_name_def length_put_bytes)
  then show "length q2 = PACKET_MAX_SIZE" using assms(4) by simp
  have f1: "get_bytes 80 64 q1 = ?bs @ drop (length ?bs) (get_bytes 80 64 q)"
    unfolding assms(3) set_rq_file_name_def using assms(2) by (intro get_put_prefix) simp_all
  have "\<exists>ys. get_bytes 80 64 q2 = take 63 name @ 0 # ys"
  proof (cases "length name + 1 < 64")
    case True
    then show ?thesis using f1 assms(4) by simp
  next
    case False
    then have b: "length ?bs = 64" by simp
    have "get_bytes 80 64 q2 = (get_bytes 80 64 q1)[63 := 0]"
      using False assms(4) get_update [of 80 64 q1 63 0] l1 by simp
    also have "\<dots> = ?bs[63 := 0]" using f1 b by (simp add: get_bytes_def)
    also have "\<dots> = take 63 ?bs @ 0 # drop 64 ?bs" using b by (subst upd_conv_take_nth_drop) simp_all
    also have "take 63 ?bs = take 63 name" using False by (simp add: min_def)
    finally show ?thesis by blast
  qed
  then obtain ys where y: "rq_file_name q2 = take 63 name @ 0 # ys" by (auto simp: rq_file_name_def)
  then show "0 \<in> set (rq_file_name q2)" by simp
  have "0 \<notin> set (take 63 name)" using assms(1) by (meson in_set_takeD)
  with y show "cstr (rq_file_name q2) = take 63 name" by (simp add: cstr_append)
qed

text \<open>The packet of a request.\<close>

lemma send_request_packet:
  assumes "t = host_transfers tm ! i" "0 \<notin> set (at_file t)" "length (at_hdr t) = 64" "length p = PACKET_MAX_SIZE"
  shows "\<exists>p1. send_request i tm p = (upd_transfer HOST i (set_state AT_GET_RESPONSE) tm, p1) \<and>
    hdr_type p1 = P_TRANSFER_REQUEST \<and> hdr_size p1 = of_nat sizeof_request \<and>
    rq_client_transfer_id p1 = local_id t \<and> rq_file_size p1 = at_file_size t \<and>
    get_bytes 8 64 p1 = at_hdr t \<and> 0 \<in> set (rq_file_name p1) \<and>
    cstr (rq_file_name p1) = take 63 (path_filename (at_file t)) \<and> length p1 = PACKET_MAX_SIZE"
proof -
  define name where "name = path_filename (at_file t)"
  have name: "0 \<notin> set name"
    using assms(2) by (auto simp: name_def path_filename_def dest: set_takeWhileD)
  define q where "q = set_rq_client_transfer_id (local_id t) (PACKET_HDR P_TRANSFER_REQUEST sizeof_request p)"
  define q1 where "q1 = set_rq_file_name (take (min (length name + 1) FILE_NAME_LEN) (name @ [0])) q"
  define q2 where "q2 = (if FILE_NAME_LEN \<le> length name + 1 then q1[80 + FILE_NAME_LEN - 1 := 0] else q1)"
  define p1 where "p1 = set_th_hdr (at_hdr t) (set_rq_file_size (at_file_size t) q2)"
  have ql: "length q = 1440" using assms(4) by (simp add: q_def set_rq_client_transfer_id_def byte_simps)
  note f = file_name_field [OF name ql q1_def q2_def]
  have run: "send_request i tm p = (upd_transfer HOST i (set_state AT_GET_RESPONSE) tm, p1)"
    by (simp add: send_request_def Let_def p1_def q2_def q1_def q_def name_def assms(1))
  have u: "get_u32 off (xs[143 := 0]) = get_u32 off xs" if "length xs = 1440" "off + 4 \<le> 143" for off xs
    using that by (simp add: get_u32_def get_bytes_def drop_update_swap)
  have u8: "get_u64 off (xs[143 := 0]) = get_u64 off xs" if "length xs = 1440" "off + 8 \<le> 143" for off xs
    using that by (simp add: get_u64_def get_bytes_def drop_update_swap)
  have q1l: "length q1 = 1440" using ql by (simp add: q1_def set_rq_file_name_def byte_simps)
  have name1: "rq_file_name p1 = rq_file_name q2" and size1: "rq_file_size p1 = at_file_size t"
    and hdr1: "get_bytes 8 64 p1 = at_hdr t" and len: "length p1 = 1440"
    using f(3) assms(3) by (simp_all add: p1_def client_field_defs byte_simps)
  have old: "hdr_type p1 = hdr_type q1" "hdr_size p1 = hdr_size q1" "rq_client_transfer_id p1 = rq_client_transfer_id q1"
    using f(3) assms(3) q1l by (simp_all add: p1_def q2_def client_field_defs byte_simps u u8)
  have "hdr_type q1 = P_TRANSFER_REQUEST" "hdr_size q1 = of_nat sizeof_request" "rq_client_transfer_id q1 = local_id t"
    using assms(4) by (simp_all add: q1_def q_def client_field_defs byte_simps)
  with run old name1 size1 hdr1 len f(1,2) show ?thesis by (simp add: name_def)
qed

text \<open>
  C18: a request survives the wire: the packet \<^verbatim>\<open>send_request\<close> makes carries the id, the header and
  the size of the transfer, and a receiver with a free slot opens, below its download directory,
  the file whose name is the file name of the path cut at 63 bytes, and waits for an answer.
\<close>

theorem request_roundtrip:
  assumes "tm_ok tm" "i < 6" "length p = PACKET_MAX_SIZE" "0 \<notin> set (at_file (host_transfers tm ! i))"
    and "tm_ok rm" "get_transfer (recv_transfers rm) = Some j" "getenv_USER E w = Some user"
    and "fopen E (ascii ''/home/'' @ user @ ascii ''/Downloads/'' @ take 63 (path_filename (at_file (host_transfers tm ! i))))
      (ascii ''wb'') w = (fd, w1)" "fd \<noteq> 0"
  shows "\<exists>tm1 p1 rm1. send_request i tm p = (tm1, p1) \<and> hdr_type p1 = P_TRANSFER_REQUEST \<and>
    hdr_size p1 = of_nat sizeof_request \<and> rq_client_transfer_id p1 = local_id (host_transfers tm ! i) \<and>
    create_recv_request E p1 rm w = Inr (True, rm1, w1) \<and> state_of RECV j rm1 = AT_GET_RESPONSE \<and>
    at_hdr (recv_transfers rm1 ! j) = at_hdr (host_transfers tm ! i) \<and>
    at_file (recv_transfers rm1 ! j) = take 63 (path_filename (at_file (host_transfers tm ! i))) \<and>
    file_size (f_manager (recv_transfers rm1 ! j)) = at_file_size (host_transfers tm ! i)"
proof -
  let ?t = "host_transfers tm ! i" and ?name = "take 63 (path_filename (at_file (host_transfers tm ! i)))"
  have "length (at_hdr ?t) = 64" using tm_ok_transfer [OF assms(1,2), of HOST] by (simp add: host_ok_def transfer_ok_def)
  from send_request_packet [OF refl assms(4) this assms(3)] obtain p1 where p1:
    "send_request i tm p = (upd_transfer HOST i (set_state AT_GET_RESPONSE) tm, p1)"
    "hdr_type p1 = P_TRANSFER_REQUEST" "hdr_size p1 = of_nat sizeof_request"
    "rq_client_transfer_id p1 = local_id ?t" "rq_file_size p1 = at_file_size ?t" "get_bytes 8 64 p1 = at_hdr ?t"
    "0 \<in> set (rq_file_name p1)" "cstr (rq_file_name p1) = ?name" by blast
  have j: "j < 6" "recv_ok (recv_transfers rm ! j)" using get_transfer_Some [of RECV rm j] assms(5,6) by simp_all
  have len: "length (recv_transfers rm) = 6" using tm_ok_length [OF assms(5), of RECV] by simp
  define m where "m = (f_manager (recv_transfers rm ! j))\<lparr>file_fd := fd, fm_state := FM_WORKING,
    file_size := at_file_size ?t, buf_len := 0, progress := 0\<rparr>"
  have "write_file E ?name (at_file_size ?t) (f_manager (recv_transfers rm ! j)) w = Inr (True, m, w1)"
    using j(2) assms(7-9) by (simp add: write_file_def recv_ok_def m_def)
  then have "create_recv_request E p1 rm w = Inr (True, upd_transfer RECV j (\<lambda>t. t\<lparr>f_manager := m,
      at_hdr := at_hdr ?t, at_file := ?name, at_state := AT_GET_RESPONSE\<rparr>) rm, w1)"
    using assms(6) p1(5-8) by (simp add: create_recv_request_def)
  with p1(1-4) j(1) len show ?thesis by (simp add: state_of_def upd_transfer.simps m_def)
qed

theorem request_roundtrip_witness:
  "\<exists>tm1 p1 rm1 w1. send_request 0 (hosting AT_SEND_REQ) zero_packet = (tm1, p1) \<and>
    create_recv_request disk_env p1 example_tm example_disk = Inr (True, rm1, w1) \<and>
    at_file (recv_transfers rm1 ! 0) = ascii ''a.txt''"
proof -
  have name: "path_filename (at_file (host_transfers (hosting AT_SEND_REQ) ! 0)) = ascii ''a.txt''"
    by (simp add: hosting_nth(1) path_filename_def ascii_def)
  have z: "0 \<notin> set (at_file (host_transfers (hosting AT_SEND_REQ) ! 0))"
    by (simp add: hosting_nth(1) ascii_def)
  have g: "get_transfer (recv_transfers example_tm) = Some 0"
    unfolding get_transfer_def using example_length(2) example_tm(3) [of 0 RECV]
    by (intro find_ix_first) (simp_all add: state_of_def)
  have u: "getenv_USER disk_env example_disk = Some (ascii ''qs'')" by (simp add: disk_env_def)
  obtain w1 where o: "fopen disk_env (ascii ''/home/'' @ ascii ''qs'' @ ascii ''/Downloads/'' @
      take 63 (path_filename (at_file (host_transfers (hosting AT_SEND_REQ) ! 0)))) (ascii ''wb'') example_disk = (1, w1)"
    by (simp add: disk_env_def)
  have "tm_ok (hosting AT_SEND_REQ)" "(0 :: nat) < 6" "(1 :: u64) \<noteq> 0" by (simp_all add: hosting_ok)
  from request_roundtrip [OF this(1,2) length_zero_packet z example_tm(2) g u o this(3)] obtain tm1 p1 rm1 where
    "send_request 0 (hosting AT_SEND_REQ) zero_packet = (tm1, p1)"
    "create_recv_request disk_env p1 example_tm example_disk = Inr (True, rm1, w1)"
    "at_file (recv_transfers rm1 ! 0) = take 63 (ascii ''a.txt'')" unfolding name by blast
  moreover have "take 63 (ascii ''a.txt'') = ascii ''a.txt''" by (simp add: ascii_def)
  ultimately show ?thesis by auto
qed

text \<open>
  C37: an upload starves the rest of the client: while the first transfer with work is an active one
  that is sent, \<^verbatim>\<open>do_work\<close> answers no request the client received, passes on none of its cancels, and
  touches no other offer; nor does it while it waits for the clock.
\<close>

theorem upload_starves:
  assumes "tm_ok tm" "process_cmds E n tm w = Inr (tm1, w1)" "tm_ok tm1" "i < 6" "state_of HOST i tm1 = AT_ACTIVE"
    and "\<forall>j < i. state_of HOST j tm1 \<notin> {AT_ACTIVE, AT_CANCEL, AT_SEND_REQ}"
    and "do_work E n tm p w = Inr (st, tm2, p2, w2)"
  shows "st \<noteq> NO_WORK \<and> recv_transfers tm2 = recv_transfers tm1 \<and>
    (\<forall>j < 6. j \<noteq> i \<longrightarrow> host_transfers tm2 ! j = host_transfers tm1 ! j)"
proof -
  have len: "length (host_transfers tm1) = 6" using tm_ok_length [OF assms(3), of HOST] by simp
  have "find_ix (\<lambda>t. at_state t = AT_ACTIVE \<or> at_state t = AT_CANCEL \<or> at_state t = AT_SEND_REQ) (host_transfers tm1) = Some i"
    using assms(4-6) len by (intro find_ix_first) (auto simp: state_of_def)
  then have h: "host_transfer_work E tm1 p w1 = send_data E i tm1 p w1"
    using assms(5) by (simp add: host_transfer_work_def state_of_def)
  have "st' \<noteq> NO_WORK \<and> recv_transfers tm3 = recv_transfers tm1 \<and>
      (\<forall>j < 6. j \<noteq> i \<longrightarrow> host_transfers tm3 ! j = host_transfers tm1 ! j)"
    if "send_data E i tm1 p w1 = Inr (st', tm3, p3, w3)" for st' tm3 p3 w3
    using that by (auto simp: send_data_def after_read_def send_cancel_def end_transfer_def push_backlog_def Let_def
        upd_transfer.simps split: prod.splits if_splits fm_state.splits)
  then show ?thesis using assms(2,7) h by (auto simp: do_work_def)
qed

lemma hosting_idle: "process_cmds E n (hosting st) w = Inr (hosting st, w)"
proof -
  have q: "cmd_queue (hosting st) = cmd_queue example_tm" by (simp add: hosting_def)
  have "lf_ok 3 (cmd_queue example_tm)" using example_tm(2) by (simp add: tm_ok_def cmds_ok_def)
  then have "peek (cmd_queue (hosting st)) = None" using lf.peek_waiting example_tm(4) q by fastforce
  then show ?thesis by (simp add: process_cmds.simps)
qed

theorem upload_starves_witness:
  "\<exists>st tm2 p2 w2. do_work disk_env 8 (hosting AT_ACTIVE) zero_packet example_disk = Inr (st, tm2, p2, w2) \<and>
    st \<noteq> NO_WORK \<and> recv_transfers tm2 = recv_transfers (hosting AT_ACTIVE)"
proof -
  have st: "state_of HOST 0 (hosting AT_ACTIVE) = AT_ACTIVE" "(0 :: nat) < 6"
    by (simp_all add: state_of_def hosting_nth(1))
  have ok: "tm_ok (hosting AT_ACTIVE)" by (simp add: hosting_ok)
  from returnsE_ex [OF send_data_client [OF ok length_zero_packet st(2,1) disk_env_io(1)] disk_env_io(3)] obtain st1 tm1 p1 w1 where
    d: "send_data disk_env 0 (hosting AT_ACTIVE) zero_packet example_disk = Inr (st1, tm1, p1, w1)" by fastforce
  have "st1 \<noteq> NO_WORK" using send_data_moves [OF ok length_zero_packet st(2,1), of disk_env example_disk] d by simp
  moreover have "find_ix (\<lambda>t. at_state t = AT_ACTIVE \<or> at_state t = AT_CANCEL \<or> at_state t = AT_SEND_REQ)
      (host_transfers (hosting AT_ACTIVE)) = Some 0"
    using st tm_ok_length [OF ok, of HOST] by (intro find_ix_first) (auto simp: state_of_def)
  ultimately have "do_work disk_env 8 (hosting AT_ACTIVE) zero_packet example_disk = Inr (st1, tm1, p1, w1)"
    using d st(1) by (simp add: do_work_def hosting_idle host_transfer_work_def state_of_def)
  from upload_starves [OF ok hosting_idle ok st(2,1) _ this] this show ?thesis by auto
qed

text \<open>
  C38: a receiver that is cancelled keeps its file open: \<^verbatim>\<open>recv_cancel\<close> frees the slot without closing the
  file, and the next request that takes the slot opens its own file over the old pointer.
\<close>

theorem cancelled_file_stays_open:
  assumes "tm_ok tm" "find_ix (\<lambda>t. can_cancel t \<and> th_t_id p = h_t_id (at_hdr t)) (recv_transfers tm) = Some i"
  shows "state_of RECV i (recv_cancel p tm) = AT_EMPTY \<and>
    f_manager (recv_transfers (recv_cancel p tm) ! i) = f_manager (recv_transfers tm ! i) \<and>
    fm_state (f_manager (recv_transfers tm ! i)) = FM_WORKING \<and> file_fd (f_manager (recv_transfers tm ! i)) \<noteq> 0 \<and>
    (\<forall>E q w tm2 w2. get_transfer (recv_transfers (recv_cancel p tm)) = Some i \<and>
       create_recv_request E q (recv_cancel p tm) w = Inr (True, tm2, w2) \<longrightarrow>
       (\<exists>path. fopen E path (ascii ''wb'') w = (file_fd (f_manager (recv_transfers tm2 ! i)), w2)))"
proof -
  have i: "i < 6" "can_cancel (recv_transfers tm ! i)" "recv_ok (recv_transfers tm ! i)"
    using find_recv [OF assms(2,1)] by simp_all
  have len: "length (recv_transfers tm) = 6" using tm_ok_length [OF assms(1), of RECV] by simp
  have nth: "recv_transfers (recv_cancel p tm) ! i = zero_transfer (recv_transfers tm ! i)"
    "length (recv_transfers (recv_cancel p tm)) = 6"
    using assms(2) i(1) len by (simp_all add: recv_cancel_def end_transfer_def push_backlog_def Let_def upd_transfer.simps)
  have "\<exists>path. fopen E path (ascii ''wb'') w = (file_fd (f_manager (recv_transfers tm2 ! i)), w2)"
    if "get_transfer (recv_transfers (recv_cancel p tm)) = Some i"
      "create_recv_request E q (recv_cancel p tm) w = Inr (True, tm2, w2)" for E q w tm2 w2
    using that i(1) nth by (auto simp: create_recv_request_def write_file_def Let_def upd_transfer.simps
        split: if_splits option.splits prod.splits)
  moreover have "fm_state (f_manager (recv_transfers tm ! i)) = FM_WORKING" "file_fd (f_manager (recv_transfers tm ! i)) \<noteq> 0"
    using i(2,3) by (auto simp: recv_ok_def can_cancel_def)
  ultimately show ?thesis using nth(1) by (auto simp: state_of_def)
qed

theorem cancelled_file_stays_open_witness:
  "\<exists>p. th_t_id p = 5 \<and> state_of RECV 0 (recv_cancel p (receiving AT_ACTIVE)) = AT_EMPTY \<and>
    file_fd (f_manager (recv_transfers (recv_cancel p (receiving AT_ACTIVE)) ! 0)) = 1"
proof -
  let ?p = "set_th_t_id 5 zero_packet"
  have ok: "tm_ok (receiving AT_ACTIVE)" by (simp add: receiving_ok)
  have p: "th_t_id ?p = 5" by (simp add: client_field_defs byte_simps zero_packet_def)
  have "find_ix (\<lambda>t. can_cancel t \<and> th_t_id ?p = h_t_id (at_hdr t)) (recv_transfers (receiving AT_ACTIVE)) = Some 0"
    using tm_ok_length [OF ok, of RECV] p
    by (intro find_ix_first) (simp_all add: receiving_nth can_cancel_def example_hdr)
  from cancelled_file_stays_open [OF ok this] p show ?thesis
    by (auto simp: receiving_nth example_reader_fm_def)
qed

end
