(* ===== verification/Client_Reading.thy ===== *)
theory Client_Reading
  imports Client_Network Transfer_Properties Framing
begin

text \<open>
  What the client relies on in TLS, files and poll, and how it cuts the bytes of the server into
  packets.
\<close>

section \<open>The outside\<close>

text \<open>
  \<open>arriving w\<close> and \<open>taken w\<close> are the plain bytes TLS will still deliver and those it has accepted.
  A read delivers the first of the former, at most as many as asked for; a write takes a prefix of
  what it is given; file and clock calls touch neither; poll reports only what it was asked for.
\<close>

locale tls_client =
  fixes E :: "'w cenv" and arriving taken :: "'w \<Rightarrow> bytes"
  assumes fread_le: "length (fst (fread E f n w)) \<le> n"
    and SSL_read_arriving: "c_SSL_read E h k w = (r, w') \<Longrightarrow> taken w' = taken w \<and>
      arriving w = (case r of Inl j \<Rightarrow> [] | Inr bs \<Rightarrow> bs) @ arriving w' \<and>
      (case r of Inl j \<Rightarrow> True | Inr bs \<Rightarrow> int (length bs) \<le> max 0 k)"
    and SSL_write_taken: "c_SSL_write E h bs w = (k, w') \<Longrightarrow> k \<le> int (length bs) \<and>
      taken w' = taken w @ take (nat k) bs \<and> arriving w' = arriving w"
    and poll_asked: "c_poll E fd want w = (pr, w') \<Longrightarrow> (pr_write pr \<longrightarrow> want) \<and>
      taken w' = taken w \<and> arriving w' = arriving w"
    and files_arriving: "arriving (snd (fopen E path mode w)) = arriving w" "arriving (snd (fseek_end E f w)) = arriving w"
      "arriving (rewind E f w) = arriving w" "arriving (snd (fread E f n w)) = arriving w"
      "arriving (snd (fwrite E f bs w)) = arriving w" "arriving (fclose E f w) = arriving w"
      "arriving (snd (clock_now E w)) = arriving w"
    and files_taken: "taken (snd (fopen E path mode w)) = taken w" "taken (snd (fseek_end E f w)) = taken w"
      "taken (rewind E f w) = taken w" "taken (snd (fread E f n w)) = taken w"
      "taken (snd (fwrite E f bs w)) = taken w" "taken (fclose E f w) = taken w"
      "taken (snd (clock_now E w)) = taken w"

interpretation disk_tls: tls_client disk_env d_arriving d_taken
  by unfold_locales (auto simp: disk_env_def split: if_splits)

section \<open>The read buffer\<close>

text \<open>
  Before the header is complete the size is 0; afterwards it is the one the header announces, and
  not more bytes are held than the packet has.
\<close>

definition rbuf_ok :: "packet_buf \<Rightarrow> bool" where
  "rbuf_ok b \<longleftrightarrow> length (pb_packet b) = PACKET_MAX_SIZE \<and> unat (pb_len b) \<le> PACKET_MAX_SIZE \<and>
     unat (pb_len b) \<le> 8 + unat (pb_size b) \<and>
     pb_size b = (if unat (pb_len b) < 8 then 0 else hdr_size (pb_packet b))"

definition rbuf_held :: "packet_buf \<Rightarrow> bytes" where
  "rbuf_held b = take (unat (pb_len b)) (pb_packet b)"

lemma rbuf_complete: "rbuf_complete b \<longleftrightarrow> unat (pb_len b) = unat (pb_size b) + 8"
proof -
  have "unat (ucast (pb_size b) + 8 :: u64) = unat (pb_size b) + 8"
    using unat_packet_len [of "pb_size b"] by (simp add: add.commute)
  then show ?thesis unfolding rbuf_complete_def word_unat_eq_iff by (simp add: unat_u32_64)
qed

lemma append_rbuf_spec:
  assumes ok: "rbuf_ok b" and bs: "bs \<noteq> []" "int (length bs) \<le> max 0 (read_request b)"
  shows "if PACKET_MAX_SIZE < unat (pb_len b) + length bs then append_rbuf bs b = Inl Undefined
    else \<exists>b1. append_rbuf bs b = Inr b1 \<and> rbuf_ok b1 \<and> rbuf_held b1 = rbuf_held b @ bs"
proof (cases "PACKET_MAX_SIZE < unat (pb_len b) + length bs")
  case False
  let ?n = "unat (pb_len b)" and ?d = "put_bytes (unat (pb_len b)) bs (pb_packet b)"
  let ?b = "b\<lparr>pb_packet := ?d, pb_len := pb_len b + of_nat (length bs)\<rparr>"
  have l: "length (pb_packet b) = 1440" "?n + length bs \<le> 1440" "?n \<le> 8 + unat (pb_size b)"
    using ok False by (auto simp: rbuf_ok_def)
  then have n: "unat (pb_len b + of_nat (length bs)) = ?n + length bs"
    by (simp add: unat_word_ariths unat_of_nat)
  have 8: "pb_len b + of_nat (length bs) = 8 \<longleftrightarrow> ?n + length bs = 8"
    unfolding word_unat_eq_iff n by simp
  have lack: "length bs \<le> 8 + unat (pb_size b) - ?n"
    using bs lacking_bytes(2) [OF l(3)] by (auto simp: read_request_def max_def split: if_splits)
  have held: "take (?n + length bs) ?d = rbuf_held b @ bs"
    using l by (simp add: put_bytes_def rbuf_held_def)
  have hdr: "hdr_size ?d = hdr_size (pb_packet b)" if "8 \<le> ?n"
    using that l by (simp add: hdr_size_def byte_simps)
  have len: "length ?d = 1440" using l by (simp add: byte_simps)
  define b1 where "b1 = (if ?n + length bs = 8 then ?b\<lparr>pb_size := hdr_size ?d\<rparr> else ?b)"
  have run: "append_rbuf bs b = Inr b1"
    using False 8 by (simp add: append_rbuf_def Let_def b1_def)
  have "rbuf_ok b1"
  proof (cases "?n < 8")
    case True
    then have "pb_size b = 0" using ok by (simp add: rbuf_ok_def)
    with True lack l len n bs(1) show ?thesis by (auto simp: rbuf_ok_def b1_def)
  next
    case False
    then have "pb_size b = hdr_size (pb_packet b)" using ok by (simp add: rbuf_ok_def)
    with False lack l len n hdr show ?thesis by (auto simp: rbuf_ok_def b1_def bs(1))
  qed
  moreover have "rbuf_held b1 = rbuf_held b @ bs" using n held by (auto simp: b1_def rbuf_held_def)
  ultimately show ?thesis using run False by auto
qed (simp add: append_rbuf_def)

text \<open>A complete packet is a frame, and what is left of an incomplete one is none.\<close>

lemma rbuf_frame:
  assumes "rbuf_ok b" "rbuf_complete b"
  shows "is_frame (rbuf_held b)" "rbuf_held b = take (length (rbuf_held b)) (pb_packet b)" "rbuf_held b \<noteq> []"
proof -
  have n: "unat (pb_len b) = unat (hdr_size (pb_packet b)) + 8" "unat (pb_len b) \<le> 1440" "length (pb_packet b) = 1440"
    using assms by (auto simp: rbuf_ok_def rbuf_complete split: if_splits)
  then have l: "length (rbuf_held b) = unat (pb_len b)" by (simp add: rbuf_held_def)
  then have "hdr_size (rbuf_held b) = hdr_size (pb_packet b)"
    using hdr_size_append [of "rbuf_held b" "drop (unat (pb_len b)) (pb_packet b)"] n by (simp add: rbuf_held_def)
  then show "is_frame (rbuf_held b)" using l n by (simp add: is_frame_def frame_len_def)
  show "rbuf_held b = take (length (rbuf_held b)) (pb_packet b)" using l by (simp add: rbuf_held_def)
  show "rbuf_held b \<noteq> []" using l n by auto
qed

lemma rbuf_rest:
  assumes "rbuf_ok b" "\<not> rbuf_complete b"
  shows "length (rbuf_held b) < 8 \<or> length (rbuf_held b) < frame_len (rbuf_held b)"
proof (cases "unat (pb_len b) < 8")
  case False
  then have n: "unat (pb_len b) < unat (hdr_size (pb_packet b)) + 8" "unat (pb_len b) \<le> 1440" "length (pb_packet b) = 1440"
    using assms by (auto simp: rbuf_ok_def rbuf_complete split: if_splits)
  then have l: "length (rbuf_held b) = unat (pb_len b)" by (simp add: rbuf_held_def)
  then have "hdr_size (rbuf_held b) = hdr_size (pb_packet b)"
    using False hdr_size_append [of "rbuf_held b" "drop (unat (pb_len b)) (pb_packet b)"] n by (simp add: rbuf_held_def)
  with l n show ?thesis by (simp add: frame_len_def)
qed (use assms(1) in \<open>simp add: rbuf_held_def min_less_iff_disj\<close>)


section \<open>Handling a packet\<close>

definition sessions_ok :: "session_msg lf_queue \<Rightarrow> bool" where
  "sessions_ok q \<longleftrightarrow> lf_ok 3 q \<and> (\<forall>m \<in> set (lf_items q). length (s_name m) = PC_NAME_MAX_LEN \<and> length (s_id m) = SESSION_ID_MAX_LEN)"

text \<open>A packet in the write buffer: one of the transfers, or the introduction.\<close>

definition outgoing :: "packet \<Rightarrow> bool" where
  "outgoing p \<longleftrightarrow> client_packet p \<or>
     length p = PACKET_MAX_SIZE \<and> hdr_type p = P_CLIENT_INTRO \<and> hdr_size p = of_nat sizeof_intro"

definition wbuf_ok :: "packet_buf \<Rightarrow> bool" where
  "wbuf_ok b \<longleftrightarrow> length (pb_packet b) = PACKET_MAX_SIZE \<and>
     (pb_size b = 0 \<and> pb_len b = 0 \<or>
      outgoing (pb_packet b) \<and> pb_size b = hdr_size (pb_packet b) + 8 \<and> unat (pb_len b) < unat (pb_size b))"

definition net_ok :: "network \<Rightarrow> bool" where
  "net_ok s \<longleftrightarrow> tm_ok (nw_tm s) \<and> sessions_ok (nw_queue s) \<and> rbuf_ok (nw_rbuf s) \<and> \<not> rbuf_complete (nw_rbuf s) \<and> wbuf_ok (nw_wbuf s)"

text \<open>What reading changes: the transfers, the users, the state and the read buffer.\<close>

definition reads_only :: "network \<Rightarrow> network \<Rightarrow> bool" where
  "reads_only s s1 \<longleftrightarrow> nw_sock s1 = nw_sock s \<and> nw_want_write s1 = nw_want_write s \<and> nw_queue s1 = nw_queue s \<and>
     nw_wbuf s1 = nw_wbuf s \<and> nw_ssl_ctx s1 = nw_ssl_ctx s \<and> nw_ssl s1 = nw_ssl s \<and> nw_pool s1 = nw_pool s \<and>
     nw_threads s1 = nw_threads s \<and> tm_ok (nw_tm s1) \<and> cmd_queue (nw_tm s1) = cmd_queue (nw_tm s) \<and>
     (nw_state s1 = UNINITIALIZED \<longrightarrow> nw_state s = UNINITIALIZED)"

lemma reads_only_refl: "tm_ok (nw_tm s) \<Longrightarrow> reads_only s s"
  by (simp add: reads_only_def)

lemma reads_only_rbuf: "tm_ok (nw_tm s) \<Longrightarrow> reads_only s (s\<lparr>nw_rbuf := b\<rparr>)"
  by (simp add: reads_only_def)

lemma reads_only_trans: "reads_only s s1 \<Longrightarrow> reads_only s1 s2 \<Longrightarrow> reads_only s s2"
  by (simp add: reads_only_def)

lemma reads_only_ok: "reads_only s s1 \<Longrightarrow> tm_ok (nw_tm s1)"
  by (simp add: reads_only_def)

text \<open>The packet handlers leave the queue of commands alone.\<close>

lemma handlers_queue [simp]:
  "cmd_queue (host_request_valid p reply tm) = cmd_queue tm"
  "cmd_queue (recv_cancel p tm) = cmd_queue tm"
  "cmd_queue (host_request_reply t_id c_id reply tm) = cmd_queue tm"
  by (simp_all add: host_request_valid_def recv_cancel_def host_request_reply_def end_transfer_def push_backlog_def
      Let_def split: option.split)

lemma handlers_queue_world:
  "create_recv_request E p tm w = Inr (b, tm1, w1) \<Longrightarrow> cmd_queue tm1 = cmd_queue tm"
  "recv_data E p tm w = Inr (tm1, w1) \<Longrightarrow> cmd_queue tm1 = cmd_queue tm"
  "recv_complete E t_id tm w = (tm1, w1) \<Longrightarrow> cmd_queue tm1 = cmd_queue tm"
  by (auto simp: create_recv_request_def recv_data_def handle_transfer_data_def recv_complete_def end_transfer_def
      push_backlog_def Let_def split: option.splits if_splits prod.splits)

lemma analize_reads_only:
  assumes ok: "tm_ok (nw_tm s)" and len: "length (pb_packet (nw_rbuf s)) = PACKET_MAX_SIZE"
    and run: "analize E s w = Inr (s1, w1)"
  shows "reads_only s s1 \<and> nw_rbuf s1 = nw_rbuf s"
proof -
  let ?p = "pb_packet (nw_rbuf s)" and ?tm = "nw_tm s"
  have tm: "reads_only s (s\<lparr>nw_tm := tm\<rparr>) \<and> nw_rbuf (s\<lparr>nw_tm := tm\<rparr>) = nw_rbuf s"
    if "moves ?tm tm" "cmd_queue tm = cmd_queue ?tm" for tm
    using that moves_ok by (simp add: reads_only_def)
  have st: "reads_only s (s\<lparr>nw_state := SESSION_SUCCESS\<rparr>)" "reads_only s (s\<lparr>nw_state := SESSION_ERROR\<rparr>)"
      "reads_only s (s\<lparr>nw_users := ul\<rparr>)" for ul
    using ok by (simp_all add: reads_only_def)
  have req: "moves ?tm tm1 \<and> cmd_queue tm1 = cmd_queue ?tm" if "create_recv_request E ?p ?tm w = Inr (b, tm1, v)" for b tm1 v
    using keepsE_D [OF create_recv_request_moves [OF ok len] that] handlers_queue_world(1) [OF that] by simp
  have data: "moves ?tm tm1 \<and> cmd_queue tm1 = cmd_queue ?tm" if "recv_data E ?p ?tm w = Inr (tm1, v)" for tm1 v
    using keepsE_D [OF recv_data_moves [OF ok] that] handlers_queue_world(2) [OF that] by simp
  have compl: "moves ?tm tm1 \<and> cmd_queue tm1 = cmd_queue ?tm" if "recv_complete E t ?tm w = (tm1, v)" for tm1 v t
    using recv_complete_moves [OF ok, of E t w] handlers_queue_world(3) [OF that] that by simp
  show ?thesis
    using run st reads_only_refl [OF ok]
    by (auto simp: analize_def Let_def server_response_def update_users_def bindE_Inr_iff
        host_request_valid_moves [OF ok len] recv_cancel_moves [OF ok] host_request_reply_moves [OF ok]
        intro!: tm dest!: req data compl split: if_splits prod.splits)
qed

context tls_client
begin

definition quiet :: "'w \<Rightarrow> 'w \<Rightarrow> bool" where
  "quiet w w1 \<longleftrightarrow> arriving w1 = arriving w \<and> taken w1 = taken w"

lemma quiet_files:
  "fopen E path mode w = (fd, w1) \<Longrightarrow> quiet w w1" "fread E f n w = (bs, w1) \<Longrightarrow> quiet w w1"
  "fwrite E f bs w = (k, w1) \<Longrightarrow> quiet w w1" "clock_now E w = (t, w1) \<Longrightarrow> quiet w w1"
  "fseek_end E f w = (rc, w1) \<Longrightarrow> quiet w w1"
  unfolding quiet_def using files_arriving files_taken by (metis snd_conv)+

lemma quiet_simps [simp]: "quiet w (fclose E f w)" "quiet w (rewind E f w)" "quiet w w"
  using files_arriving files_taken by (simp_all add: quiet_def)

lemma quiet_trans: "quiet w w1 \<Longrightarrow> quiet w1 w2 \<Longrightarrow> quiet w w2"
  by (simp add: quiet_def)

lemma analize_quiet: "analize E s w = Inr (s1, w1) \<Longrightarrow> quiet w w1"
  by (auto simp: analize_def Let_def bindE_Inr_iff create_recv_request_def write_file_def recv_data_def
      handle_transfer_data_def write_work_def recv_complete_def fm_close_def
      split: if_splits prod.splits option.splits fm_state.splits dest: quiet_files)

end

section \<open>Reading cuts the stream into frames\<close>

text \<open>
  \<open>net_reads E a fs b\<close>: the call has handed the frames \<open>fs\<close> to \<^verbatim>\<open>analize\<close>, in this order, with only reads into
  the buffer in between.
\<close>

inductive net_reads :: "'w cenv \<Rightarrow> network \<times> 'w \<Rightarrow> bytes list \<Rightarrow> network \<times> 'w \<Rightarrow> bool" for E :: "'w cenv" where
  reads_done: "net_reads E (s, w) [] (s\<lparr>nw_rbuf := b\<rparr>, w')"
| reads_frame: "rbuf_complete b \<Longrightarrow> take (length f) (pb_packet b) = f \<Longrightarrow>
    analize E (s\<lparr>nw_rbuf := b\<rparr>) w1 = Inr (s2, w2) \<Longrightarrow>
    net_reads E (s2\<lparr>nw_rbuf := reset_buf (nw_rbuf s2)\<rparr>, w2) fs r \<Longrightarrow> net_reads E (s, w) (f # fs) r"

lemma reads_refl: "net_reads E (s, w) [] (s, w')"
  using reads_done [of E s w "nw_rbuf s" w'] by simp

lemma reads_rbuf: "net_reads E (s\<lparr>nw_rbuf := b\<rparr>, w) fs r \<Longrightarrow> net_reads E (s, v) fs r"
  by (erule net_reads.cases) (auto intro: net_reads.intros)

lemma reads_append: "net_reads E a fs b \<Longrightarrow> net_reads E b gs c \<Longrightarrow> net_reads E a (fs @ gs) c"
proof (induction rule: net_reads.induct)
  case (reads_done s w b w')
  then show ?case using reads_rbuf by fastforce
next
  case (reads_frame b f s w1 s2 w2 fs r w)
  then show ?case by (auto intro: net_reads.reads_frame)
qed

context tls_client
begin

definition net_reading :: "network \<times> 'w \<Rightarrow> bytes list \<Rightarrow> bytes \<Rightarrow> network \<times> 'w \<Rightarrow> bool" where
  "net_reading a fs cs b \<longleftrightarrow> net_reads E a fs b \<and> rbuf_held (nw_rbuf (fst a)) @ cs = concat fs @ rbuf_held (nw_rbuf (fst b)) \<and>
     (\<forall>f \<in> set fs. is_frame f) \<and> reads_only (fst a) (fst b) \<and> rbuf_ok (nw_rbuf (fst b)) \<and>
     \<not> rbuf_complete (nw_rbuf (fst b)) \<and> arriving (snd a) = cs @ arriving (snd b) \<and> taken (snd b) = taken (snd a)"

lemma net_reading_trans:
  assumes "net_reading a fs cs b" "net_reading b gs ds c"
  shows "net_reading a (fs @ gs) (cs @ ds) c"
  using assms reads_append [of E a fs b gs c] reads_only_trans [of "fst a" "fst b" "fst c"]
  by (auto simp: net_reading_def) (metis append.assoc)

lemma take_bytes_reading:
  assumes "tm_ok (nw_tm s)" "rbuf_ok (nw_rbuf s)" "\<not> rbuf_complete (nw_rbuf s)"
    and "bs \<noteq> []" "int (length bs) \<le> max 0 (read_request (nw_rbuf s))" "arriving w = bs @ arriving w1" "taken w1 = taken w"
    and run: "take_bytes E bs s w1 = Inr (s2, w2)"
  shows "\<exists>fs. net_reading (s, w) fs bs (s2, w2)"
proof -
  note a = append_rbuf_spec [OF assms(2,4,5)]
  obtain b where b: "append_rbuf bs (nw_rbuf s) = Inr b" "rbuf_ok b" "rbuf_held b = rbuf_held (nw_rbuf s) @ bs"
    using run a by (auto simp: take_bytes_def split: if_splits)
  let ?s = "s\<lparr>nw_rbuf := b\<rparr>"
  show ?thesis
  proof (cases "rbuf_complete b")
    case False
    then have "s2 = ?s" "w2 = w1" using run b(1) by (simp_all add: take_bytes_def)
    with b False assms(1,6,7) show ?thesis
      by (intro exI [of _ "[]"]) (simp add: net_reading_def reads_done reads_only_rbuf)
  next
    case True
    then obtain s3 where s3: "analize E ?s w1 = Inr (s3, w2)" "s2 = s3\<lparr>nw_rbuf := reset_buf (nw_rbuf s3)\<rparr>"
      using run b(1) by (auto simp: take_bytes_def)
    note f = rbuf_frame [OF b(2) True]
    have len: "length (pb_packet b) = PACKET_MAX_SIZE" using b(2) by (simp add: rbuf_ok_def)
    have ro: "reads_only ?s s3" "nw_rbuf s3 = b"
      using analize_reads_only [OF _ _ s3(1)] assms(1) len by simp_all
    have "net_reads E (s, w) [rbuf_held b] (s2, w2)"
      using reads_frame [of b "rbuf_held b" E s w1 s3 w2 "[]" "(s2, w2)" w, OF True f(2) [symmetric] s3(1)]
        reads_refl [of E s2 w2 w2] s3(2) by simp
    moreover have "reads_only s s2"
      using ro(1) s3(2) by (simp add: reads_only_def)
    moreover have "rbuf_ok (nw_rbuf s2)" "\<not> rbuf_complete (nw_rbuf s2)" "rbuf_held (nw_rbuf s2) = []"
      using len by (simp_all add: s3(2) ro(2) reset_buf_def rbuf_ok_def rbuf_complete rbuf_held_def)
    moreover have "quiet w1 w2" by (rule analize_quiet [OF s3(1)])
    ultimately show ?thesis
      using b(3) f(1) assms(6,7) by (intro exI [of _ "[rbuf_held b]"]) (simp add: net_reading_def quiet_def)
  qed
qed

lemma read_turn_reading:
  assumes "tm_ok (nw_tm s)" "rbuf_ok (nw_rbuf s)" "\<not> rbuf_complete (nw_rbuf s)" "read_turn E s w = Inr (brk, s2, w2)"
  shows "\<exists>fs cs. net_reading (s, w) fs cs (s2, w2)"
proof -
  obtain r w1 where r: "c_SSL_read E (nw_ssl s) (read_request (nw_rbuf s)) w = (r, w1)" by force
  note arr = SSL_read_arriving [OF r]
  show ?thesis
  proof (cases "\<exists>x xs. r = Inr (x # xs)")
    case True
    then obtain x xs where x: "r = Inr (x # xs)" by blast
    then have "take_bytes E (x # xs) s w1 = Inr (s2, w2)" using assms(4) r by (auto simp: read_turn_def)
    from take_bytes_reading [OF assms(1-3) _ _ _ _ this, of w] arr x
    have "\<exists>fs. net_reading (s, w) fs (x # xs) (s2, w2)" by simp
    then show ?thesis by blast
  next
    case False
    then have "\<not> 0 < (case r of Inl k \<Rightarrow> - int k | Inr bs \<Rightarrow> int (length bs))"
      by (auto split: sum.splits) (metis list.exhaust)
    then have "s2 = s" "w2 = w1" using assms(4) r by (simp_all add: read_turn_def Let_def split: if_splits)
    moreover have "arriving w = arriving w1" "taken w1 = taken w"
      using arr False by (auto split: sum.splits) (metis append_Nil list.exhaust)
    ultimately show ?thesis using assms(1-3)
      by (intro exI [of _ "[]"] exI [of _ "[]"]) (simp add: net_reading_def reads_refl reads_only_refl)
  qed
qed

lemma read_data_reading:
  "tm_ok (nw_tm s) \<Longrightarrow> rbuf_ok (nw_rbuf s) \<Longrightarrow> \<not> rbuf_complete (nw_rbuf s) \<Longrightarrow>
   Network_read_data E n s w = Inr (s', w') \<Longrightarrow> \<exists>fs cs. net_reading (s, w) fs cs (s', w')"
proof (induction n arbitrary: s w rule: less_induct)
  case (less n)
  from less.prems(4) obtain brk s2 w2 where turn: "read_turn E s w = Inr (brk, s2, w2)"
    "(if brk \<or> \<not> c_SSL_pending E (nw_ssl s2) w2 then Inr (s2, w2)
      else (case n of 0 \<Rightarrow> Inl Out_Of_Fuel | Suc m \<Rightarrow> Network_read_data E m s2 w2)) = Inr (s', w')"
    unfolding Network_read_data.simps [of E n s w] by (elim bindE_Inr_elim) (auto split: prod.splits)
  from read_turn_reading [OF less.prems(1-3) turn(1)] obtain fs cs where fs: "net_reading (s, w) fs cs (s2, w2)" by blast
  show ?case
  proof (cases "brk \<or> \<not> c_SSL_pending E (nw_ssl s2) w2")
    case True
    then have "s2 = s'" "w2 = w'" using turn(2) by simp_all
    with fs show ?thesis by blast
  next
    case False
    then obtain m where m: "n = Suc m" "Network_read_data E m s2 w2 = Inr (s', w')"
      using turn(2) by (auto split: nat.splits)
    have "tm_ok (nw_tm s2)" "rbuf_ok (nw_rbuf s2)" "\<not> rbuf_complete (nw_rbuf s2)"
      using fs reads_only_ok [of s s2] by (simp_all add: net_reading_def)
    from less.IH [OF _ this m(2)] m(1) obtain gs ds where "net_reading (s2, w2) gs ds (s', w')" by auto
    with net_reading_trans [OF fs] show ?thesis by blast
  qed
qed

end

end
