(* ===== verification/Client_Writing.thy ===== *)
theory Client_Writing
  imports Client_Reading
begin

text \<open>
  What the network thread of the client sends: the packet a turn makes, the turns of \<^verbatim>\<open>handle\<close>, and
  the runs in which they alternate with the calls of the user interface.
\<close>

section \<open>Making a packet\<close>

lemma to_packet_spec:
  assumes "length p = PACKET_MAX_SIZE" "length (s_name m) = PC_NAME_MAX_LEN" "length (s_id m) = SESSION_ID_MAX_LEN"
  shows "\<exists>q. to_packet m p = Inr q \<and> outgoing q \<and> length q = PACKET_MAX_SIZE \<and> intro_session q = of_bool (s_opt m) \<and>
    intro_name q = (s_name m)[15 := 0] \<and> intro_id q = (s_id m)[15 := 0] \<and>
    hdr_type q = P_CLIENT_INTRO \<and> hdr_size q = of_nat sizeof_intro"
proof -
  have cp: "safe_strcpy d x 16 = Inr (x[15 := 0])" if "length d = 16" "length x = 16" for d x
    using that by (simp add: safe_strcpy_def put_bytes_def)
  let ?p1 = "PACKET_HDR P_CLIENT_INTRO sizeof_intro p"
  let ?p2 = "put_bytes 24 ((s_id m)[15 := 0]) ?p1"
  let ?q = "set_intro_session (of_bool (s_opt m)) (put_bytes 8 ((s_name m)[15 := 0]) ?p2)"
  have l: "length ?p1 = 1440" "length ?p2 = 1440" using assms by (simp_all add: byte_simps)
  then have "to_packet m p = Inr ?q" using assms by (simp add: to_packet_def Let_def cp byte_simps)
  moreover have "length ?q = 1440" "hdr_type ?q = P_CLIENT_INTRO" "hdr_size ?q = of_nat sizeof_intro"
    "intro_session ?q = of_bool (s_opt m)" "intro_name ?q = (s_name m)[15 := 0]" "intro_id ?q = (s_id m)[15 := 0]"
    using assms l by (simp_all add: set_intro_session_def packet_field_defs byte_simps)
  ultimately show ?thesis by (auto simp: outgoing_def)
qed

lemma outgoing_size:
  assumes "outgoing p"
  shows "length p = PACKET_MAX_SIZE" "unat (hdr_size p + 8) = unat (hdr_size p) + 8" "unat (hdr_size p) + 8 \<le> PACKET_MAX_SIZE"
proof -
  show "length p = PACKET_MAX_SIZE" "unat (hdr_size p) + 8 \<le> PACKET_MAX_SIZE"
    using assms by (auto simp: outgoing_def client_packet_def)
  then show "unat (hdr_size p + 8) = unat (hdr_size p) + 8" by (simp add: unat_word_ariths)
qed

text \<open>The bytes of a packet that are sent, and those the next turn makes.\<close>

definition packet_image :: "packet \<Rightarrow> bytes" where
  "packet_image p = take (unat (hdr_size p) + 8) p"

definition fresh :: "'w cenv \<Rightarrow> network \<Rightarrow> 'w \<Rightarrow> bytes" where
  "fresh E s w =
     (if pb_len (nw_wbuf s) \<noteq> 0 then []
      else case do_work E 8 (nw_tm s) (pb_packet (nw_wbuf s)) w of
        Inl e \<Rightarrow> []
      | Inr (work, tm, p, v) \<Rightarrow>
          (case work of
             HAS_WORK \<Rightarrow> packet_image p
           | WAIT_WORK \<Rightarrow> []
           | NO_WORK \<Rightarrow> (case lf_items (nw_queue s) of
               [] \<Rightarrow> []
             | m # ms \<Rightarrow> (case to_packet m p of Inl e \<Rightarrow> [] | Inr q \<Rightarrow> packet_image q))))"

text \<open>What writing changes: the transfers, the queue of requests, the write buffer and what poll is asked for.\<close>

definition writes_only :: "network \<Rightarrow> network \<Rightarrow> bool" where
  "writes_only s s1 \<longleftrightarrow> nw_sock s1 = nw_sock s \<and> nw_state s1 = nw_state s \<and> nw_rbuf s1 = nw_rbuf s \<and>
     nw_ssl_ctx s1 = nw_ssl_ctx s \<and> nw_ssl s1 = nw_ssl s \<and> nw_users s1 = nw_users s \<and>
     nw_threads s1 = nw_threads s"

lemma fresh_want [simp]: "fresh E (s\<lparr>nw_want_write := b\<rparr>) w = fresh E s w"
  by (simp add: fresh_def cong: sum.case_cong prod.case_cong work_state.case_cong)

context tls_client
begin

lemmas quiet_all = quiet_def files_arriving(3,6) files_taken(3,6)

lemma run_cmd_quiet: "run_cmd E c tm w = Inr (tm1, w1) \<Longrightarrow> quiet w w1"
  by (cases c) (auto simp: cmd_host_request_def read_file_def get_file_size_def Let_def
      split: option.splits if_splits prod.splits dest!: quiet_files simp: quiet_all)

lemma process_cmds_quiet: "process_cmds E n tm w = Inr (tm1, w1) \<Longrightarrow> quiet w w1"
proof (induction n arbitrary: tm w)
  case 0
  then show ?case by (subst (asm) process_cmds.simps) (auto split: option.splits)
next
  case (Suc n)
  from Suc.prems show ?case
    by (subst (asm) process_cmds.simps)
      (auto split: option.splits prod.splits dest!: run_cmd_quiet Suc.IH simp: quiet_all)
qed

lemma read_work_quiet: "read_work E m p w = Inr (st, m1, p1, w1) \<Longrightarrow> quiet w w1"
  by (auto simp: read_work_def read_from_file_def fill_buffer_def Let_def
      split: fm_state.splits option.splits if_splits prod.splits dest!: quiet_files)

lemma after_read_quiet: "after_read E st i tm p w = (tm1, p1, w1) \<Longrightarrow> quiet w w1"
  by (cases st) (auto simp: after_read_def fm_close_def Let_def split: prod.splits if_splits)

lemma send_data_quiet: "send_data E i tm p w = Inr (st, tm1, p1, w1) \<Longrightarrow> quiet w w1"
  by (auto simp: send_data_def Let_def split: if_splits prod.splits
      dest!: quiet_files(4) read_work_quiet after_read_quiet simp: quiet_all)

lemma do_work_quiet: "do_work E n tm p w = Inr (st, tm1, p1, w1) \<Longrightarrow> quiet w w1"
  by (auto simp: do_work_def host_transfer_work_def Let_def split: if_splits prod.splits option.splits
      dest!: process_cmds_quiet send_data_quiet simp: quiet_all)

text \<open>The next packet can be made for certain when no command waits with a path that is not terminated.\<close>

definition can_work :: "network \<Rightarrow> bool" where
  "can_work s \<longleftrightarrow> small_files E \<and> paths_terminated (nw_tm s)"

lemma do_work_here:
  assumes "net_ok s"
  shows "returnsE (can_work s) (\<lambda>(st, tm1, p1, w1). tm_ok tm1 \<and>
    lf_items (cmd_queue tm1) = [] \<and> length p1 = PACKET_MAX_SIZE \<and> (st = HAS_WORK \<longrightarrow> client_packet p1) \<and>
    (st = NO_WORK \<longrightarrow> p1 = pb_packet (nw_wbuf s)) \<and> quiet w w1) (do_work E 8 (nw_tm s) (pb_packet (nw_wbuf s)) w)"
proof -
  have ok: "tm_ok (nw_tm s)" "length (pb_packet (nw_wbuf s)) = PACKET_MAX_SIZE" "\<forall>f n v. length (fst (fread E f n v)) \<le> n"
    using assms fread_le by (simp_all add: net_ok_def wbuf_ok_def)
  from do_work_spec(1) [OF ok, of w] show ?thesis
    by (cases "do_work E 8 (nw_tm s) (pb_packet (nw_wbuf s)) w") (auto simp: can_work_def dest: do_work_quiet)
qed

lemma filled_ok:
  "outgoing q \<Longrightarrow> wbuf_ok \<lparr>pb_packet = q, pb_len = 0, pb_size = hdr_size q + of_nat sizeof_Packet_Hdr\<rparr>"
  using outgoing_size [of q] by (simp add: wbuf_ok_def)

lemma convert_msg_spec:
  assumes ok: "net_ok s" and len: "pb_len (nw_wbuf s) = 0"
  shows "returnsE (can_work s) (\<lambda>(b, s1, w1). net_ok s1 \<and> writes_only s s1 \<and> quiet w w1 \<and>
    pb_len (nw_wbuf s1) = 0 \<and> (b \<longrightarrow> take (unat (pb_size (nw_wbuf s1))) (pb_packet (nw_wbuf s1)) = fresh E s w) \<and>
    (\<not> b \<longrightarrow> fresh E s w = [] \<and> nw_queue s1 = nw_queue s \<and> nw_wbuf s1 = nw_wbuf s)) (convert_msg E s w)"
proof (cases "do_work E 8 (nw_tm s) (pb_packet (nw_wbuf s)) w")
  case (Inl e)
  with do_work_here [OF ok, of w] show ?thesis by (simp add: convert_msg_def)
next
  case (Inr x)
  have q: "lf_ok 3 (nw_queue s)"
    "\<forall>m \<in> set (lf_items (nw_queue s)). length (s_name m) = PC_NAME_MAX_LEN \<and> length (s_id m) = SESSION_ID_MAX_LEN"
    and wb: "wbuf_ok (nw_wbuf s)" using ok by (simp_all add: net_ok_def sessions_ok_def)
  obtain st tm1 p1 w1 where x: "x = (st, tm1, p1, w1)" by (cases x)
  have d: "do_work E 8 (nw_tm s) (pb_packet (nw_wbuf s)) w = Inr (st, tm1, p1, w1)" "tm_ok tm1" "lf_items (cmd_queue tm1) = []"
    "length p1 = PACKET_MAX_SIZE" "st = HAS_WORK \<longrightarrow> client_packet p1" "st = NO_WORK \<longrightarrow> p1 = pb_packet (nw_wbuf s)" "quiet w w1"
    using returnsE_D [OF do_work_here [OF ok] Inr] Inr x by simp_all
  show ?thesis
  proof (cases st)
    case HAS_WORK
    then have out: "outgoing p1" using d(5) by (simp add: outgoing_def)
    with HAS_WORK d ok len show ?thesis
      using filled_ok [OF out] outgoing_size [OF out]
      by (simp add: convert_msg_def net_ok_def writes_only_def fresh_def packet_image_def)
  next
    case WAIT_WORK
    with d ok len show ?thesis
      by (simp add: convert_msg_def net_ok_def writes_only_def fresh_def reset_buf_def wbuf_ok_def)
  next
    case NO_WORK
    show ?thesis
    proof (cases "lf_items (nw_queue s)")
      case Nil
      then have "peek (nw_queue s) = None" using lf.peek_waiting [OF q(1)] by simp
      with NO_WORK Nil d ok len show ?thesis
        by (simp add: convert_msg_def net_ok_def writes_only_def fresh_def)
    next
      case (Cons m ms)
      have pk: "peek (nw_queue s) = Some m" using lf.peek_waiting [OF q(1)] Cons by simp
      from lf.pop_first [OF q(1) Cons] obtain q1 where
        q1: "pop (nw_queue s) = (True, q1)" "lf_ok 3 q1" "lf_items q1 = ms" by blast
      from to_packet_spec [OF d(4), of m] q(2) Cons obtain p2 where p2: "to_packet m p1 = Inr p2" "outgoing p2" by auto
      from NO_WORK pk p2 d ok len q1 q(2) Cons show ?thesis
        using filled_ok [OF p2(2)] outgoing_size [OF p2(2)]
        by (simp add: convert_msg_def net_ok_def writes_only_def fresh_def packet_image_def sessions_ok_def)
    qed
  qed
qed

lemma check_write_spec:
  assumes ok: "net_ok s"
  shows "returnsE (can_work s) (\<lambda>(s1, w1). net_ok s1 \<and> writes_only s s1 \<and> quiet w w1 \<and>
    pb_len (nw_wbuf s1) = pb_len (nw_wbuf s) \<and>
    (nw_want_write s1 \<longrightarrow> pb_len (nw_wbuf s) = 0 \<and>
       take (unat (pb_size (nw_wbuf s1))) (pb_packet (nw_wbuf s1)) = fresh E s w) \<and>
    (\<not> nw_want_write s1 \<longrightarrow> fresh E s w = [] \<and> nw_queue s1 = nw_queue s \<and> nw_wbuf s1 = nw_wbuf s)) (check_write E s w)"
proof (cases "pb_len (nw_wbuf s) = 0")
  case False
  then show ?thesis using ok
    by (simp add: check_write_def net_ok_def writes_only_def fresh_def)
next
  case True
  let ?s = "s\<lparr>nw_want_write := False\<rparr>"
  have s: "net_ok ?s" "pb_len (nw_wbuf ?s) = 0" "fresh E ?s w = fresh E s w" "writes_only s ?s" "can_work ?s = can_work s"
    using ok True by (simp_all add: net_ok_def writes_only_def can_work_def)
  note conv = convert_msg_spec [OF s(1,2), of w, unfolded s(3,5)]
  show ?thesis
  proof (cases "convert_msg E ?s w")
    case (Inl e)
    with conv True show ?thesis by (simp add: check_write_def)
  next
    case (Inr x)
    obtain b s1 w1 where x: "x = (b, s1, w1)" by (cases x)
    have c: "convert_msg E ?s w = Inr (b, s1, w1)" "net_ok s1" "writes_only ?s s1" "quiet w w1" "pb_len (nw_wbuf s1) = 0"
      "b \<longrightarrow> take (unat (pb_size (nw_wbuf s1))) (pb_packet (nw_wbuf s1)) = fresh E s w"
      "\<not> b \<longrightarrow> fresh E s w = [] \<and> nw_queue s1 = nw_queue s \<and> nw_wbuf s1 = nw_wbuf s"
      using returnsE_D [OF conv Inr] Inr x by simp_all
    show ?thesis
    proof (cases b)
      case True
      with c \<open>pb_len (nw_wbuf s) = 0\<close> show ?thesis
        by (simp add: check_write_def) (simp add: net_ok_def writes_only_def)
    next
      case False
      then have "\<not> nw_want_write s1" using c(1)
        by (auto simp: convert_msg_def Let_def split: option.splits work_state.splits prod.splits)
      with False c \<open>pb_len (nw_wbuf s) = 0\<close> show ?thesis
        by (simp add: check_write_def) (simp add: writes_only_def)
    qed
  qed
qed

text \<open>Handing the packet to TLS.\<close>

lemma write_data_spec:
  assumes ok: "net_ok s" and len: "pb_len (nw_wbuf s) = 0"
  shows "keepsE True (\<lambda>(s1, w1). net_ok s1 \<and> writes_only s s1 \<and> nw_queue s1 = nw_queue s \<and> nw_tm s1 = nw_tm s \<and>
      arriving w1 = arriving w \<and>
      (\<exists>k. taken w1 = taken w @ take k (take (unat (pb_size (nw_wbuf s))) (pb_packet (nw_wbuf s)))) \<and>
      ((\<forall>h bs v. fst (c_SSL_write E h bs v) = int (length bs)) \<longrightarrow> pb_len (nw_wbuf s1) = 0 \<and>
         taken w1 = taken w @ take (unat (pb_size (nw_wbuf s))) (pb_packet (nw_wbuf s))))
    (Network_write_data E s w)"
proof (cases "pb_size (nw_wbuf s) = 0")
  case True
  then show ?thesis using ok len by (auto simp: Network_write_data_def writes_only_def)
next
  case False
  let ?b = "nw_wbuf s"
  have wb: "outgoing (pb_packet ?b)" "pb_size ?b = hdr_size (pb_packet ?b) + 8" "wbuf_ok ?b"
    using ok False by (auto simp: net_ok_def wbuf_ok_def)
  note sz = outgoing_size [OF wb(1)]
  let ?bs = "take (unat (pb_size ?b)) (pb_packet ?b)"
  have lbs: "length ?bs = unat (pb_size ?b)" "unat (pb_size ?b) \<le> 1440" using sz wb(2) by simp_all
  obtain k w1 where k: "c_SSL_write E (nw_ssl s) ?bs w = (k, w1)" by force
  from SSL_write_taken [OF k] have t: "k \<le> int (unat (pb_size ?b))" "taken w1 = taken w @ take (nat k) ?bs" "arriving w1 = arriving w"
    using lbs by simp_all
  have run: "Network_write_data E s w = (if 0 < k
      then Inr (s\<lparr>nw_wbuf := if pb_len ?b + of_int k = pb_size ?b then reset_buf (?b\<lparr>pb_len := pb_len ?b + of_int k\<rparr>)
                             else ?b\<lparr>pb_len := pb_len ?b + of_int k\<rparr>\<rparr>, w1)
      else Inl Assert_Failed)"
    using False len lbs(2) k by (simp add: Network_write_data_def Let_def)
  show ?thesis
  proof (cases "0 < k")
    case False
    then show ?thesis by (simp add: run)
  next
    case True
    then obtain j where j: "k = int j" "0 < j" using zero_less_imp_eq_int by blast
    have le: "j \<le> unat (pb_size ?b)" using t(1) unfolding j(1) of_nat_le_iff .
    then have u: "unat (of_nat j :: u32) = j" using lbs(2) by (simp add: unat_of_nat)
    have eq: "of_nat j = pb_size ?b \<longleftrightarrow> j = unat (pb_size ?b)" using u by (metis word_unat_eq_iff)
    define b1 where "b1 = ?b\<lparr>pb_len := of_nat j\<rparr>"
    have wj: "wbuf_ok b1" if "j \<noteq> unat (pb_size ?b)"
      using wb sz(1) that le u by (simp add: b1_def wbuf_ok_def)
    have wr: "wbuf_ok (reset_buf b1)" "pb_len (reset_buf b1) = 0"
      using sz(1) by (simp_all add: b1_def wbuf_ok_def reset_buf_def)
    define s1 where "s1 = s\<lparr>nw_wbuf := if j = unat (pb_size ?b) then reset_buf b1 else b1\<rparr>"
    have run1: "Network_write_data E s w = Inr (s1, w1)" using True j len eq by (simp add: run s1_def b1_def)
    have "net_ok s1" "writes_only s s1" "nw_queue s1 = nw_queue s" "nw_tm s1 = nw_tm s"
      using ok wj wr by (simp_all add: s1_def net_ok_def writes_only_def)
    moreover have "pb_len (nw_wbuf s1) = 0 \<and> taken w1 = taken w @ ?bs"
      if "\<forall>h bs v. fst (c_SSL_write E h bs v) = int (length bs)"
    proof -
      have "k = int (length ?bs)" using that k by (metis fst_conv)
      then have "j = length ?bs" using j(1) by (simp only: of_nat_eq_iff)
      with t(2) j(1) lbs wr(2) show ?thesis by (simp add: s1_def)
    qed
    moreover have "taken w1 = taken w @ take j ?bs" using t(2) j(1) by simp
    ultimately show ?thesis unfolding run1 using t(3) by auto
  qed
qed

text \<open>One turn of \<^verbatim>\<open>handle\<close>: it may only leave the defined behaviour when it net_reads.\<close>

lemma reads_only_net_ok:
  assumes "net_ok s" "reads_only s s1" "rbuf_ok (nw_rbuf s1)" "\<not> rbuf_complete (nw_rbuf s1)"
  shows "net_ok s1"
  using assms by (simp add: net_ok_def reads_only_def)

lemma read_part:
  assumes "net_ok s" "(if b then Network_read_data E n s w else Inr (s, w)) = Inr (s1, w1)"
  shows "net_ok s1" "reads_only s s1" "taken w1 = taken w"
proof -
  have ok: "tm_ok (nw_tm s)" "rbuf_ok (nw_rbuf s)" "\<not> rbuf_complete (nw_rbuf s)" using assms(1) by (simp_all add: net_ok_def)
  have "net_ok s1 \<and> reads_only s s1 \<and> taken w1 = taken w"
  proof (cases b)
    case True
    with assms(2) have "Network_read_data E n s w = Inr (s1, w1)" by simp
    from read_data_reading [OF ok this] obtain fs cs where "net_reading (s, w) fs cs (s1, w1)" by blast
    then show ?thesis using reads_only_net_ok [OF assms(1)] by (simp add: net_reading_def)
  next
    case False
    with assms reads_only_refl [OF ok(1)] show ?thesis by simp
  qed
  then show "net_ok s1" "reads_only s s1" "taken w1 = taken w" by simp_all
qed

definition turn_result :: "network \<Rightarrow> 'w \<Rightarrow> network \<Rightarrow> 'w \<Rightarrow> bool" where
  "turn_result s w s1 w1 \<longleftrightarrow> net_ok s1 \<and> (\<exists>k. taken w1 = taken w @ take k (fresh E s w)) \<and>
     (pb_len (nw_wbuf s) \<noteq> 0 \<longrightarrow> nw_wbuf s1 = nw_wbuf s \<and> nw_queue s1 = nw_queue s \<and>
        cmd_queue (nw_tm s1) = cmd_queue (nw_tm s))"

lemma handle_turn_spec:
  assumes ok: "net_ok s"
  shows "keepsE False (\<lambda>(go, s1, w1). turn_result s w s1 w1) (handle_turn E n s w)"
proof (cases "check_write E s w")
  case (Inl e)
  then show ?thesis by (simp add: handle_turn_def)
next
  case (Inr x)
  obtain s1 w1 where x: "x = (s1, w1)" by (cases x)
  have c: "check_write E s w = Inr (s1, w1)" "net_ok s1" "writes_only s s1" "quiet w w1"
    "pb_len (nw_wbuf s1) = pb_len (nw_wbuf s)"
    "nw_want_write s1 \<longrightarrow> pb_len (nw_wbuf s) = 0 \<and> take (unat (pb_size (nw_wbuf s1))) (pb_packet (nw_wbuf s1)) = fresh E s w"
    "\<not> nw_want_write s1 \<longrightarrow> fresh E s w = [] \<and> nw_queue s1 = nw_queue s \<and> nw_wbuf s1 = nw_wbuf s"
    using returnsE_D [OF check_write_spec [OF ok] Inr] Inr x by simp_all
  have stuck: "nw_wbuf s1 = nw_wbuf s \<and> nw_queue s1 = nw_queue s \<and> nw_tm s1 = nw_tm s" if "pb_len (nw_wbuf s) \<noteq> 0"
    using c(1) that by (auto simp: check_write_def)
  obtain r w2 where r: "c_poll E (nw_sock s1) (nw_want_write s1) w1 = (r, w2)" by force
  note pl = poll_asked [OF r]
  have tk: "taken w2 = taken w" using pl c(4) by (simp add: quiet_def)
  show ?thesis
  proof (cases "pr_ready r < 0 \<or> pr_error r")
    case True
    have "net_ok (s1\<lparr>nw_state := NET_ERROR\<rparr>)" using c(2) by (simp add: net_ok_def)
    then show ?thesis using True c(1) r tk stuck
      by (auto simp: handle_turn_def turn_result_def intro!: exI [of _ 0])
  next
    case False
    have "turn_result s w s3 w4" if rd: "(if pr_read r then Network_read_data E n s1 w2 else Inr (s1, w2)) = Inr (s2, w3)"
      and wr: "(if pr_write r then Network_write_data E s2 w3 else Inr (s2, w3)) = Inr (s3, w4)" for s2 w3 s3 w4
    proof -
      note rp = read_part [OF c(2) rd]
      have ro: "nw_wbuf s2 = nw_wbuf s1" "nw_queue s2 = nw_queue s1" "cmd_queue (nw_tm s2) = cmd_queue (nw_tm s1)"
        using rp(2) by (simp_all add: reads_only_def)
      show ?thesis
      proof (cases "pr_write r")
        case False
        then show ?thesis using wr rp ro tk stuck by (auto simp: turn_result_def intro!: exI [of _ 0])
      next
        case True
        then have want: "nw_want_write s1" using pl by simp
        then have l0: "pb_len (nw_wbuf s2) = 0" "pb_len (nw_wbuf s) = 0" using c(5,6) ro by simp_all
        have wd: "Network_write_data E s2 w3 = Inr (s3, w4)" using wr True by simp
        from keepsE_D [OF write_data_spec [OF rp(1) l0(1)] wd] obtain k where
          "net_ok s3" "taken w4 = taken w3 @ take k (take (unat (pb_size (nw_wbuf s2))) (pb_packet (nw_wbuf s2)))" by auto
        then show ?thesis using want c(6) ro(1) rp(3) tk l0(2) by (auto simp: turn_result_def)
      qed
    qed
    then show ?thesis using False c(1) r by (auto simp: handle_turn_def keepsE_def)
  qed
qed

text \<open>Where a turn can leave the defined behaviour: in a path that is not terminated, or in what the server sent.\<close>

lemma handle_turn_undefined:
  assumes ok: "net_ok s" and small: "small_files E" and run: "handle_turn E n s w = Inl Undefined"
  shows "\<not> paths_terminated (nw_tm s) \<or>
    (\<exists>s1 w1 w2. check_write E s w = Inr (s1, w1) \<and> Network_read_data E n s1 w2 = Inl Undefined)"
proof (rule disjCI)
  assume no: "\<not> (\<exists>s1 w1 w2. check_write E s w = Inr (s1, w1) \<and> Network_read_data E n s1 w2 = Inl Undefined)"
  show "\<not> paths_terminated (nw_tm s)"
  proof (cases "check_write E s w")
    case (Inl e)
    with check_write_spec [OF ok, of w] small show ?thesis by (simp add: can_work_def)
  next
    case (Inr x)
    obtain s1 w1 where x: "x = (s1, w1)" by (cases x)
    have c: "net_ok s1" "nw_want_write s1 \<longrightarrow> pb_len (nw_wbuf s1) = 0"
      using returnsE_D [OF check_write_spec [OF ok] Inr] x by auto
    obtain r w2 where r: "c_poll E (nw_sock s1) (nw_want_write s1) w1 = (r, w2)" by force
    have "keepsE True (\<lambda>_. True) (if pr_write r then Network_write_data E s2 w3 else Inr (s2, w3))"
      if rd: "(if pr_read r then Network_read_data E n s1 w2 else Inr (s1, w2)) = Inr (s2, w3)" for s2 w3
    proof (cases "pr_write r")
      case True
      then have "pb_len (nw_wbuf s1) = 0" using poll_asked [OF r] c(2) by simp
      moreover note rp = read_part [OF c(1) rd]
      ultimately have "net_ok s2" "pb_len (nw_wbuf s2) = 0" by (simp_all add: reads_only_def)
      from keepsE_mono [OF write_data_spec [OF this]] True show ?thesis by simp
    qed simp
    moreover have "(if pr_read r then Network_read_data E n s1 w2 else Inr (s1, w2)) \<noteq> Inl Undefined"
      using no Inr x by auto
    ultimately have False using run Inr x r
      by (cases "if pr_read r then Network_read_data E n s1 w2 else Inr (s1, w2)")
        (auto simp: handle_turn_def bindE_def keepsE_def split: if_splits sum.splits)
    then show ?thesis ..
  qed
qed

text \<open>A turn in which poll is ready to write and TLS takes all it is given.\<close>

lemma handle_turn_full:
  assumes ok: "net_ok s" and run: "handle_turn E n s w = Inr (go, s1, w1)"
    and ready: "\<forall>fd v. let r = fst (c_poll E fd True v) in 0 \<le> pr_ready r \<and> \<not> pr_error r \<and> pr_write r"
    and full: "\<forall>h bs v. fst (c_SSL_write E h bs v) = int (length bs)"
  shows "taken w1 = taken w @ fresh E s w \<and> (pb_len (nw_wbuf s) = 0 \<longrightarrow> pb_len (nw_wbuf s1) = 0)"
proof -
  obtain s2 w2 where c0: "check_write E s w = Inr (s2, w2)"
    using run by (cases "check_write E s w") (auto simp: handle_turn_def)
  from returnsE_D [OF check_write_spec [OF ok] c0] have c:
    "check_write E s w = Inr (s2, w2)" "net_ok s2" "quiet w w2" "pb_len (nw_wbuf s2) = pb_len (nw_wbuf s)"
    "nw_want_write s2 \<longrightarrow> pb_len (nw_wbuf s) = 0 \<and> take (unat (pb_size (nw_wbuf s2))) (pb_packet (nw_wbuf s2)) = fresh E s w"
    "\<not> nw_want_write s2 \<longrightarrow> fresh E s w = [] \<and> nw_wbuf s2 = nw_wbuf s" using c0 by simp_all
  obtain r w3 where r: "c_poll E (nw_sock s2) (nw_want_write s2) w2 = (r, w3)" by force
  note pl = poll_asked [OF r]
  have rest: "s1 = s2\<lparr>nw_state := NET_ERROR\<rparr> \<and> w1 = w3 \<and> \<not> nw_want_write s2 \<or> (\<exists>s4 w4.
      (if pr_read r then Network_read_data E n s2 w3 else Inr (s2, w3)) = Inr (s4, w4) \<and>
      (if pr_write r then Network_write_data E s4 w4 else Inr (s4, w4)) = Inr (s1, w1))"
    using run c(1) r ready by (cases "nw_want_write s2") (auto simp: handle_turn_def Let_def split: if_splits dest!: spec [of _ "nw_sock s2"] spec [of _ w2])
  show ?thesis
  proof (cases "nw_want_write s2")
    case False
    from rest show ?thesis
    proof (elim disjE exE conjE)
      assume "s1 = s2\<lparr>nw_state := NET_ERROR\<rparr>" "w1 = w3"
      then show ?thesis using False c pl by (simp add: quiet_def)
    next
      fix s4 w4 assume rd: "(if pr_read r then Network_read_data E n s2 w3 else Inr (s2, w3)) = Inr (s4, w4)"
        and wr: "(if pr_write r then Network_write_data E s4 w4 else Inr (s4, w4)) = Inr (s1, w1)"
      note rp = read_part [OF c(2) rd]
      have "s1 = s4" "w1 = w4" using wr pl False by simp_all
      then show ?thesis using rp False c pl by (simp add: quiet_def reads_only_def)
    qed
  next
    case True
    have "pr_write r" using ready r True by (metis fst_conv)
    with True rest obtain s4 w4 where rd: "(if pr_read r then Network_read_data E n s2 w3 else Inr (s2, w3)) = Inr (s4, w4)"
      and wr: "Network_write_data E s4 w4 = Inr (s1, w1)" by auto
    note rp = read_part [OF c(2) rd]
    have b: "nw_wbuf s4 = nw_wbuf s2" "pb_len (nw_wbuf s4) = 0" using rp(2) c(4,5) True by (simp_all add: reads_only_def)
    let ?b = "nw_wbuf s2"
    from keepsE_D [OF write_data_spec [OF rp(1) b(2)] wr] full b(1) have
      "taken w1 = taken w4 @ take (unat (pb_size ?b)) (pb_packet ?b)" "pb_len (nw_wbuf s1) = 0" by simp_all
    then show ?thesis using True c(3,5) rp(3) pl by (simp add: quiet_def)
  qed
qed

text \<open>The loop of \<^verbatim>\<open>handle\<close>.\<close>

lemma handle_loop_ok:
  "net_ok s \<Longrightarrow> keepsE False (\<lambda>(s1, w1). net_ok s1) (handle_loop E n k s w)"
proof (induction k arbitrary: s w)
  case 0
  then show ?case by (subst handle_loop.simps) simp
next
  case (Suc j)
  show ?case
  proof (cases "c_active E w \<and> (\<exists>x. handle_turn E n s w = Inr x)")
    case False
    then show ?thesis using Suc.prems by (subst handle_loop.simps) (auto simp: bindE_def split: sum.splits)
  next
    case True
    then obtain go s1 w1 where t: "handle_turn E n s w = Inr (go, s1, w1)" by auto
    then have "net_ok s1" using keepsE_D [OF handle_turn_spec [OF Suc.prems] t] by (simp add: turn_result_def)
    then show ?thesis using True t Suc.IH [of s1 w1] by (subst handle_loop.simps) simp
  qed
qed

lemma handle_loop_stuck:
  "net_ok s \<Longrightarrow> pb_len (nw_wbuf s) \<noteq> 0 \<Longrightarrow> handle_loop E n k s w = Inr (s1, w1) \<Longrightarrow>
   nw_wbuf s1 = nw_wbuf s \<and> nw_queue s1 = nw_queue s \<and> cmd_queue (nw_tm s1) = cmd_queue (nw_tm s) \<and> taken w1 = taken w"
proof (induction k arbitrary: s w)
  case 0
  then show ?case by (subst (asm) handle_loop.simps) (auto split: if_splits)
next
  case (Suc j)
  show ?case
  proof (cases "c_active E w")
    case False
    then show ?thesis using Suc.prems(3) by (subst (asm) handle_loop.simps) simp
  next
    case True
    then obtain go s2 w2 where t: "handle_turn E n s w = Inr (go, s2, w2)"
      "(if go then handle_loop E n j s2 w2 else Inr (s2, w2)) = Inr (s1, w1)"
      using Suc.prems(3) by (subst (asm) handle_loop.simps) auto
    have "turn_result s w s2 w2" using keepsE_D [OF handle_turn_spec [OF Suc.prems(1)] t(1)] by simp
    then have "net_ok s2" "nw_wbuf s2 = nw_wbuf s" "nw_queue s2 = nw_queue s" "cmd_queue (nw_tm s2) = cmd_queue (nw_tm s)"
      "taken w2 = taken w" using Suc.prems(2) by (auto simp: turn_result_def fresh_def)
    then show ?thesis using t(2) Suc.IH [of s2 w2] Suc.prems(2) by (cases go) auto
  qed
qed

end

section \<open>Runs\<close>

text \<open>The turns of the network thread and the calls of the user interface, in any order.\<close>

inductive ui_step :: "network \<Rightarrow> network \<Rightarrow> bool" where
  command: "cmd_ok c \<Longrightarrow> push c (cmd_queue (nw_tm s)) = (b, q) \<Longrightarrow>
    ui_step s (s\<lparr>nw_tm := (nw_tm s)\<lparr>cmd_queue := q\<rparr>\<rparr>)"
| new_session: "length (s_name raw) = PC_NAME_MAX_LEN \<Longrightarrow> length (s_id raw) = SESSION_ID_MAX_LEN \<Longrightarrow>
    session raw name sid opt s = Inr s1 \<Longrightarrow> ui_step s s1"
| show_users: "copy_users b vec (nw_users s) = (vec1, ul) \<Longrightarrow> ui_step s (s\<lparr>nw_users := ul\<rparr>)"
| show_backlog: "copy_backlog b vec (nw_tm s) = (vec1, tm) \<Longrightarrow> ui_step s (s\<lparr>nw_tm := tm\<rparr>)"

inductive net_step :: "'w cenv \<Rightarrow> nat \<Rightarrow> network \<times> 'w \<Rightarrow> network \<times> 'w \<Rightarrow> bool" for E :: "'w cenv" and n :: nat where
  turn: "handle_turn E n s w = Inr (go, s1, w1) \<Longrightarrow> net_step E n (s, w) (s1, w1)"
| call: "ui_step s s1 \<Longrightarrow> net_step E n (s, w) (s1, w)"

lemma ui_steps_run: "ui_step\<^sup>*\<^sup>* s s1 \<Longrightarrow> (net_step E n)\<^sup>*\<^sup>* (s, w) (s1, w)"
  by (induction rule: rtranclp_induct) (auto intro: rtranclp.rtrancl_into_rtrancl net_step.call)

lemma push_ok:
  assumes "lf_ok k q" "push x q = (b, q1)"
  shows "lf_ok k q1" "set (lf_items q1) \<subseteq> insert x (set (lf_items q))"
proof -
  have "lf_ok k q1 \<and> set (lf_items q1) \<subseteq> insert x (set (lf_items q))"
  proof (cases "length (lf_items q) < 2 ^ k")
    case True
    with lf.push_room [OF assms(1), of x] assms(2) show ?thesis by auto
  next
    case False
    with lf.bounded [OF assms(1)] have "length (lf_items q) = 2 ^ k" by simp
    with lf.push_full [OF assms(1) this, of x] assms show ?thesis by auto
  qed
  then show "lf_ok k q1" "set (lf_items q1) \<subseteq> insert x (set (lf_items q))" by simp_all
qed

lemma Session_new_ok:
  assumes "Session_new raw name sid opt = Inr m" "length (s_name raw) = PC_NAME_MAX_LEN" "length (s_id raw) = SESSION_ID_MAX_LEN"
  shows "length (s_name m) = PC_NAME_MAX_LEN \<and> length (s_id m) = SESSION_ID_MAX_LEN"
  using assms by (auto simp: Session_new_def safe_strcpy_def length_put_bytes split: if_splits)

text \<open>What holds from the constructors on, before \<^verbatim>\<open>init\<close> has made the buffers.\<close>

definition net_idle :: "network \<Rightarrow> bool" where
  "net_idle s \<longleftrightarrow> tm_ok (nw_tm s) \<and> sessions_ok (nw_queue s)"

lemma net_ok_idle: "net_ok s \<longleftrightarrow>
    net_idle s \<and> rbuf_ok (nw_rbuf s) \<and> \<not> rbuf_complete (nw_rbuf s) \<and> wbuf_ok (nw_wbuf s)"
  by (auto simp: net_ok_def net_idle_def)

text \<open>The network thread is started when the state leaves \<^verbatim>\<open>UNINITIALIZED\<close>, and only then.\<close>

definition one_thread :: "network \<Rightarrow> bool" where
  "one_thread s \<longleftrightarrow> th_num (nw_threads s) = (if nw_state s = UNINITIALIZED then 0 else 1)"

lemma session_ok:
  assumes "net_idle s" "session raw name sid opt s = Inr s1"
    and "length (s_name raw) = PC_NAME_MAX_LEN" "length (s_id raw) = SESSION_ID_MAX_LEN"
  shows "net_idle s1 \<and> nw_rbuf s1 = nw_rbuf s \<and> nw_wbuf s1 = nw_wbuf s \<and> (one_thread s \<longrightarrow> one_thread s1)"
proof -
  have st: "net_idle s2 \<and> nw_rbuf s2 = nw_rbuf s \<and> nw_wbuf s2 = nw_wbuf s \<and>
      (one_thread s \<longrightarrow> th_num (nw_threads s2) = 1) \<and> nw_state s2 \<noteq> UNINITIALIZED"
    if "(if nw_state s = UNINITIALIZED then start_network s else Inr s) = Inr s2" for s2
    using assms(1) that
    by (auto simp: start_network_def new_thread_def net_idle_def one_thread_def Let_def split: if_splits prod.splits)
  from assms(2) obtain s2 where s2: "(if nw_state s = UNINITIALIZED then start_network s else Inr s) = Inr s2"
    "(if \<not> (nw_state s = UNINITIALIZED \<or> nw_state s = SESSION_ERROR) then Inr s2
      else bindE (Session_new raw name sid opt) (\<lambda>m. let (ok, q) = push m (nw_queue s2) in
             bindE (assertE ok) (\<lambda>_. Inr (s2\<lparr>nw_queue := q, nw_state := CONNECTED\<rparr>)))) = Inr s1"
    unfolding session_def Let_def by (elim bindE_Inr_elim)
  note s2_ok = st [OF s2(1)]
  show ?thesis
  proof (cases "nw_state s = UNINITIALIZED \<or> nw_state s = SESSION_ERROR")
    case False
    with s2(2) s2_ok show ?thesis by (simp add: one_thread_def)
  next
    case True
    then obtain m where m: "Session_new raw name sid opt = Inr m"
      "(let (ok, q) = push m (nw_queue s2) in
         bindE (assertE ok) (\<lambda>_. Inr (s2\<lparr>nw_queue := q, nw_state := CONNECTED\<rparr>))) = Inr s1"
      using s2(2) by auto
    obtain b q where q: "push m (nw_queue s2) = (b, q)" by force
    then have s1: "s1 = s2\<lparr>nw_queue := q, nw_state := CONNECTED\<rparr>" using m(2) by (cases b) auto
    have "sessions_ok (nw_queue s2)" using s2_ok by (simp add: net_idle_def)
    then have "sessions_ok q"
      using push_ok [of 3 "nw_queue s2" m b q] Session_new_ok [OF m(1) assms(3,4)] q by (auto simp: sessions_ok_def)
    then show ?thesis using s2_ok by (simp add: s1 net_idle_def one_thread_def)
  qed
qed

lemma ui_step_ok: "ui_step s s1 \<Longrightarrow> net_idle s \<Longrightarrow>
    net_idle s1 \<and> nw_rbuf s1 = nw_rbuf s \<and> nw_wbuf s1 = nw_wbuf s \<and> (one_thread s \<longrightarrow> one_thread s1)"
proof (induction rule: ui_step.induct)
  case (command c s b q)
  then have q: "lf_ok 3 (cmd_queue (nw_tm s))" "\<forall>c \<in> set (lf_items (cmd_queue (nw_tm s))). cmd_ok c"
    "tm_ok (nw_tm s)" by (simp_all add: net_idle_def tm_ok_def cmds_ok_def)
  note p = push_ok [OF q(1) command(2)]
  have "tm_ok ((nw_tm s)\<lparr>cmd_queue := q\<rparr>)"
    using moves_ok [OF moves_queue [OF moves_refl [OF q(3)] p(1)]] p(2) q(2) command(1) by blast
  then show ?case using command p(2) q(2) by (auto simp: net_idle_def one_thread_def)
next
  case (new_session raw name sid opt s s1)
  then show ?case using session_ok by simp
next
  case (show_users b vec s vec1 ul)
  then show ?case by (simp add: net_idle_def one_thread_def)
next
  case (show_backlog b vec s vec1 tm)
  then have "tm = nw_tm s \<or> tm = (nw_tm s)\<lparr>dirty := False\<rparr>" by (auto simp: copy_backlog_def split: if_splits)
  moreover have "tm_ok ((nw_tm s)\<lparr>dirty := False\<rparr>)" if "tm_ok (nw_tm s)"
  proof -
    have "transfers sd ((nw_tm s)\<lparr>dirty := False\<rparr>) = transfers sd (nw_tm s)" for sd by (cases sd) simp_all
    then show ?thesis using that by (simp add: tm_ok_def cmds_ok_def)
  qed
  ultimately show ?case using show_backlog by (auto simp: net_idle_def one_thread_def)
qed

lemma net_step_ok:
  assumes "tls_client E arriving taken"
  shows "net_step E n a b \<Longrightarrow> net_ok (fst a) \<Longrightarrow> net_ok (fst b)"
proof (induction rule: net_step.induct)
  case (turn s w go s1 w1)
  then show ?case
    using keepsE_D [OF tls_client.handle_turn_spec [OF assms] turn(1)] by (simp add: tls_client.turn_result_def [OF assms])
next
  case (call s s1 w)
  then show ?case using ui_step_ok by (auto simp: net_ok_idle)
qed

lemma net_run_ok:
  assumes "tls_client E arriving taken"
  shows "(net_step E n)\<^sup>*\<^sup>* a b \<Longrightarrow> net_ok (fst a) \<Longrightarrow> net_ok (fst b)"
  by (induction rule: rtranclp_induct) (auto dest: net_step_ok [OF assms])

lemma ui_run_ok: "ui_step\<^sup>*\<^sup>* s s1 \<Longrightarrow> net_idle s \<Longrightarrow>
    net_idle s1 \<and> nw_rbuf s1 = nw_rbuf s \<and> nw_wbuf s1 = nw_wbuf s \<and> (one_thread s \<longrightarrow> one_thread s1)"
  by (induction rule: rtranclp_induct) (auto dest: ui_step_ok)

lemma init_ok:
  assumes "init E mem s w = (True, s1, w1)" "\<forall>a n. length (mem a n) = n"
    and "tm_ok (nw_tm s)" "sessions_ok (nw_queue s)"
  shows "net_ok s1"
  using assms by (auto simp: init_def create_socket_def Let_def net_ok_def rbuf_ok_def rbuf_complete wbuf_ok_def
      split: prod.splits if_splits)

end
