(* ===== verification/Client_Properties.thy ===== *)
theory Client_Properties
  imports Client_Writing
begin

text \<open>
  What the network thread of the client promises, and where it loses packets, stops or aborts.
\<close>

section \<open>Examples\<close>

definition no_session :: session_msg where
  "no_session = \<lparr>s_name = replicate 16 0, s_id = replicate 16 0, s_opt = False\<rparr>"

definition example_sessions :: "session_msg lf_queue" where
  "example_sessions = fst (projr (LockFreeQueue 48 (\<lambda>_. no_session) SERVER_MSG_QUEUE_SIZE client_pool))"

definition example_net :: network where
  "example_net = \<lparr>nw_sock = 3, nw_want_write = False, nw_state = CONNECTED, nw_queue = example_sessions,
     nw_rbuf = \<lparr>pb_packet = zero_packet, pb_len = 0, pb_size = 0\<rparr>,
     nw_wbuf = \<lparr>pb_packet = zero_packet, pb_len = 0, pb_size = 0\<rparr>, nw_ssl_ctx = 1, nw_ssl = 2, nw_pool = client_pool,
     nw_threads = \<lparr>th_active = replicate 8 False, th_num = 0\<rparr>, nw_tm = example_tm, nw_users = User_List_new\<rparr>"

definition client_pool_2 :: memory_pool where
  "client_pool_2 = snd (alloc 384 client_pool)"

lemma example_sessions:
  "LockFreeQueue 48 (\<lambda>_. no_session) SERVER_MSG_QUEUE_SIZE client_pool = Inr (example_sessions, client_pool_2)"
  "sessions_ok example_sessions" "lf_items example_sessions = []"
proof -
  show q: "LockFreeQueue 48 (\<lambda>_. no_session) SERVER_MSG_QUEUE_SIZE client_pool = Inr (example_sessions, client_pool_2)"
    by (simp add: example_sessions_def client_pool_2_def LockFreeQueue_def capacity_mask_6 client_pool_def alloc_def pad8.simps Let_def)
  from lf_ok_start [OF q] show "sessions_ok example_sessions" "lf_items example_sessions = []"
    by (simp_all add: sessions_ok_def)
qed

lemma example_net: "net_ok example_net"
  using example_sessions example_tm
  by (simp add: net_ok_def example_net_def rbuf_ok_def rbuf_complete wbuf_ok_def)

text \<open>The machine of \<open>disk_env\<close> whose socket is not ready to write and then fails.\<close>

definition unready_env :: "disk cenv" where
  "unready_env = disk_env\<lparr>c_poll := (\<lambda>_ _ w. (\<lparr>pr_ready = if d_time w < 5 then 0 else - 1, pr_read = False,
     pr_write = False, pr_error = False\<rparr>, w\<lparr>d_time := d_time w + 3\<rparr>))\<rparr>"

lemma unready_tls: "tls_client unready_env d_arriving d_taken" "small_files unready_env"
proof -
  show "tls_client unready_env d_arriving d_taken"
    by unfold_locales (auto simp: unready_env_def disk_env_def split: if_splits)
  show "small_files unready_env" using disk_env_io(3) by (simp add: unready_env_def small_files_def)
qed

lemma do_work_idle:
  assumes "tm_ok tm" "\<forall>i < 6. state_of HOST i tm = AT_EMPTY \<and> state_of RECV i tm = AT_EMPTY" "lf_items (cmd_queue tm) = []"
  shows "do_work E n tm p w = Inr (NO_WORK, tm, p, w)"
proof -
  have len: "length (host_transfers tm) = 6" "length (recv_transfers tm) = 6"
    using tm_ok_length [OF assms(1), of HOST] tm_ok_length [OF assms(1), of RECV] by simp_all
  have "lf_ok 3 (cmd_queue tm)" using assms(1) by (simp add: tm_ok_def cmds_ok_def)
  then have "peek (cmd_queue tm) = None" using lf.peek_waiting assms(3) by fastforce
  then have 1: "process_cmds E n tm w = Inr (tm, w)" by (simp add: process_cmds.simps)
  have h: "find_ix P (host_transfers tm) = None" if "\<And>t. P t \<Longrightarrow> at_state t \<noteq> AT_EMPTY" for P
    using that assms(2) len by (fastforce simp: find_ix_None in_set_conv_nth state_of_def)
  have r: "find_ix P (recv_transfers tm) = None" if "\<And>t. P t \<Longrightarrow> at_state t \<noteq> AT_EMPTY" for P
    using that assms(2) len by (fastforce simp: find_ix_None in_set_conv_nth state_of_def)
  have "host_transfer_work E tm p w = Inr (NO_WORK, tm, p, w)" unfolding host_transfer_work_def by (subst h) auto
  moreover have "recv_transfer_work tm p = (NO_WORK, tm, p)" unfolding recv_transfer_work_def by (subst r) auto
  ultimately show ?thesis using 1 by (simp add: do_work_def)
qed

lemma example_idle: "do_work E n example_tm p w = Inr (NO_WORK, example_tm, p, w)"
  using example_tm by (intro do_work_idle) simp_all

section \<open>Properties\<close>

text \<open>
  On a well-formed network writing the next packet stays within the buffer, and the packet can be made
  when all paths that wait are terminated.
\<close>

lemma next_write:
  assumes "tls_client E arriving taken" "net_ok s"
  shows "check_write E s w = Inr (s1, w1) \<Longrightarrow> nw_want_write s1 \<Longrightarrow> Network_write_data E s1 w1 \<noteq> Inl Undefined"
    "small_files E \<Longrightarrow> paths_terminated (nw_tm s) \<Longrightarrow> \<exists>x. check_write E s w = Inr x"
proof -
  note spec = tls_client.check_write_spec [OF assms, of w]
  show "Network_write_data E s1 w1 \<noteq> Inl Undefined" if "check_write E s w = Inr (s1, w1)" "nw_want_write s1"
  proof -
    from returnsE_D [OF spec that(1)] that(2) have "net_ok s1" "pb_len (nw_wbuf s1) = 0" by simp_all
    then show ?thesis by (rule keepsE_defined [OF tls_client.write_data_spec [OF assms(1)]])
  qed
  show "\<exists>x. check_write E s w = Inr x" if "small_files E" "paths_terminated (nw_tm s)"
    using returnsE_ex [OF spec] that by (auto simp: tls_client.can_work_def [OF assms(1)])
qed

text \<open>
  C9: from the moment \<^verbatim>\<open>init\<close> has succeeded, in every interleaving of the turns of one network thread
  that return with the calls of the user interface, the transfers are well formed, the read buffer
  holds less than a packet within its 1440 bytes, the write buffer is empty or holds a packet of a kind
  the client sends with the rest of its bytes still to go, and writing the next packet stays within the
  defined behaviour. When every path that waits in a command is terminated the next packet can be made.
  A turn that leaves the defined behaviour either runs a command whose path is not terminated, which
  \<^verbatim>\<open>send_cmd\<close> leaves of a path of 128 bytes or more, or reads what the server sent: \<^verbatim>\<open>read_data\<close> does not
  check the sizes it is told. File positions are assumed to be - 1 or below \<open>2\<^sup>63 / 100\<close> for the last two.
\<close>

theorem client_runs_invariant:
  assumes "tls_client E arriving taken" "Transfer_Manager_new mem sz raw_cmd raw pool = Inr (nw_tm s0, pool1)"
    and "Network_new node_size raw_s s = Inr s0" "\<forall>a n. length (mem a n) = n" "init E mem s0 w0 = (True, s1, w1)"
    and "(net_step E n)\<^sup>*\<^sup>* (s1, w1) (s2, w2)"
  shows "tm_ok (nw_tm s2) \<and> unat (pb_len (nw_rbuf s2)) \<le> PACKET_MAX_SIZE \<and>
    frames (rbuf_held (nw_rbuf s2)) = ([], rbuf_held (nw_rbuf s2)) \<and>
    (let b = nw_wbuf s2 in pb_size b = 0 \<and> pb_len b = 0 \<or>
       outgoing (pb_packet b) \<and> unat (pb_size b) = unat (hdr_size (pb_packet b)) + 8 \<and>
       unat (pb_size b) \<le> PACKET_MAX_SIZE \<and> unat (pb_len b) < unat (pb_size b)) \<and>
    (\<forall>s3 w3. check_write E s2 w2 = Inr (s3, w3) \<and> nw_want_write s3 \<longrightarrow> Network_write_data E s3 w3 \<noteq> Inl Undefined) \<and>
    (small_files E \<longrightarrow>
       (paths_terminated (nw_tm s2) \<longrightarrow> (\<exists>s3 w3. check_write E s2 w2 = Inr (s3, w3))) \<and>
       (handle_turn E n s2 w2 = Inl Undefined \<longrightarrow> \<not> paths_terminated (nw_tm s2) \<or>
          (\<exists>s3 w3 w4. check_write E s2 w2 = Inr (s3, w3) \<and> Network_read_data E n s3 w4 = Inl Undefined)))"
proof -
  have tm: "tm_ok (nw_tm s0)" using Transfer_Manager_new_ok [OF assms(2,4)] by simp
  obtain pool2 where "LockFreeQueue node_size raw_s 6 (nw_pool s) = Inr (nw_queue s0, pool2)"
    using assms(3) by (auto simp: Network_new_def)
  from lf_ok_start [OF this] have "sessions_ok (nw_queue s0)" by (simp add: sessions_ok_def)
  with init_ok [OF assms(5,4)] tm have "net_ok s1" by simp
  with net_run_ok [OF assms(1,6)] have ok: "net_ok s2" by simp
  then have b: "rbuf_ok (nw_rbuf s2)" "\<not> rbuf_complete (nw_rbuf s2)" "wbuf_ok (nw_wbuf s2)" "tm_ok (nw_tm s2)"
    by (simp_all add: net_ok_def)
  have f: "frames (rbuf_held (nw_rbuf s2)) = ([], rbuf_held (nw_rbuf s2))"
    using frames_concat [of "[]", OF _ rbuf_rest [OF b(1,2)]] by simp
  have wb: "let b = nw_wbuf s2 in pb_size b = 0 \<and> pb_len b = 0 \<or>
       outgoing (pb_packet b) \<and> unat (pb_size b) = unat (hdr_size (pb_packet b)) + 8 \<and>
       unat (pb_size b) \<le> PACKET_MAX_SIZE \<and> unat (pb_len b) < unat (pb_size b)"
    using b(3) outgoing_size [of "pb_packet (nw_wbuf s2)"] by (auto simp: wbuf_ok_def)
  note made = next_write [OF assms(1) ok, of w2]
  have "\<exists>s3 w3. check_write E s2 w2 = Inr (s3, w3)" if "small_files E" "paths_terminated (nw_tm s2)"
    using made(2) [OF that] by auto
  with made(1) tls_client.handle_turn_undefined [OF assms(1) ok, of n w2] b f wb show ?thesis by (auto simp: rbuf_ok_def)
qed

theorem client_runs_invariant_witness:
  "\<exists>s0 s1 w1. init disk_env example_mem s0 example_disk = (True, s1, w1) \<and> tm_ok (nw_tm s1) \<and>
    (\<exists>s3 w3. check_write disk_env s1 w1 = Inr (s3, w3))"
proof -
  obtain pool where t: "Transfer_Manager_new example_mem 200 (\<lambda>_. Cmd_Cancel 0) (\<lambda>_. raw_transfer) client_pool = Inr (example_tm, pool)"
    using example_tm(1) by blast
  define s0 where "s0 = example_net\<lparr>nw_sock := 0, nw_queue := example_sessions, nw_ssl_ctx := 0, nw_ssl := 0,
    nw_state := UNINITIALIZED, nw_pool := client_pool_2\<rparr>"
  have n: "Network_new 48 (\<lambda>_. no_session) example_net = Inr s0"
    using example_sessions(1) by (simp add: Network_new_def example_net_def s0_def)
  have "\<exists>s1 w1. init disk_env example_mem s0 example_disk = (True, s1, w1)"
    by (simp add: init_def create_socket_def disk_env_def s0_def client_pool_2_def client_pool_def alloc_def pad8.simps Let_def)
  then obtain s1 w1 where i: "init disk_env example_mem s0 example_disk = (True, s1, w1)" by blast
  have t0: "Transfer_Manager_new example_mem 200 (\<lambda>_. Cmd_Cancel 0) (\<lambda>_. raw_transfer) client_pool = Inr (nw_tm s0, pool)"
    using t by (simp add: s0_def example_net_def)
  have "nw_tm s1 = example_tm" using i by (auto simp: init_def create_socket_def Let_def s0_def example_net_def split: prod.splits if_splits)
  then have paths: "paths_terminated (nw_tm s1)" using example_tm(4) by (simp add: paths_terminated_def)
  have "\<forall>a n. length (example_mem a n) = n" by simp
  from client_runs_invariant [OF disk_tls.tls_client_axioms t0 n this i rtranclp.rtrancl_refl] i disk_env_io(3)
    paths show ?thesis by blast
qed

text \<open>
  C10: however TLS portions the bytes, \<^verbatim>\<open>read_data\<close> hands to \<^verbatim>\<open>analize\<close> exactly the complete frames of what
  was held and what it took from the stream, in order, and holds the rest.
\<close>

theorem client_read_frames:
  assumes "tls_client E arriving taken" "net_ok s" "Network_read_data E n s w = Inr (s', w')"
  shows "\<exists>fs cs. net_reads E (s, w) fs (s', w') \<and> arriving w = cs @ arriving w' \<and> net_ok s' \<and>
    frames (rbuf_held (nw_rbuf s) @ cs) = (fs, rbuf_held (nw_rbuf s'))"
proof -
  have "tm_ok (nw_tm s)" "rbuf_ok (nw_rbuf s)" "\<not> rbuf_complete (nw_rbuf s)" using assms(2) by (simp_all add: net_ok_def)
  from tls_client.read_data_reading [OF assms(1) this assms(3)] obtain fs cs where
    "tls_client.net_reading E arriving taken (s, w) fs cs (s', w')" by blast
  then have r: "net_reads E (s, w) fs (s', w')" "arriving w = cs @ arriving w'" "reads_only s s'"
    "rbuf_held (nw_rbuf s) @ cs = concat fs @ rbuf_held (nw_rbuf s')" "\<forall>f \<in> set fs. is_frame f"
    "rbuf_ok (nw_rbuf s')" "\<not> rbuf_complete (nw_rbuf s')"
    by (simp_all add: tls_client.net_reading_def [OF assms(1)])
  have "frames (rbuf_held (nw_rbuf s) @ cs) = (fs, rbuf_held (nw_rbuf s'))"
    unfolding r(4) by (rule frames_concat [OF r(5) rbuf_rest [OF r(6,7)]])
  with r tls_client.reads_only_net_ok [OF assms(1,2) r(3,6,7)] show ?thesis by blast
qed

theorem client_read_frames_witness:
  "\<exists>s' w' fs. Network_read_data disk_env 1 example_net (example_disk\<lparr>d_arriving := replicate 8 0\<rparr>) = Inr (s', w') \<and>
    net_reads disk_env (example_net, example_disk\<lparr>d_arriving := replicate 8 0\<rparr>) fs (s', w') \<and> fs = [replicate 8 0]"
proof -
  let ?w = "example_disk\<lparr>d_arriving := replicate 8 0\<rparr>"
  have z: "put_bytes 0 (replicate 8 0) zero_packet = zero_packet" "hdr_size zero_packet = 0" "hdr_type zero_packet = 0"
    by (simp_all add: put_bytes_def zero_packet_def packet_field_defs byte_simps flip: replicate_add)
  have q: "read_request (nw_rbuf example_net) = 8" by (simp add: read_request_def example_net_def)
  have a: "append_rbuf (replicate 8 0) (nw_rbuf example_net) = Inr \<lparr>pb_packet = zero_packet, pb_len = 8, pb_size = 0\<rparr>"
    using z by (simp add: append_rbuf_def example_net_def)
  have "rbuf_complete \<lparr>pb_packet = zero_packet, pb_len = 8, pb_size = 0\<rparr>" by (simp add: rbuf_complete)
  then have t: "take_bytes disk_env (replicate 8 0) example_net v = Inr (server_response zero_packet example_net, v)" for v
    using a z by (simp add: take_bytes_def analize_def server_response_def reset_buf_def example_net_def)
  have "c_SSL_read disk_env 2 8 ?w = (Inr (replicate 8 0), example_disk)"
    by (simp add: disk_env_def example_disk_def)
  moreover have "nw_ssl example_net = 2" by (simp add: example_net_def)
  ultimately have "read_turn disk_env example_net ?w = Inr (False, server_response zero_packet example_net, example_disk)"
    using t q by (simp add: read_turn_def)
  moreover have "\<not> c_SSL_pending disk_env h example_disk" for h by (simp add: disk_env_def example_disk_def)
  ultimately have "\<exists>s' w'. Network_read_data disk_env 1 example_net ?w = Inr (s', w') \<and> d_arriving w' = []"
    by (subst Network_read_data.simps) (simp add: example_disk_def)
  then obtain s' w' where r: "Network_read_data disk_env 1 example_net ?w = Inr (s', w')" "d_arriving w' = []" by blast
  from client_read_frames [OF disk_tls.tls_client_axioms example_net r(1)] obtain fs where
    "net_reads disk_env (example_net, ?w) fs (s', w')" "frames (rbuf_held (nw_rbuf example_net) @ replicate 8 0) = (fs, rbuf_held (nw_rbuf s'))"
    using r(2) by auto
  moreover have "frames (replicate 8 0) = ([replicate 8 0], [])"
    using frames_concat [of "[replicate 8 0]" "[]"] by (simp add: is_frame_def frame_len_def hdr_size_def byte_simps)
  moreover have "rbuf_held (nw_rbuf example_net) = []" by (simp add: rbuf_held_def example_net_def)
  ultimately show ?thesis using r(1) by auto
qed

text \<open>
  C16: a turn of \<^verbatim>\<open>handle\<close> hands to TLS at most the packet it has made itself, the next one of the
  transfers or else the oldest request for a session, cut where TLS cuts it; and all of it when
  poll reports that it can be written and TLS takes what it is given.
\<close>

theorem turn_sends:
  assumes "tls_client E arriving taken" "net_ok s" "handle_turn E n s w = Inr (go, s1, w1)"
  shows "net_ok s1 \<and> (\<exists>k. taken w1 = taken w @ take k (fresh E s w)) \<and>
    ((\<forall>fd v. let r = fst (c_poll E fd True v) in 0 \<le> pr_ready r \<and> \<not> pr_error r \<and> pr_write r) \<and>
     (\<forall>h bs v. fst (c_SSL_write E h bs v) = int (length bs)) \<longrightarrow>
       taken w1 = taken w @ fresh E s w \<and> (pb_len (nw_wbuf s) = 0 \<longrightarrow> pb_len (nw_wbuf s1) = 0))"
proof -
  have "tls_client.turn_result E taken s w s1 w1"
    using keepsE_D [OF tls_client.handle_turn_spec [OF assms(1,2)] assms(3)] by simp
  then show ?thesis
    using tls_client.handle_turn_full [OF assms] by (simp add: tls_client.turn_result_def [OF assms(1)])
qed

text \<open>A client with one request for a session.\<close>

definition example_request :: session_msg where
  "example_request = \<lparr>s_name = 65 # replicate 15 0, s_id = 66 # replicate 15 0, s_opt = True\<rparr>"

definition asking_net :: network where
  "asking_net = example_net\<lparr>nw_queue := snd (push example_request example_sessions)\<rparr>"

lemma asking_net: "net_ok asking_net" "lf_items (nw_queue asking_net) = [example_request]" "nw_tm asking_net = example_tm"
  "nw_wbuf asking_net = \<lparr>pb_packet = zero_packet, pb_len = 0, pb_size = 0\<rparr>"
proof -
  have "lf_ok 3 example_sessions" using example_sessions(2) by (simp add: sessions_ok_def)
  from lf.push_room [OF this, of example_request] example_sessions(3) obtain q where
    q: "push example_request example_sessions = (True, q)" "lf_ok 3 q" "lf_items q = [example_request]" by auto
  then show "net_ok asking_net" "lf_items (nw_queue asking_net) = [example_request]"
    using example_net by (simp_all add: asking_net_def net_ok_def sessions_ok_def example_request_def)
qed (simp_all add: asking_net_def example_net_def)

definition request_packet :: packet where
  "request_packet = projr (to_packet example_request zero_packet)"

lemma request_packet: "to_packet example_request zero_packet = Inr request_packet" "outgoing request_packet"
  "length (packet_image request_packet) = 48" "hdr_size request_packet = 40"
proof -
  have l: "length (s_name example_request) = 16" "length (s_id example_request) = 16" by (simp_all add: example_request_def)
  from to_packet_spec [OF length_zero_packet l] obtain q where
    q: "to_packet example_request zero_packet = Inr q" "outgoing q" "hdr_size q = of_nat sizeof_intro" by blast
  then have e: "request_packet = q" by (simp add: request_packet_def)
  then show "to_packet example_request zero_packet = Inr request_packet" "outgoing request_packet" using q by simp_all
  show h: "hdr_size request_packet = 40" using q(3) e by simp
  show "length (packet_image request_packet) = 48"
    using outgoing_size [OF \<open>outgoing request_packet\<close>] h by (simp add: packet_image_def)
qed

lemma asking_fresh: "fresh E asking_net w = packet_image request_packet"
  by (simp add: fresh_def asking_net example_idle request_packet(1))

lemma disk_turn:
  assumes "net_ok s" "d_arriving w = []" "paths_terminated (nw_tm s)"
  shows "\<exists>go s1 w1. handle_turn disk_env 0 s w = Inr (go, s1, w1)"
proof -
  have "disk_tls.can_work s" using assms(3) disk_env_io(3) by (simp add: disk_tls.can_work_def)
  from returnsE_ex [OF disk_tls.check_write_spec [OF assms(1), of w] this] obtain s1 w1 where c: "check_write disk_env s w = Inr (s1, w1)"
    "net_ok s1" "disk_tls.quiet w w1" "nw_want_write s1 \<longrightarrow> pb_len (nw_wbuf s1) = 0" by auto
  have arr: "d_arriving w1 = []" using c(3) assms(2) by (simp add: disk_tls.quiet_def)
  have "\<exists>x. Network_write_data disk_env s1 w1 = Inr x" if l: "pb_len (nw_wbuf s1) = 0"
  proof (cases "pb_size (nw_wbuf s1) = 0")
    case False
    then have "outgoing (pb_packet (nw_wbuf s1))" "pb_size (nw_wbuf s1) = hdr_size (pb_packet (nw_wbuf s1)) + 8"
      using c(2) by (auto simp: net_ok_def wbuf_ok_def)
    moreover have "0 < uint (hdr_size (pb_packet (nw_wbuf s1))) + 8"
      by (rule add_nonneg_pos [OF unsigned_greater_eq]) simp
    ultimately show ?thesis using False l outgoing_size [of "pb_packet (nw_wbuf s1)"]
      by (simp add: Network_write_data_def disk_env_def Let_def)
  qed (simp add: Network_write_data_def l)
  then show ?thesis using c(1,4) arr
    by (cases "nw_want_write s1") (auto simp: handle_turn_def disk_env_def)
qed

theorem turn_sends_witness:
  "\<exists>go s1 w1. handle_turn disk_env 0 asking_net example_disk = Inr (go, s1, w1) \<and> d_taken w1 = packet_image request_packet"
proof -
  have "\<exists>go s1 w1. handle_turn disk_env 0 asking_net example_disk = Inr (go, s1, w1)"
    using example_tm(4) by (intro disk_turn [OF asking_net(1)]) (simp_all add: example_disk_def asking_net(3) paths_terminated_def)
  then obtain go s1 w1 where t: "handle_turn disk_env 0 asking_net example_disk = Inr (go, s1, w1)" by blast
  from turn_sends [OF disk_tls.tls_client_axioms asking_net(1) t] t asking_fresh [of disk_env example_disk] show ?thesis
    by (auto simp: disk_env_def example_disk_def)
qed

text \<open>
  C33: a packet that cannot be written in the turn that made it is lost: while the transfers have
  nothing to do, the bytes a turn hands to TLS are those of the oldest request in the queue, whatever
  packet waits in the buffer; when no request is queued, nothing is sent.
\<close>

theorem unsent_packet_lost:
  assumes "tls_client E arriving taken" "net_ok s" "handle_turn E n s w = Inr (go, s1, w1)"
    and "do_work E 8 (nw_tm s) (pb_packet (nw_wbuf s)) w = Inr (NO_WORK, tm, p, v)"
  shows "case lf_items (nw_queue s) of
      [] \<Rightarrow> taken w1 = taken w
    | m # ms \<Rightarrow> \<exists>k q. to_packet m (pb_packet (nw_wbuf s)) = Inr q \<and> taken w1 = taken w @ take k (packet_image q)"
proof -
  have "tls_client.turn_result E taken s w s1 w1"
    using keepsE_D [OF tls_client.handle_turn_spec [OF assms(1,2)] assms(3)] by simp
  then obtain k where k: "taken w1 = taken w @ take k (fresh E s w)"
    by (auto simp: tls_client.turn_result_def [OF assms(1)])
  have p: "p = pb_packet (nw_wbuf s)" "length p = PACKET_MAX_SIZE"
    using returnsE_D [OF tls_client.do_work_here [OF assms(1,2)] assms(4)] by auto
  show ?thesis
  proof (cases "lf_items (nw_queue s)")
    case Nil
    then show ?thesis using k assms(4) by (auto simp: fresh_def)
  next
    case (Cons m ms)
    then have "length (s_name m) = PC_NAME_MAX_LEN" "length (s_id m) = SESSION_ID_MAX_LEN"
      using assms(2) by (simp_all add: net_ok_def sessions_ok_def)
    from to_packet_spec [OF p(2) this] obtain q where q: "to_packet m p = Inr q" by blast
    show ?thesis
    proof (cases "pb_len (nw_wbuf s) = 0")
      case True
      then have "fresh E s w = packet_image q" using Cons assms(4) q by (simp add: fresh_def)
      then show ?thesis using k q p(1) Cons by auto
    next
      case False
      then have "taken w1 = taken w @ take 0 (packet_image q)" using k by (simp add: fresh_def)
      then show ?thesis using q p(1) unfolding Cons list.case by blast
    qed
  qed
qed

text \<open>The client of the example in a turn without readiness, then one more turn.\<close>

theorem unsent_packet_lost_witness:
  "\<exists>go s1 w1. handle_turn unready_env 0 (example_net\<lparr>nw_wbuf := \<lparr>pb_packet = request_packet, pb_len = 0, pb_size = 48\<rparr>\<rparr>)
      example_disk = Inr (go, s1, w1) \<and> d_taken w1 = []"
proof -
  let ?s = "example_net\<lparr>nw_wbuf := \<lparr>pb_packet = request_packet, pb_len = 0, pb_size = 48\<rparr>\<rparr>"
  have tm: "nw_tm ?s = example_tm" "lf_items (nw_queue ?s) = []" using example_sessions(3) by (simp_all add: example_net_def)
  have ok: "net_ok ?s"
    using example_net request_packet(2,4) outgoing_size [OF request_packet(2)] by (simp add: net_ok_def wbuf_ok_def)
  have "paths_terminated (nw_tm ?s)" using tm(1) example_tm(4) by (simp add: paths_terminated_def)
  from next_write(2) [OF unready_tls(1) ok unready_tls(2) this] obtain s1 w1 where
    c: "check_write unready_env ?s example_disk = Inr (s1, w1)" by fastforce
  then have "\<exists>go s2 w2. handle_turn unready_env 0 ?s example_disk = Inr (go, s2, w2)"
    by (auto simp: handle_turn_def unready_env_def)
  then obtain go s2 w2 where t: "handle_turn unready_env 0 ?s example_disk = Inr (go, s2, w2)" by blast
  have "do_work unready_env 8 (nw_tm ?s) (pb_packet (nw_wbuf ?s)) example_disk =
      Inr (NO_WORK, example_tm, pb_packet (nw_wbuf ?s), example_disk)" unfolding tm(1) by (rule example_idle)
  from unsent_packet_lost [OF unready_tls(1) ok t this] t tm(2) show ?thesis by (simp add: example_disk_def)
qed

text \<open>
  C34: a packet TLS has taken only in part stops the client: from then on no turn of \<^verbatim>\<open>handle\<close> writes
  anything, takes a request from the queue or runs a command of the user interface.
\<close>

theorem partial_write_stalls:
  assumes "tls_client E arriving taken" "net_ok s" "pb_len (nw_wbuf s) \<noteq> 0" "handle_loop E n k s w = Inr (s1, w1)"
  shows "taken w1 = taken w \<and> nw_wbuf s1 = nw_wbuf s \<and> nw_queue s1 = nw_queue s \<and>
    cmd_queue (nw_tm s1) = cmd_queue (nw_tm s)"
  using tls_client.handle_loop_stuck [OF assms] by simp

theorem partial_write_stalls_witness:
  "\<exists>s1 w1. handle_loop unready_env 0 3 (asking_net\<lparr>nw_wbuf := \<lparr>pb_packet = request_packet, pb_len = 5, pb_size = 48\<rparr>\<rparr>)
      example_disk = Inr (s1, w1) \<and> d_taken w1 = [] \<and> lf_items (nw_queue s1) = [example_request]"
proof -
  let ?s = "asking_net\<lparr>nw_wbuf := \<lparr>pb_packet = request_packet, pb_len = 5, pb_size = 48\<rparr>\<rparr>"
  have ok: "net_ok ?s"
    using asking_net(1) request_packet(2,4) outgoing_size [OF request_packet(2)] by (simp add: net_ok_def wbuf_ok_def)
  have "\<exists>s1 w1. handle_loop unready_env 0 3 ?s example_disk = Inr (s1, w1)"
    by (simp add: numeral_3_eq_3 handle_loop.simps handle_turn_def check_write_def unready_env_def disk_env_def example_disk_def)
  then obtain s1 w1 where r: "handle_loop unready_env 0 3 ?s example_disk = Inr (s1, w1)" by blast
  have "pb_len (nw_wbuf ?s) \<noteq> 0" by simp
  from partial_write_stalls [OF unready_tls(1) ok this r] r asking_net(2) show ?thesis by (simp add: example_disk_def)
qed

text \<open>
  C22: a request for a session survives the wire: what the user interface gives to \<^verbatim>\<open>session\<close> is, in the
  packet \<^verbatim>\<open>to_packet\<close> makes, an introduction whose strings are the name and the id cut at 15 bytes and
  terminated, and which asks to join or to create as told.
\<close>

theorem session_roundtrip:
  assumes "PC_NAME_MAX_LEN \<le> length name" "SESSION_ID_MAX_LEN \<le> length sid" "length p = PACKET_MAX_SIZE"
    and "length (s_name raw) = PC_NAME_MAX_LEN" "length (s_id raw) = SESSION_ID_MAX_LEN"
  shows "\<exists>m q. Session_new raw name sid opt = Inr m \<and> to_packet m p = Inr q \<and> hdr_type q = P_CLIENT_INTRO \<and>
    hdr_size q = of_nat sizeof_intro \<and> cstr (intro_name q) = take 15 (cstr name) \<and> 0 \<in> set (intro_name q) \<and>
    cstr (intro_id q) = take 15 (cstr sid) \<and> 0 \<in> set (intro_id q) \<and> intro_session q = of_bool opt"
proof -
  have cut: "(take 16 x)[15 := 0] = take 15 x @ [0]" if "16 \<le> length x" for x :: bytes
    using that by (subst upd_conv_take_nth_drop) (simp_all add: min_def)
  have cp: "safe_strcpy d x 16 = Inr (take 15 x @ [0])" if "length d = 16" "16 \<le> length x" for d x
    using that cut by (simp add: safe_strcpy_def put_bytes_def)
  have str: "cstr (take 15 x @ [0]) = take 15 (cstr x)" for x
  proof -
    have "cstr (take n x @ [0]) = take n (cstr x)" for n
      by (induction x arbitrary: n) (auto simp: cstr_def take_Cons' split: nat.splits)
    then show ?thesis .
  qed
  let ?m = "\<lparr>s_name = take 15 name @ [0], s_id = take 15 sid @ [0], s_opt = opt\<rparr>"
  have m: "Session_new raw name sid opt = Inr ?m" using assms by (simp add: Session_new_def cp)
  have l: "length (s_name ?m) = PC_NAME_MAX_LEN" "length (s_id ?m) = SESSION_ID_MAX_LEN" using assms by simp_all
  have idem: "(take 15 x @ [0])[15 := 0] = take 15 x @ [0]" if "16 \<le> length x" for x :: bytes
    using that by (simp add: list_update_append)
  from to_packet_spec [OF assms(3) l] obtain q where "to_packet ?m p = Inr q" "intro_session q = of_bool opt"
    "intro_name q = take 15 name @ [0]" "intro_id q = take 15 sid @ [0]" "hdr_type q = P_CLIENT_INTRO"
    "hdr_size q = of_nat sizeof_intro" using idem assms(1,2) by auto
  then show ?thesis using m str by (intro exI [of _ ?m] exI [of _ q]) simp
qed

theorem session_roundtrip_witness:
  "\<exists>m q. Session_new no_session (replicate 20 65) (66 # replicate 15 0) True = Inr m \<and> to_packet m zero_packet = Inr q \<and>
    cstr (intro_name q) = replicate 15 65 \<and> cstr (intro_id q) = [66]"
proof -
  have "cstr (replicate 20 65) = replicate 20 65" by (simp add: cstr_def takeWhile_replicate)
  then show ?thesis
    using session_roundtrip [of "replicate 20 65" "66 # replicate 15 0" zero_packet no_session True]
    by (auto simp: no_session_def cstr_def takeWhile_replicate)
qed

definition download_path :: "bytes \<Rightarrow> packet \<Rightarrow> bytes" where
  "download_path user p = ascii ''/home/'' @ user @ ascii ''/Downloads/'' @ cstr (rq_file_name p)"

text \<open>
  C35: a request of a peer can end the client: when a complete request is in the read buffer and six
  received transfers are under way, or the file it names cannot be opened for writing in the download
  directory of the user, or there is no user, \<^verbatim>\<open>analize\<close> fails an assertion.
\<close>

theorem request_aborts_client:
  assumes "tm_ok (nw_tm s)" "rbuf_ok (nw_rbuf s)" "rbuf_complete (nw_rbuf s)"
    and "p = pb_packet (nw_rbuf s)" "hdr_type p = P_TRANSFER_REQUEST"
    and "(\<forall>i < 6. state_of RECV i (nw_tm s) \<noteq> AT_EMPTY) \<or> getenv_USER E w = None \<or>
      0 \<in> set (rq_file_name p) \<and> fst (fopen E (download_path (the (getenv_USER E w)) p) (ascii ''wb'') w) = 0"
  shows "analize E s w = Inl Assert_Failed"
proof -
  let ?tm = "nw_tm s"
  have len: "length (recv_transfers ?tm) = 6" using tm_ok_length [OF assms(1), of RECV] by simp
  have "\<exists>tm1 w1. create_recv_request E p ?tm w = Inr (False, tm1, w1)"
  proof (cases "get_transfer (recv_transfers ?tm)")
    case None
    then show ?thesis by (simp add: create_recv_request_def)
  next
    case (Some i)
    then have i: "i < 6" "at_state (recv_transfers ?tm ! i) = AT_EMPTY" "recv_ok (recv_transfers ?tm ! i)"
      using get_transfer_Some [of RECV ?tm i] assms(1) by (simp_all add: state_of_def)
    show ?thesis
    proof (cases "getenv_USER E w")
      case None
      then show ?thesis using Some i(3) by (simp add: create_recv_request_def write_file_def recv_ok_def)
    next
      case user: (Some user)
      then have f: "0 \<in> set (rq_file_name p)" "fst (fopen E (download_path user p) (ascii ''wb'') w) = 0"
        using assms(6) i(1,2) by (auto simp: state_of_def)
      then obtain v where "fopen E (download_path user p) (ascii ''wb'') w = (0, v)" by (metis prod.collapse)
      then show ?thesis using Some user f(1) i(3)
        by (simp add: create_recv_request_def write_file_def recv_ok_def download_path_def)
    qed
  qed
  then show ?thesis using assms(4,5) by (auto simp: analize_def Let_def)
qed

text \<open>A complete request for a file that cannot be opened, while every other file can.\<close>

definition example_asked :: packet where
  "example_asked = PACKET_HDR P_TRANSFER_REQUEST sizeof_request zero_packet"

definition denying_env :: "disk cenv" where
  "denying_env = disk_env\<lparr>getenv_USER := (\<lambda>_. Some []),
     fopen := (\<lambda>path mode w. if path = ascii ''/home//Downloads/'' then (0, w) else fopen disk_env path mode w)\<rparr>"

theorem request_aborts_client_witness:
  "analize denying_env (example_net\<lparr>nw_rbuf := \<lparr>pb_packet = example_asked, pb_len = 8 + of_nat sizeof_request,
     pb_size = of_nat sizeof_request\<rparr>\<rparr>) example_disk = Inl Assert_Failed"
proof -
  let ?s = "example_net\<lparr>nw_rbuf := \<lparr>pb_packet = example_asked, pb_len = 8 + of_nat sizeof_request, pb_size = of_nat sizeof_request\<rparr>\<rparr>"
  have ok: "tm_ok (nw_tm ?s)" "rbuf_ok (nw_rbuf ?s)" "rbuf_complete (nw_rbuf ?s)"
    using example_net by (simp_all add: net_ok_def rbuf_ok_def rbuf_complete example_asked_def)
  have n: "rq_file_name example_asked = replicate 64 0"
    by (simp add: example_asked_def packet_field_defs byte_simps zero_packet_def)
  then have "0 \<in> set (rq_file_name example_asked)" "cstr (rq_file_name example_asked) = []"
    by (simp_all add: cstr_def)
  then have "0 \<in> set (rq_file_name example_asked) \<and>
      fst (fopen denying_env (download_path (the (getenv_USER denying_env example_disk)) example_asked) (ascii ''wb'') example_disk) = 0"
    by (simp add: denying_env_def download_path_def ascii_def)
  with request_aborts_client [OF ok, of example_asked denying_env example_disk] show ?thesis
    by (simp add: example_asked_def)
qed

text \<open>
  C36: a failed handshake ends all attempts, when a second \<^verbatim>\<open>connect\<close> of the same socket fails at once, as
  it does for a socket that is connected. For every number of turns, \<^verbatim>\<open>init_conn\<close> after the failure is
  still trying, or has returned because the thread was told to stop or because \<^verbatim>\<open>SSL_new\<close> failed and the
  state is \<^verbatim>\<open>INIT_ERROR\<close>; it fails no assertion and stays within the defined behaviour. While the thread
  runs and \<^verbatim>\<open>SSL_new\<close> succeeds it never returns. It never reaches the handshake: what it does is the same
  whatever a call of \<^verbatim>\<open>SSL_do_handshake\<close> would do.
\<close>

theorem handshake_not_retried:
  assumes "\<forall>v. fst (c_connect E (nw_sock s) v) < 0 \<and> \<not> c_in_progress E (snd (c_connect E (nw_sock s) v))"
  shows "(conn_loop E n k C_ERROR s w = Inl Out_Of_Fuel \<or>
      (\<exists>s1 w1. conn_loop E n k C_ERROR s w = Inr (True, s1, w1) \<and> \<not> c_active E w1 \<and> nw_state s1 = nw_state s) \<or>
      (\<exists>s1 w1. conn_loop E n k C_ERROR s w = Inr (False, s1, w1) \<and> nw_state s1 = INIT_ERROR \<and>
         (\<exists>v. fst (c_SSL_new E (nw_ssl_ctx s) v) = 0))) \<and>
    ((\<forall>v. c_active E v) \<and> (\<forall>c v. fst (c_SSL_new E c v) \<noteq> 0) \<longrightarrow> conn_loop E n k C_ERROR s w = Inl Out_Of_Fuel) \<and>
    (\<forall>h. conn_loop (E\<lparr>c_SSL_do_handshake := h\<rparr>) n k C_ERROR s w = conn_loop E n k C_ERROR s w)"
proof -
  let ?E = "\<lambda>h. E\<lparr>c_SSL_do_handshake := h\<rparr>"
  have halt: "\<not> c_active E w \<Longrightarrow> conn_loop E n k st s w = Inr (True, s, w)"
    "\<not> c_active E w \<Longrightarrow> conn_loop (?E h) n k st s w = Inr (True, s, w)"
    "c_active E w \<Longrightarrow> conn_loop E n 0 st s w = Inl Out_Of_Fuel" "c_active E w \<Longrightarrow> conn_loop (?E h) n 0 st s w = Inl Out_Of_Fuel"
    for k st s w h by (subst conn_loop.simps, simp)+
  have tcp: "(conn_loop E n k C_TCP_CONNECT s2 w = Inl Out_Of_Fuel \<or>
      (\<exists>w1. conn_loop E n k C_TCP_CONNECT s2 w = Inr (True, s2, w1) \<and> \<not> c_active E w1)) \<and>
      (\<forall>h. conn_loop (?E h) n k C_TCP_CONNECT s2 w = conn_loop E n k C_TCP_CONNECT s2 w)"
    if "nw_sock s2 = nw_sock s" for k s2 w
  proof (induction k arbitrary: w)
    case 0
    show ?case by (simp add: conn_loop.simps [of _ _ 0])
  next
    case (Suc j)
    obtain rc v where c: "c_connect E (nw_sock s) w = (rc, v)" by force
    then have "rc < 0" "\<not> c_in_progress E v" using assms by (metis fst_conv, metis snd_conv)
    then have "tcp_connect E s2 w = (False, v)" "\<And>h. tcp_connect (?E h) s2 w = (False, v)"
      using c that by (simp_all add: tcp_connect_def)
    then show ?case using Suc.IH [of "c_sleep E v"] by (simp add: conn_loop.simps [of _ _ "Suc j"])
  qed
  show ?thesis
  proof (cases "c_active E w \<and> 0 < k")
    case False
    then show ?thesis by (cases "c_active E w") (auto simp: halt)
  next
    case True
    then obtain j where j: "k = Suc j" by (cases k) auto
    let ?w = "c_sleep E (c_SSL_free E (nw_ssl s) w)" and ?s = "s\<lparr>nw_ssl := 0\<rparr>"
    have run: "conn_loop E n k C_ERROR s w = conn_loop E n j C_INIT ?s ?w"
      "\<And>h. conn_loop (?E h) n k C_ERROR s w = conn_loop (?E h) n j C_INIT ?s ?w"
      using True by (simp_all add: j conn_loop.simps [of _ _ "Suc j"])
    show ?thesis
    proof (cases "c_active E ?w \<and> 0 < j")
      case False
      then show ?thesis unfolding run by (cases "c_active E ?w") (auto simp: halt)
    next
      case True
      then obtain i where i: "j = Suc i" by (cases j) auto
      obtain h1 v where h1: "c_SSL_new E (nw_ssl_ctx s) ?w = (h1, v)" by force
      then have "h1 = 0 \<Longrightarrow> \<exists>v. fst (c_SSL_new E (nw_ssl_ctx s) v) = 0" by (metis fst_conv)
      moreover let ?s1 = "s\<lparr>nw_ssl := h1\<rparr>" and ?v = "c_SSL_set_fd E h1 (nw_sock s) v"
      have "conn_loop E n k C_ERROR s w = (if h1 = 0 then Inr (False, ?s1\<lparr>nw_state := INIT_ERROR\<rparr>, v)
          else conn_loop E n i C_TCP_CONNECT ?s1 ?v)"
        "\<And>h. conn_loop (?E h) n k C_ERROR s w = (if h1 = 0 then Inr (False, ?s1\<lparr>nw_state := INIT_ERROR\<rparr>, v)
          else conn_loop (?E h) n i C_TCP_CONNECT ?s1 ?v)"
        unfolding run i using h1 True by (simp_all add: conn_loop.simps [of _ _ "Suc i"] Let_def)
      moreover have "(\<forall>c v. fst (c_SSL_new E c v) \<noteq> 0) \<Longrightarrow> h1 \<noteq> 0" using h1 by (metis fst_conv)
      ultimately show ?thesis using tcp [of ?s1 i ?v] by (cases "h1 = 0") auto
    qed
  qed
qed

definition failing_env :: "disk cenv" where
  "failing_env = disk_env\<lparr>c_connect := (\<lambda>_ w. (- 1, w)), c_sleep := (\<lambda>w. w\<lparr>d_time := d_time w + 1\<rparr>),
     c_active := (\<lambda>w. d_time w < 3)\<rparr>"

theorem handshake_not_retried_witness:
  "\<exists>s1 w1. conn_loop failing_env 0 6 C_ERROR example_net example_disk = Inr (True, s1, w1) \<and> \<not> d_time w1 < 3 \<and>
    (\<forall>h. conn_loop (failing_env\<lparr>c_SSL_do_handshake := h\<rparr>) 0 6 C_ERROR example_net example_disk = Inr (True, s1, w1))"
proof -
  let ?E = failing_env
  have stop: "conn_loop ?E 0 k st s w = Inr (True, s, w)" if "\<not> d_time w < 3" for k st s w
    using that by (subst conn_loop.simps) (simp add: failing_env_def)
  have tcp: "conn_loop ?E 0 (Suc k) C_TCP_CONNECT s w = conn_loop ?E 0 k C_TCP_CONNECT s (w\<lparr>d_time := d_time w + 1\<rparr>)"
    if "d_time w < 3" for k s w
    using that by (subst conn_loop.simps) (simp add: failing_env_def disk_env_def tcp_connect_def)
  have err: "conn_loop ?E 0 (Suc (Suc k)) C_ERROR s w =
      conn_loop ?E 0 k C_TCP_CONNECT (s\<lparr>nw_ssl := 2\<rparr>) (w\<lparr>d_time := d_time w + 1\<rparr>)" if "d_time w < 2" for k s w
    using that by (subst conn_loop.simps, simp add: failing_env_def disk_env_def)
      (subst conn_loop.simps, simp add: failing_env_def disk_env_def)
  have "conn_loop ?E 0 6 C_ERROR example_net example_disk =
      Inr (True, example_net\<lparr>nw_ssl := 2\<rparr>, example_disk\<lparr>d_time := 3\<rparr>)"
    by (simp add: numeral_eq_Suc err tcp stop example_disk_def)
  moreover have "\<forall>v. fst (c_connect failing_env (nw_sock example_net) v) < 0 \<and>
      \<not> c_in_progress failing_env (snd (c_connect failing_env (nw_sock example_net) v))"
    by (simp add: failing_env_def disk_env_def)
  ultimately show ?thesis using handshake_not_retried [of ?E example_net 0 6 example_disk] by simp
qed

end
