(* ===== verification/User_Interface.thy ===== *)
theory User_Interface
  imports Client_Properties
begin

text \<open>
  The windows of the client, \<^verbatim>\<open>src/main_menu.cpp\<close>, \<^verbatim>\<open>src/login_menu.cpp\<close> and the frame of \<^verbatim>\<open>src/context.cpp\<close>.
  The library of the windows draws in immediate mode: each frame calls it for every element and is
  told what the user did. What is modelled is which elements a frame shows, which it reads, and what
  the program does in answer; positions, sizes and colours have no effect on the program.
\<close>

section \<open>The state\<close>

datatype app_state = ERROR_WINDOW | LOGIN | MAIN_MENU | CLOSE

datatype login_phase = IDLE | CONNECTING | NETWORK_ERROR

text \<open>
  The window library, the file dialog and \<^verbatim>\<open>try_lock\<close>, over a world \<open>'g\<close>. Buttons tell whether they were
  pressed, a selectable and the input field return their new value; a text of \<open>None\<close> is NULL. \<open>ui_raw\<close> is
  what the path of a new command, and \<open>ui_raw_session\<close> what a new request, holds in memory before its constructor.
\<close>

record 'g ui =
  ui_new_frame :: "'g \<Rightarrow> 'g"
  ui_render :: "'g \<Rightarrow> 'g"
  ui_begin :: "bytes \<Rightarrow> 'g \<Rightarrow> bool \<times> 'g"
  ui_text :: "bytes option \<Rightarrow> 'g \<Rightarrow> 'g"
  ui_button :: "bytes \<Rightarrow> 'g \<Rightarrow> bool \<times> 'g"
  ui_selectable :: "bytes \<Rightarrow> bool \<Rightarrow> 'g \<Rightarrow> bool \<times> 'g"
  ui_input :: "bytes \<Rightarrow> 'g \<Rightarrow> bytes \<times> 'g"
  ui_progress :: "u32 \<Rightarrow> 'g \<Rightarrow> 'g"
  ui_open_dialog :: "'g \<Rightarrow> bytes option \<times> 'g"
  ui_try_lock :: "'g \<Rightarrow> bool \<times> 'g"
  ui_raw :: "'g \<Rightarrow> bytes"
  ui_raw_session :: "'g \<Rightarrow> session_msg"

text \<open>
  \<^verbatim>\<open>Context\<close> with its two menus, and the network the menus call; \<open>mm_path_label\<close> is the static buffer of
  \<^verbatim>\<open>draw_path\<close>, \<open>mm_file_path\<close> the C string of the chosen file.
\<close>

record 'g gui =
  g_world :: 'g
  g_net :: network
  cx_window :: u64
  app_state :: app_state
  pc_name :: bytes
  mm_path_label :: bytes
  mm_file_path :: "bytes option"
  mm_user_list :: "user list"
  mm_transfer_list :: "(ti_state \<times> bytes) list"
  lm_key :: bytes
  lm_login_state :: bool
  lm_state :: login_phase
  lm_error :: bytes

definition ui_call :: "('g \<Rightarrow> 'a \<times> 'g) \<Rightarrow> 'g gui \<Rightarrow> 'a \<times> 'g gui" where
  "ui_call f g = (let (x, v) = f (g_world g) in (x, g\<lparr>g_world := v\<rparr>))"

definition ui_do :: "('g \<Rightarrow> 'g) \<Rightarrow> 'g gui \<Rightarrow> 'g gui" where
  "ui_do f g = g\<lparr>g_world := f (g_world g)\<rparr>"

text \<open>\<^verbatim>\<open>sprintf\<close> into an array of \<open>n\<close> bytes.\<close>

definition sprintf_to :: "nat \<Rightarrow> bytes \<Rightarrow> fault + bytes" where
  "sprintf_to n text = (if n < length text + 1 then Inl Undefined else Inr text)"

fun decimal :: "nat \<Rightarrow> bytes" where
  "decimal n = (if n < 10 then [of_nat (48 + n)] else decimal (n div 10) @ [of_nat (48 + n mod 10)])"

declare decimal.simps [simp del]

section \<open>Commands\<close>

definition send_cmd :: "transfer_cmd \<Rightarrow> 'g gui \<Rightarrow> bool \<times> 'g gui" where
  "send_cmd c g =
     (let (ok, q) = push c (cmd_queue (nw_tm (g_net g)))
      in (ok, g\<lparr>g_net := (g_net g)\<lparr>nw_tm := (nw_tm (g_net g))\<lparr>cmd_queue := q\<rparr>\<rparr>\<rparr>))"

definition cancel_transfer :: "active_transfer \<Rightarrow> 'g gui \<Rightarrow> fault + 'g gui" where
  "cancel_transfer t g =
     (let (ok, g1) = send_cmd (Cmd_Cancel (h_t_id (at_hdr t))) g in bindE (assertE ok) (\<lambda>_. Inr g1))"

section \<open>The main menu\<close>

definition copy_data :: "'g ui \<Rightarrow> 'g gui \<Rightarrow> 'g gui" where
  "copy_data U g =
     (let (l1, g1) = (if ul_dirty (nw_users (g_net g)) then ui_call (ui_try_lock U) g else (False, g));
          (users, ul) = copy_users l1 (mm_user_list g1) (nw_users (g_net g1));
          g2 = g1\<lparr>mm_user_list := users, g_net := (g_net g1)\<lparr>nw_users := ul\<rparr>\<rparr>;
          (l2, g3) = (if dirty (nw_tm (g_net g2)) then ui_call (ui_try_lock U) g2 else (False, g2));
          (tl, tm) = copy_backlog l2 (mm_transfer_list g3) (nw_tm (g_net g3))
      in g3\<lparr>mm_transfer_list := tl, g_net := (g_net g3)\<lparr>nw_tm := tm\<rparr>\<rparr>)"

definition draw_path :: "'g ui \<Rightarrow> 'g gui \<Rightarrow> fault + 'g gui" where
  "draw_path U g =
     (let (pressed, g1) = ui_call (ui_button U (mm_path_label g)) g
      in if \<not> pressed then Inr g1
         else let (path, g2) = ui_call (ui_open_dialog U) g1
              in case path of
                   None \<Rightarrow> Inr g2
                 | Some p \<Rightarrow> bindE (sprintf_to 64 (take (64 - 8) (cstr p) @ ascii ''###Path'')) (\<lambda>label.
                     Inr (g2\<lparr>mm_path_label := label, mm_file_path := Some (cstr p)\<rparr>)))"

definition get_client_name :: "client_id \<Rightarrow> user list \<Rightarrow> bytes option" where
  "get_client_name c us = map_option (\<lambda>i. u_name (us ! i)) (find_ix (\<lambda>u. u_id u = c) us)"

text \<open>A name that is printed is read as a C string: one that does not end in its array is read on behind it.\<close>

definition read_name :: "bytes option \<Rightarrow> fault + bytes option" where
  "read_name name = (case name of None \<Rightarrow> Inr None
     | Some bs \<Rightarrow> if 0 \<in> set bs then Inr (Some (cstr bs)) else Inl Undefined)"

fun render_request :: "'g ui \<Rightarrow> active_transfer list \<Rightarrow> 'g gui \<Rightarrow> fault + 'g gui" where
  "render_request U [] g = Inr g"
| "render_request U (t # ts) g =
     (if at_state t \<noteq> AT_GET_RESPONSE then render_request U ts g
      else bindE (read_name (get_client_name (h_from (at_hdr t)) (mm_user_list g))) (\<lambda>name.
           let g1 = ui_do (ui_text U (Some (path_filename (at_file t)))) (ui_do (ui_text U name) g);
               (accept_btn, g2) = ui_call (ui_button U (ascii ''Accept'')) g1;
               (deny_btn, g3) = ui_call (ui_button U (ascii ''Deny'')) g2;
               g4 = (if accept_btn \<or> deny_btn then snd (send_cmd (Cmd_Reply (h_t_id (at_hdr t)) accept_btn) g3)
                     else g3)
           in render_request U ts g4))"

definition draw_request :: "'g ui \<Rightarrow> 'g gui \<Rightarrow> fault + 'g gui" where
  "draw_request U g =
     (let (open_box, g1) = ui_call (ui_begin U (ascii ''##Requests'')) (ui_do (ui_text U (Some (ascii ''Incoming Requests''))) g)
      in if open_box then render_request U (recv_transfers (nw_tm (g_net g1))) g1 else Inr g1)"

fun backlog_text :: "ti_state \<Rightarrow> bytes" where
  "backlog_text TI_CANCELLED = ascii ''[ Cancelled ] ''"
| "backlog_text TI_COMPLETE = ascii ''[ Complete ] ''"
| "backlog_text TI_DENIED = ascii ''[ Denied ] ''"
| "backlog_text TI_REJECTED = ascii ''[ Rejected ] ''"

fun render_backlog :: "'g ui \<Rightarrow> (ti_state \<times> bytes) list \<Rightarrow> 'g gui \<Rightarrow> 'g gui" where
  "render_backlog U [] g = g"
| "render_backlog U ((st, file) # xs) g =
     render_backlog U xs (ui_do (ui_text U (Some (path_filename file))) (ui_do (ui_text U (Some (backlog_text st))) g))"

definition draw_backlog :: "'g ui \<Rightarrow> 'g gui \<Rightarrow> 'g gui" where
  "draw_backlog U g =
     (let (open_box, g1) = ui_call (ui_begin U (ascii ''##Backlog'')) (ui_do (ui_text U (Some (ascii ''Backlog''))) g)
      in if open_box then render_backlog U (mm_transfer_list g1) g1 else g1)"

fun state_to_text :: "at_state \<Rightarrow> bytes option" where
  "state_to_text AT_SEND_REQ = Some (ascii ''Awaiting Approval'')"
| "state_to_text AT_GET_RESPONSE = Some (ascii ''Awaiting Approval'')"
| "state_to_text AT_ACCEPT = Some (ascii ''Pending'')"
| "state_to_text AT_DENY = Some (ascii ''Pending'')"
| "state_to_text AT_PENDING = Some (ascii ''Pending'')"
| "state_to_text AT_ACTIVE = Some (ascii ''Active'')"
| "state_to_text AT_CANCEL = Some (ascii ''Cancelled'')"
| "state_to_text AT_EMPTY = None"

definition show_state :: "'g ui \<Rightarrow> active_transfer \<Rightarrow> 'g gui \<Rightarrow> 'g gui" where
  "show_state U t g =
     (let g1 = ui_do (ui_progress U (progress (f_manager t))) g
      in case state_to_text (at_state t) of None \<Rightarrow> g1 | Some s \<Rightarrow> ui_do (ui_text U (Some s)) g1)"

text \<open>The name of a transfer: its first 28 bytes, with dots when the whole path is longer.\<close>

definition session_text :: "bytes \<Rightarrow> bytes" where
  "session_text file = take 28 (path_filename file) @ (if 28 < length file then ascii ''...'' else [])"

text \<open>\<^verbatim>\<open>draw_func\<close> of \<^verbatim>\<open>render_session\<close>; \<open>recv\<close> tells whether the array is the one of received transfers.\<close>

fun session_loop :: "'g ui \<Rightarrow> bool \<Rightarrow> active_transfer list \<Rightarrow> nat \<Rightarrow> 'g gui \<Rightarrow> fault + 'g gui" where
  "session_loop U recv [] count g = Inr g"
| "session_loop U recv (t # ts) count g =
     (if at_state t = AT_EMPTY \<or> at_state t = AT_GET_RESPONSE \<and> recv then session_loop U recv ts count g
      else let g1 = ui_do (ui_text U (Some (session_text (at_file t)))) g
           in if at_state t = AT_PENDING \<or> at_state t = AT_ACTIVE
              then bindE (sprintf_to 32 (ascii ''Cancel##'' @ decimal count)) (\<lambda>btn_name.
                   let (pressed, g2) = ui_call (ui_button U btn_name) g1
                   in bindE (if pressed then cancel_transfer t g2 else Inr g2) (\<lambda>g3.
                      session_loop U recv ts (count + 1) (show_state U t g3)))
              else session_loop U recv ts count (show_state U t g1))"

definition render_session :: "'g ui \<Rightarrow> 'g gui \<Rightarrow> fault + 'g gui" where
  "render_session U g =
     bindE (session_loop U False (host_transfers (nw_tm (g_net g))) 0 g) (\<lambda>g1.
       session_loop U True (recv_transfers (nw_tm (g_net g1))) 0 g1)"

definition draw_session :: "'g ui \<Rightarrow> 'g gui \<Rightarrow> fault + 'g gui" where
  "draw_session U g =
     (let (open_box, g1) = ui_call (ui_begin U (ascii ''##Session'')) (ui_do (ui_text U (Some (ascii ''Session''))) g)
      in if open_box then render_session U g1 else Inr g1)"

text \<open>The selectables, from user \<open>count\<close> on, and the flags they leave.\<close>

fun render_users :: "'g ui \<Rightarrow> user list \<Rightarrow> nat \<Rightarrow> 'g gui \<Rightarrow> fault + (user list \<times> 'g gui)" where
  "render_users U [] count g = Inr ([], g)"
| "render_users U (c # cs) count g =
     bindE (read_name (Some (u_name c))) (\<lambda>c_name.
     bindE (sprintf_to (PC_NAME_MAX_LEN + 4) (the c_name @ ascii ''##'' @ decimal count)) (\<lambda>name.
       let (sel, g1) = ui_call (ui_selectable U name (u_selected c)) g
       in bindE (render_users U cs (count + 1) g1) (\<lambda>(cs1, g2). Inr (c\<lparr>u_selected := sel\<rparr> # cs1, g2))))"

text \<open>The array \<^verbatim>\<open>t_id\<close> of \<^verbatim>\<open>transfer\<close>: the byte image of its six ids, filled without a bound check.\<close>

fun fill_ids :: "user list \<Rightarrow> nat \<Rightarrow> bytes \<Rightarrow> fault + (nat \<times> bytes)" where
  "fill_ids [] count t_id = Inr (count, t_id)"
| "fill_ids (c # cs) count t_id =
     (if \<not> u_selected c then fill_ids cs count t_id
      else if TRANSFER_CLIENTS_MAX \<le> count then Inl Undefined
      else fill_ids cs (count + 1) (put_u64 (8 * count) (u_id c) t_id))"

definition menu_transfer :: "'g ui \<Rightarrow> 'g gui \<Rightarrow> fault + 'g gui" where
  "menu_transfer U g =
     bindE (fill_ids (mm_user_list g) 0 (replicate (8 * TRANSFER_CLIENTS_MAX) 0)) (\<lambda>(count, t_id).
       case mm_file_path g of
         None \<Rightarrow> Inr g
       | Some path \<Rightarrow>
           if count = 0 then Inr g
           else let (ok, g1) = send_cmd (request_cmd (ui_raw U (g_world g)) path t_id) g
                in bindE (assertE ok) (\<lambda>_.
                     Inr (g1\<lparr>mm_user_list := map (\<lambda>c. c\<lparr>u_selected := False\<rparr>) (mm_user_list g1)\<rparr>)))"

definition draw_users :: "'g ui \<Rightarrow> 'g gui \<Rightarrow> fault + 'g gui" where
  "draw_users U g =
     (let (open_box, g1) = ui_call (ui_begin U (ascii ''##Users'')) (ui_do (ui_text U (Some (ascii ''User List''))) g)
      in bindE (if open_box
                then bindE (render_users U (mm_user_list g1) 0 g1) (\<lambda>(us, g2). Inr (g2\<lparr>mm_user_list := us\<rparr>))
                else Inr g1) (\<lambda>g3.
         let (pressed, g4) = ui_call (ui_button U (ascii ''Send'')) g3
         in if pressed then menu_transfer U g4 else Inr g4))"

definition draw_menus :: "'g ui \<Rightarrow> 'g gui \<Rightarrow> fault + 'g gui" where
  "draw_menus U g = bindE (draw_session U (draw_backlog U g)) (draw_users U)"

definition main_draw :: "'g ui \<Rightarrow> 'g gui \<Rightarrow> fault + 'g gui" where
  "main_draw U g =
     (let (opened, g1) = ui_call (ui_begin U (ascii ''Main_Menu'')) g
      in if \<not> opened then Inr g1
         else bindE (draw_path U (copy_data U g1)) (\<lambda>g2. bindE (draw_request U g2) (draw_menus U)))"

section \<open>The login menu\<close>

definition login_clean :: "'g gui \<Rightarrow> 'g gui" where
  "login_clean g = g\<lparr>lm_key := replicate 16 0, lm_login_state := False, lm_error := [], lm_state := IDLE\<rparr>"

definition set_appstate :: "app_state \<Rightarrow> 'g gui \<Rightarrow> 'g gui" where
  "set_appstate st g = (case st of LOGIN \<Rightarrow> login_clean g | _ \<Rightarrow> g)\<lparr>app_state := st\<rparr>"

definition login_button :: "'g ui \<Rightarrow> 'g gui \<Rightarrow> fault + 'g gui" where
  "login_button U g =
     (if 0 < min 15 (length (cstr (lm_key g)))
      then bindE (session (ui_raw_session U (g_world g)) (pc_name g) (lm_key g) (lm_login_state g) (g_net g)) (\<lambda>s.
             Inr (g\<lparr>g_net := s\<rparr>))
      else Inr g)"

definition draw_key :: "'g ui \<Rightarrow> 'g gui \<Rightarrow> 'g gui" where
  "draw_key U g = (let (key, g1) = ui_call (ui_input U (lm_key g)) (ui_do (ui_text U (Some (ascii ''Session Key''))) g)
                   in g1\<lparr>lm_key := key\<rparr>)"

definition draw_enter :: "'g ui \<Rightarrow> 'g gui \<Rightarrow> fault + 'g gui" where
  "draw_enter U g =
     (let (pressed, g1) = ui_call (ui_button U (if \<not> lm_login_state g then ascii ''Enter'' else ascii ''Create'')) g
      in if pressed then login_button U g1 else Inr g1)"

text \<open>The character behind \<^verbatim>\<open>Connecting\<close> that turns with the clock is left out.\<close>

definition draw_text :: "'g ui \<Rightarrow> 'g gui \<Rightarrow> 'g gui" where
  "draw_text U g =
     (let (pressed, g1) = ui_call (ui_button U (if lm_login_state g then ascii ''Already have a key? Enter it!''
                                                 else ascii (''Don'' @ [CHR 0x27] @ ''t have a key? Create one!''))) g;
          g2 = (if pressed then g1\<lparr>lm_login_state := \<not> lm_login_state g1\<rparr> else g1)
      in ui_do (ui_text U (case lm_state g2 of
           NETWORK_ERROR \<Rightarrow> Some (lm_error g2)
         | CONNECTING \<Rightarrow> Some (ascii ''Connecting '')
         | IDLE \<Rightarrow> Some (ascii '' ''))) g2)"

definition net_check :: "'g gui \<Rightarrow> 'g gui" where
  "net_check g =
     (case nw_state (g_net g) of
        INIT_ERROR \<Rightarrow> g\<lparr>lm_state := NETWORK_ERROR, lm_error := ascii ''Network failed to initiate...''\<rparr>
      | NET_ERROR \<Rightarrow> g\<lparr>lm_state := NETWORK_ERROR, lm_error := ascii ''Network failed to initiate...''\<rparr>
      | SESSION_ERROR \<Rightarrow> g\<lparr>lm_state := NETWORK_ERROR, lm_error := ascii ''Session ID is NOT valid...''\<rparr>
      | CONNECTED \<Rightarrow> g\<lparr>lm_state := CONNECTING, lm_error := ascii ''Conecting...''\<rparr>
      | OPENED \<Rightarrow> g\<lparr>lm_state := CONNECTING, lm_error := ascii ''Conecting...''\<rparr>
      | SESSION_SUCCESS \<Rightarrow> set_appstate MAIN_MENU g
      | UNINITIALIZED \<Rightarrow> g)"

definition login_inner :: "'g ui \<Rightarrow> 'g gui \<Rightarrow> fault + 'g gui" where
  "login_inner U g = bindE (draw_enter U (draw_key U (ui_do (ui_text U (Some (ascii ''Enter a session key'')))
       (ui_do (ui_text U (Some (ascii ''Welcome to Quickshare''))) g)))) (\<lambda>g1. Inr (net_check (draw_text U g1)))"

definition login_draw :: "'g ui \<Rightarrow> 'g gui \<Rightarrow> fault + 'g gui" where
  "login_draw U g =
     (let (opened, g1) = ui_call (ui_begin U (ascii ''Login_Menu'')) g
      in if opened then login_inner U g1 else Inr g1)"

section \<open>The frame\<close>

text \<open>The start: the constructors of \<^verbatim>\<open>Context\<close> and its menus, on zeroed static memory.\<close>

definition Context_new :: "bytes \<Rightarrow> network \<Rightarrow> 'g \<Rightarrow> 'g gui" where
  "Context_new name s v = login_clean \<lparr>g_world = v, g_net = s, cx_window = 0, app_state = LOGIN, pc_name = name,
     mm_path_label = ascii ''Path###Path'', mm_file_path = None, mm_user_list = [], mm_transfer_list = [],
     lm_key = [], lm_login_state = False, lm_state = IDLE, lm_error = []\<rparr>"

text \<open>The error of the context is always the empty string, and the button has no effect.\<close>

definition error_window :: "'g ui \<Rightarrow> 'g gui \<Rightarrow> 'g gui" where
  "error_window U g =
     snd (ui_call (ui_button U (ascii ''Return''))
       (ui_do (ui_text U (Some (ascii (''Error occured... '' @ [CHR 0x27, CHR 0x27])))) g))"

text \<open>
  The body of the loop of \<^verbatim>\<open>Context::main_loop\<close>: \<open>ui_new_frame\<close> stands for polling the events, the new frame
  and \<^verbatim>\<open>menu_bar\<close>, which only edits the background colour; \<open>ui_render\<close> for the demo window and \<^verbatim>\<open>render\<close>.
\<close>

definition gui_frame :: "'g ui \<Rightarrow> 'g gui \<Rightarrow> fault + 'g gui" where
  "gui_frame U g =
     (let g1 = ui_do (ui_new_frame U) g
      in bindE (case app_state g1 of
                  ERROR_WINDOW \<Rightarrow> Inr (error_window U g1)
                | LOGIN \<Rightarrow> login_draw U g1
                | MAIN_MENU \<Rightarrow> main_draw U g1
                | CLOSE \<Rightarrow> Inr g1) (\<lambda>g2. Inr (ui_do (ui_render U) g2)))"

end
