(* ===== verification/Client_Start.thy ===== *)
theory Client_Start
  imports User_Interface
begin

text \<open>
  The start of the client, \<^verbatim>\<open>src/quickshare.cpp\<close> with the window of \<^verbatim>\<open>src/context.cpp\<close>, and the network
  thread as a machine that makes one turn of its loops at a time.
\<close>

section \<open>The window\<close>

text \<open>
  The calls that make and close the window. \<^verbatim>\<open>stbi_load\<close> returns the address of the pixels;
  \<open>init_gui\<close> stands for the calls of \<^verbatim>\<open>init_imgui\<close>, which get the window and the version string.
\<close>

datatype window_hint = GLFW_CONTEXT_VERSION_MAJOR | GLFW_CONTEXT_VERSION_MINOR

record 'g windows =
  glfwSetErrorCallback :: "'g \<Rightarrow> 'g"
  glfwInit :: "'g \<Rightarrow> bool \<times> 'g"
  glfwWindowHint :: "window_hint \<Rightarrow> nat \<Rightarrow> 'g \<Rightarrow> 'g"
  glfwCreateWindow :: "nat \<Rightarrow> nat \<Rightarrow> string \<Rightarrow> 'g \<Rightarrow> u64 \<times> 'g"
  stbi_load :: "string \<Rightarrow> 'g \<Rightarrow> u64 \<times> 'g"
  glfwSetWindowIcon :: "u64 \<Rightarrow> u64 \<Rightarrow> 'g \<Rightarrow> 'g"
  stbi_image_free :: "u64 \<Rightarrow> 'g \<Rightarrow> 'g"
  glfwMakeContextCurrent :: "u64 \<Rightarrow> 'g \<Rightarrow> 'g"
  glfwSwapInterval :: "nat \<Rightarrow> 'g \<Rightarrow> 'g"
  init_gui :: "u64 \<Rightarrow> string \<Rightarrow> 'g \<Rightarrow> 'g"
  glfwWindowShouldClose :: "u64 \<Rightarrow> 'g \<Rightarrow> bool"
  gui_shutdown :: "'g \<Rightarrow> 'g"
  glfwDestroyWindow :: "u64 \<Rightarrow> 'g \<Rightarrow> 'g"
  glfwTerminate :: "'g \<Rightarrow> 'g"

definition load_icon :: "'g windows \<Rightarrow> 'g gui \<Rightarrow> bool \<times> 'g gui" where
  "load_icon W g =
     (let (pixels, g1) = ui_call (stbi_load W ''../images/logo.png'') g
      in if pixels = 0 then (False, g1)
         else (True, ui_do (stbi_image_free W pixels) (ui_do (glfwSetWindowIcon W (cx_window g1) pixels) g1)))"

definition create_window :: "'g windows \<Rightarrow> nat \<Rightarrow> nat \<Rightarrow> string \<Rightarrow> 'g gui \<Rightarrow> bool \<times> 'g gui" where
  "create_window W width height name g =
     (let (ok, g1) = ui_call (glfwInit W) (ui_do (glfwSetErrorCallback W) g)
      in if \<not> ok then (False, g1)
         else let g2 = ui_do (glfwWindowHint W GLFW_CONTEXT_VERSION_MINOR 0)
                         (ui_do (glfwWindowHint W GLFW_CONTEXT_VERSION_MAJOR 3) g1);
                  (win, g3) = ui_call (glfwCreateWindow W width height name) g2; g4 = g3\<lparr>cx_window := win\<rparr>
              in if win = 0 then (False, g4)
                 else let (icon, g5) = load_icon W g4
                      in if \<not> icon then (False, g5)
                         else (True, ui_do (glfwSwapInterval W 1) (ui_do (glfwMakeContextCurrent W (cx_window g5)) g5)))"

definition init_imgui :: "'g windows \<Rightarrow> 'g gui \<Rightarrow> 'g gui" where
  "init_imgui W g = ui_do (init_gui W (cx_window g) ''#version 130'') g"

definition cleanup :: "'g windows \<Rightarrow> 'g gui \<Rightarrow> 'g gui" where
  "cleanup W g = ui_do (glfwTerminate W) (ui_do (glfwDestroyWindow W (cx_window g)) (ui_do (gui_shutdown W) g))"

text \<open>The loop of the windows, for \<open>k\<close> frames at most: the user decides when it ends.\<close>

fun main_loop :: "'g windows \<Rightarrow> 'g ui \<Rightarrow> nat \<Rightarrow> 'g gui \<Rightarrow> fault + 'g gui" where
  "main_loop W U k g =
     (if glfwWindowShouldClose W (cx_window g) (g_world g) then Inr (cleanup W (g\<lparr>app_state := CLOSE\<rparr>))
      else case k of 0 \<Rightarrow> Inl Out_Of_Fuel | Suc j \<Rightarrow> bindE (gui_frame U g) (main_loop W U j))"

declare main_loop.simps [simp del]

section \<open>The program\<close>

text \<open>
  The static objects before their constructors run: zeroed memory. The pointers to the two packets
  are NULL, which is the empty string of bytes.
\<close>

definition zero_lf :: "'a lf_queue" where
  "zero_lf = \<lparr>capacityMask = 0, lf_capacity = 0, nodes = [], lf_tail = 0, lf_head = 0\<rparr>"

definition zero_network :: "memory_pool \<Rightarrow> network" where
  "zero_network pool = \<lparr>nw_sock = 0, nw_want_write = False, nw_state = UNINITIALIZED, nw_queue = zero_lf,
     nw_rbuf = \<lparr>pb_packet = [], pb_len = 0, pb_size = 0\<rparr>, nw_wbuf = \<lparr>pb_packet = [], pb_len = 0, pb_size = 0\<rparr>,
     nw_ssl_ctx = 0, nw_ssl = 0, nw_pool = pool,
     nw_threads = \<lparr>th_active = replicate MAX_THREAD_NUMBER False, th_num = 0\<rparr>,
     nw_tm = \<lparr>backlog = [], dirty = False, client_transfer_ids = 0, cmd_queue = zero_lf, recv_transfers = [],
       host_transfers = []\<rparr>, nw_users = User_List_new\<rparr>"

text \<open>
  The singletons that \<^verbatim>\<open>main\<close> makes first, in its order. \<open>ns\<close>, \<open>nc\<close> are the sizes of the nodes of the two
  queues, \<open>raw_s\<close>, \<open>raw_c\<close>, \<open>raw_t\<close> and \<open>mem\<close> what the memory of the objects holds, \<open>name\<close> what \<^verbatim>\<open>getlogin_r\<close> leaves in
  the name.
\<close>

record start_memory =
  sm_ns :: u64
  sm_nc :: u64
  sm_s :: "nat \<Rightarrow> session_msg"
  sm_c :: "nat \<Rightarrow> transfer_cmd"
  sm_t :: "nat \<Rightarrow> active_transfer"
  sm_mem :: "u64 \<Rightarrow> nat \<Rightarrow> bytes"

definition instances :: "start_memory \<Rightarrow> bytes \<Rightarrow> memory_pool \<Rightarrow> 'g \<Rightarrow> fault + 'g gui" where
  "instances M name pool v =
     bindE (Network_new (sm_ns M) (sm_s M) (zero_network pool)) (\<lambda>s.
     bindE (Transfer_Manager_new (sm_mem M) (sm_nc M) (sm_c M) (sm_t M) (nw_pool s)) (\<lambda>(tm, pool1).
       Inr (Context_new name (s\<lparr>nw_users := User_List_new, nw_tm := tm, nw_pool := pool1\<rparr>) v)))"

definition Quickshare_main :: "'g windows \<Rightarrow> 'g ui \<Rightarrow> nat \<Rightarrow> 'g gui \<Rightarrow> fault + 'g gui" where
  "Quickshare_main W U k g =
     (let (ok, g1) = create_window W 600 600 ''Quickshare'' g
      in if \<not> ok then Inr g1
         else bindE (main_loop W U k (init_imgui W g1)) (\<lambda>g2.
              Inr (g2\<lparr>g_net := (g_net g2)\<lparr>nw_threads := close_all (nw_threads (g_net g2))\<rparr>\<rparr>)))"

text \<open>\<^verbatim>\<open>main\<close>; \<open>None\<close> when the pool cannot be made.\<close>

definition quickshare :: "(u64 \<Rightarrow> u64) \<Rightarrow> memory_pool \<Rightarrow> start_memory \<Rightarrow> bytes \<Rightarrow> 'g windows \<Rightarrow> 'g ui \<Rightarrow> nat \<Rightarrow> 'g \<Rightarrow>
    fault + 'g gui option" where
  "quickshare malloc pool0 M name W U k v =
     (let (ok, pool) = mem_pool_init malloc MEM_POOL_SIZE pool0
      in if \<not> ok then Inr None
         else bindE (instances M name pool v) (\<lambda>g. bindE (Quickshare_main W U k g) (\<lambda>g1. Inr (Some g1))))"

section \<open>The network thread\<close>

text \<open>Where the thread is: a turn of \<^verbatim>\<open>init_conn\<close> or of \<^verbatim>\<open>handle\<close>, or between them.\<close>

datatype phase = No_Thread | Starting | Connecting conn_state | Handling | Leaving | Stopped

text \<open>One turn of the loop of \<^verbatim>\<open>init_conn\<close>: the state it goes on in, or what it returns.\<close>

definition conn_turn :: "'w cenv \<Rightarrow> nat \<Rightarrow> conn_state \<Rightarrow> network \<Rightarrow> 'w \<Rightarrow> fault + ((bool + conn_state) \<times> network \<times> 'w)" where
  "conn_turn E n st s w =
     (case st of
        C_INIT \<Rightarrow>
          let (h, w1) = c_SSL_new E (nw_ssl_ctx s) w; s1 = s\<lparr>nw_ssl := h\<rparr> in
          if h = 0 then Inr (Inl False, s1\<lparr>nw_state := INIT_ERROR\<rparr>, w1)
          else Inr (Inr C_TCP_CONNECT, s1, c_SSL_set_fd E h (nw_sock s1) w1)
      | C_TCP_CONNECT \<Rightarrow>
          let (ok, w1) = tcp_connect E s w in
          if ok then Inr (Inr C_TLS_CONNECT, s, w1) else Inr (Inr C_TCP_CONNECT, s, c_sleep E w1)
      | C_TLS_CONNECT \<Rightarrow>
          bindE (tls_connect E n s w) (\<lambda>(ok, w1).
            Inr (if ok then (Inl True, s\<lparr>nw_state := CONNECTED\<rparr>, w1) else (Inr C_ERROR, s, w1)))
      | C_ERROR \<Rightarrow> Inr (Inr C_INIT, s\<lparr>nw_ssl := 0\<rparr>, c_sleep E (c_SSL_free E (nw_ssl s) w)))"

fun thread_turn :: "'w cenv \<Rightarrow> (u64 \<Rightarrow> nat \<Rightarrow> bytes) \<Rightarrow> nat \<Rightarrow> phase \<Rightarrow> network \<Rightarrow> 'w \<Rightarrow> fault + (phase \<times> network \<times> 'w)" where
  "thread_turn E mem n No_Thread s w = Inr (if th_num (nw_threads s) = 0 then No_Thread else Starting, s, w)"
| "thread_turn E mem n Starting s w =
     (if \<not> c_active E w then Inr (Stopped, s, w)
      else let (ok, s1, w1) = init E mem s w in Inr (if ok then Connecting C_INIT else Stopped, s1, w1))"
| "thread_turn E mem n (Connecting st) s w =
     (if \<not> c_active E w then Inr (Handling, s\<lparr>nw_want_write := False\<rparr>, w)
      else bindE (conn_turn E n st s w) (\<lambda>(r, s1, w1). Inr
        (case r of
           Inl rdy \<Rightarrow> if rdy then (Handling, s1\<lparr>nw_want_write := False\<rparr>, w1) else (Leaving, s1, w1)
         | Inr st1 \<Rightarrow> (Connecting st1, s1, w1))))"
| "thread_turn E mem n Handling s w =
     (if \<not> c_active E w then Inr (Leaving, s, w)
      else bindE (handle_turn E n s w) (\<lambda>(go, s1, w1). Inr (if go then Handling else Leaving, s1, w1)))"
| "thread_turn E mem n Leaving s w =
     (if nw_state s = NET_ERROR then Inr (Stopped, s, w)
      else let (s1, w1) = clean E s w in Inr (Starting, s1, w1))"
| "thread_turn E mem n Stopped s w = Inr (Stopped, s, w)"

end
