(* ===== verification/Interface_Properties.thy ===== *)
theory Interface_Properties
  imports User_Interface
begin

text \<open>
  What the windows do to the rest of the client: every frame is a sequence of the calls \<open>ui_step\<close>
  allows between the turns of the network thread, and while few members are listed it stays within
  the defined behaviour. So the invariants of the network hold for the program with its windows.
\<close>

section \<open>The contract of the window library\<close>

text \<open>
  The input field returns a C string in its 16 bytes. \<open>ui_raw\<close> and \<open>ui_raw_session\<close> are arrays of the sizes
  declared.
\<close>

locale window_library =
  fixes U :: "'g ui"
  assumes input_string: "ui_input U k v = (k1, v1) \<Longrightarrow> length k = 16 \<Longrightarrow> length k1 = 16 \<and> 0 \<in> set k1"
    and raw_length: "length (ui_raw U v) = 2 * FILE_NAME_LEN"
    and raw_session_length: "length (s_name (ui_raw_session U v)) = PC_NAME_MAX_LEN"
      "length (s_id (ui_raw_session U v)) = SESSION_ID_MAX_LEN"

section \<open>Well-formed interfaces\<close>

definition gui_ok :: "'g gui \<Rightarrow> bool" where
  "gui_ok g \<longleftrightarrow> length (pc_name g) = PC_NAME_MAX_LEN \<and> length (lm_key g) = 16 \<and> 0 \<in> set (lm_key g) \<and>
     (\<forall>p. mm_file_path g = Some p \<longrightarrow> 0 \<notin> set p)"

text \<open>At most six other members, whose names end inside their 16 bytes.\<close>

definition few_members :: "'g gui \<Rightarrow> bool" where
  "few_members g \<longleftrightarrow> (\<forall>us \<in> {mm_user_list g, user_vec (nw_users (g_net g))}. length us \<le> TRANSFER_CLIENTS_MAX \<and>
     (\<forall>u \<in> set us. length (u_name u) = PC_NAME_MAX_LEN \<and> 0 \<in> set (u_name u)))"

definition six_transfers :: "'g gui \<Rightarrow> bool" where
  "six_transfers g \<longleftrightarrow> length (host_transfers (nw_tm (g_net g))) = 6 \<and> length (recv_transfers (nw_tm (g_net g))) = 6"

text \<open>\<open>good df g\<close>: a state from which a frame keeps the interface well formed, and with \<open>df\<close> is defined.\<close>

definition good :: "bool \<Rightarrow> 'g gui \<Rightarrow> bool" where
  "good df g \<longleftrightarrow> gui_ok g \<and> (df \<longrightarrow> few_members g \<and> six_transfers g)"

lemmas good_defs = good_def gui_ok_def few_members_def six_transfers_def

definition leads :: "'g gui \<Rightarrow> 'g gui \<Rightarrow> bool" where
  "leads g g1 \<longleftrightarrow> ui_step\<^sup>*\<^sup>* (g_net g) (g_net g1)"

definition reaches :: "bool \<Rightarrow> 'g gui \<Rightarrow> 'g gui \<Rightarrow> bool" where
  "reaches df g g1 \<longleftrightarrow> leads g g1 \<and> good df g1"

lemma leads_refl [simp]: "g_net g1 = g_net g \<Longrightarrow> leads g g1"
  by (simp add: leads_def)

lemma leads_step: "ui_step (g_net g) (g_net g1) \<Longrightarrow> leads g g1"
  by (simp add: leads_def r_into_rtranclp)

lemma leads_trans: "leads g g1 \<Longrightarrow> leads g1 g2 \<Longrightarrow> leads g g2"
  unfolding leads_def by (blast intro: rtranclp_trans)

lemma reaches_trans: "reaches df g g1 \<Longrightarrow> reaches df g1 g2 \<Longrightarrow> reaches df g g2"
  unfolding reaches_def by (blast intro: leads_trans)

lemma reaches_good: "reaches df g g1 \<Longrightarrow> good df g1"
  by (simp add: reaches_def)

lemma reaches_same:
  "good df g \<Longrightarrow> g_net g1 = g_net g \<Longrightarrow> pc_name g1 = pc_name g \<Longrightarrow> lm_key g1 = lm_key g \<Longrightarrow>
   mm_file_path g1 = mm_file_path g \<Longrightarrow> mm_user_list g1 = mm_user_list g \<Longrightarrow> reaches df g g1"
  by (simp add: reaches_def good_defs)

lemma reaches_bind:
  assumes "keepsE df (reaches df g) m" "\<And>g1. good df g1 \<Longrightarrow> keepsE df (reaches df g1) (k g1)"
  shows "keepsE df (reaches df g) (bindE m k)"
  using assms(1) by (rule keepsE_bind) (blast intro: keepsE_mono [OF assms(2)] reaches_trans dest: reaches_good)

text \<open>A call of the library changes nothing but the world.\<close>

lemma ui_call_eq: "ui_call f g = (x, g1) \<Longrightarrow> \<exists>v v1. f v = (x, v1) \<and> g1 = g\<lparr>g_world := v1\<rparr>"
  by (auto simp: ui_call_def split: prod.splits)

lemma ui_do_simps [simp]:
  "g_net (ui_do f g) = g_net g" "mm_user_list (ui_do f g) = mm_user_list g" "pc_name (ui_do f g) = pc_name g"
  "lm_key (ui_do f g) = lm_key g" "mm_file_path (ui_do f g) = mm_file_path g" "lm_login_state (ui_do f g) = lm_login_state g"
  "mm_transfer_list (ui_do f g) = mm_transfer_list g" "app_state (ui_do f g) = app_state g"
  by (simp_all add: ui_do_def)

lemma world_good [simp]: "good df (g\<lparr>g_world := v\<rparr>) = good df g" "good df (ui_do f g) = good df g"
  by (simp_all add: good_defs ui_do_def)

lemma reaches_world [simp]:
  "reaches df (g\<lparr>g_world := v\<rparr>) = reaches df g" "reaches df (ui_do f g) = reaches df g"
  "reaches df g (g1\<lparr>g_world := v\<rparr>) = reaches df g g1" "reaches df g (ui_do f g1) = reaches df g g1"
  by (auto simp: reaches_def leads_def fun_eq_iff)

lemma reaches_refl: "good df g \<Longrightarrow> reaches df g g"
  by (rule reaches_same) simp_all

text \<open>A call of the library, for any continuation.\<close>

lemma ui_call_reaches: "ui_call f g1 = (x, g2) \<Longrightarrow> reaches df g g2 = reaches df g g1"
  using ui_call_eq [of f g1 x g2] by auto

lemma keeps_call_from:
  assumes "reaches df g0 g" "\<And>x g1. reaches df g0 g1 \<Longrightarrow> keepsE df (reaches df g0) (k x g1)"
  shows "keepsE df (reaches df g0) (case ui_call f g of (x, g1) \<Rightarrow> k x g1)"
proof -
  obtain x g1 where 1: "ui_call f g = (x, g1)" by force
  from ui_call_eq [OF this] obtain v1 where "g1 = g\<lparr>g_world := v1\<rparr>" by blast
  then show ?thesis using 1 assms by simp
qed

section \<open>The operations\<close>

lemma send_cmd_reaches:
  assumes "good df g" "cmd_ok c" "send_cmd c g = (ok, g1)"
  shows "reaches df g g1"
proof -
  obtain q where q: "push c (cmd_queue (nw_tm (g_net g))) = (ok, q)"
    "g1 = g\<lparr>g_net := (g_net g)\<lparr>nw_tm := (nw_tm (g_net g))\<lparr>cmd_queue := q\<rparr>\<rparr>\<rparr>"
    using assms(3) by (auto simp: send_cmd_def split: prod.splits)
  have "leads g g1" using command [OF assms(2) q(1)] q(2) by (intro leads_step) simp
  moreover have "good df g1" using assms(1) q(2) by (simp add: good_defs)
  ultimately show ?thesis by (simp add: reaches_def)
qed

lemma cancel_transfer_reaches:
  assumes "good df g"
  shows "keepsE df (reaches df g) (cancel_transfer t g)"
proof -
  obtain ok g1 where c: "send_cmd (Cmd_Cancel (h_t_id (at_hdr t))) g = (ok, g1)" by force
  with send_cmd_reaches [OF assms _ c] show ?thesis by (cases ok) (auto simp: cancel_transfer_def)
qed

lemma copy_data_reaches:
  assumes "good df g"
  shows "reaches df g (copy_data U g)"
proof -
  obtain l1 g1 where 1: "(if ul_dirty (nw_users (g_net g)) then ui_call (ui_try_lock U) g else (False, g)) = (l1, g1)"
    by force
  then have g1: "\<exists>v. g1 = g\<lparr>g_world := v\<rparr>" using ui_call_eq [of "ui_try_lock U" g l1 g1]
    by (cases g) (auto split: if_splits)
  obtain users ul where 2: "copy_users l1 (mm_user_list g1) (nw_users (g_net g1)) = (users, ul)" by force
  define g2 where "g2 = g1\<lparr>mm_user_list := users, g_net := (g_net g1)\<lparr>nw_users := ul\<rparr>\<rparr>"
  obtain l2 g3 where 3: "(if dirty (nw_tm (g_net g2)) then ui_call (ui_try_lock U) g2 else (False, g2)) = (l2, g3)"
    by force
  then have g3: "\<exists>v. g3 = g2\<lparr>g_world := v\<rparr>" using ui_call_eq [of "ui_try_lock U" g2 l2 g3]
    by (cases g2) (auto split: if_splits)
  obtain tl tm where 4: "copy_backlog l2 (mm_transfer_list g3) (nw_tm (g_net g3)) = (tl, tm)" by force
  have run: "copy_data U g = g3\<lparr>mm_transfer_list := tl, g_net := (g_net g3)\<lparr>nw_tm := tm\<rparr>\<rparr>"
    by (simp only: copy_data_def Let_def 1 2 3 [unfolded g2_def] 4 prod.case)
  have "leads g1 g2" using show_users [OF 2] by (intro leads_step) (simp add: g2_def)
  moreover have "leads g3 (copy_data U g)" using show_backlog [OF 4] run by (intro leads_step) simp
  moreover have "leads g g1" "leads g2 g3" using g1 g3 by auto
  ultimately have l: "leads g (copy_data U g)" by (blast intro: leads_trans)
  have "few_members (copy_data U g)" if "few_members g"
    using that g1 g3 2 unfolding run by (auto simp: few_members_def g2_def copy_users_def split: if_splits)
  moreover have "six_transfers (copy_data U g)" if "six_transfers g"
    using that g1 g3 4 unfolding run by (auto simp: six_transfers_def g2_def copy_backlog_def split: if_splits)
  moreover have "gui_ok (copy_data U g)" if "gui_ok g"
    using that g1 g3 unfolding run by (auto simp: gui_ok_def g2_def)
  ultimately show ?thesis using assms l by (simp add: reaches_def good_def)
qed

lemma sprintf_defined: "length text < n \<Longrightarrow> sprintf_to n text = Inr text"
  by (simp add: sprintf_to_def)

lemma keeps_sprintf:
  "(df \<Longrightarrow> length text < n) \<Longrightarrow> keepsE df P (k text) \<Longrightarrow> keepsE df P (bindE (sprintf_to n text) k)"
  by (auto simp: sprintf_to_def)

lemma cstr_no_zero: "0 \<notin> set (cstr bs)" "length (cstr bs) \<le> length bs" "0 \<in> set bs \<Longrightarrow> length (cstr bs) < length bs"
proof -
  show "0 \<notin> set (cstr bs)" by (auto simp: cstr_def dest: set_takeWhileD)
  show "length (cstr bs) \<le> length bs" by (simp add: cstr_def length_takeWhile_le)
  show "0 \<in> set bs \<Longrightarrow> length (cstr bs) < length bs" by (induction bs) (auto simp: cstr_def)
qed

context window_library
begin

lemma draw_path_reaches:
  assumes "good df g"
  shows "keepsE df (reaches df g) (draw_path U g)"
proof -
  have "keepsE df (reaches df g) (case path of None \<Rightarrow> Inr g1
      | Some p \<Rightarrow> bindE (sprintf_to 64 (take (64 - 8) (cstr p) @ ascii ''###Path'')) (\<lambda>label.
          Inr (g1\<lparr>mm_path_label := label, mm_file_path := Some (cstr p)\<rparr>)))"
    if "reaches df g g0" "ui_call (ui_open_dialog U) g0 = (path, g1)" for path g0 g1
  proof -
    from ui_call_eq [OF that(2)] obtain v v1 where v: "ui_open_dialog U v = (path, v1)" "g1 = g0\<lparr>g_world := v1\<rparr>" by blast
    have "reaches df g g1" "good df g1" using that(1) reaches_good [OF that(1)] v(2) by simp_all
    then show ?thesis
      using cstr_no_zero(1)
      by (cases path) (auto simp: reaches_def good_defs leads_def ascii_def intro!: keeps_sprintf)
  qed
  then show ?thesis
    unfolding draw_path_def Let_def
    by (intro keeps_call_from [where g = g]) (auto simp: assms reaches_refl split: prod.splits)
qed

lemma render_request_reaches:
  "good df g \<Longrightarrow> keepsE df (reaches df g) (render_request U ts g)"
proof (induction ts arbitrary: g)
  case Nil
  then show ?case by (simp add: reaches_refl)
next
  case (Cons t ts)
  let ?name = "get_client_name (h_from (at_hdr t)) (mm_user_list g)"
  have rest: "keepsE df (reaches df g) (render_request U ts g1)" if "reaches df g g1" for g1
    by (rule keepsE_mono [OF Cons.IH [OF reaches_good [OF that]]]) (rule reaches_trans [OF that])
  have body: "keepsE df (reaches df g)
      (let g1 = ui_do (ui_text U (Some (path_filename (at_file t)))) (ui_do (ui_text U name) g);
           (accept_btn, g2) = ui_call (ui_button U (ascii ''Accept'')) g1;
           (deny_btn, g3) = ui_call (ui_button U (ascii ''Deny'')) g2;
           g4 = (if accept_btn \<or> deny_btn then snd (send_cmd (Cmd_Reply (h_t_id (at_hdr t)) accept_btn) g3) else g3)
       in render_request U ts g4)" for name
  proof -
    have last: "keepsE df (reaches df g) (render_request U ts
        (if b then snd (send_cmd (Cmd_Reply i a) g3) else g3))" if "reaches df g g3" for a b i g3
    proof (rule rest)
      obtain ok g4 where "send_cmd (Cmd_Reply i a) g3 = (ok, g4)" by force
      with send_cmd_reaches [OF reaches_good [OF that] _ this] that
      show "reaches df g (if b then snd (send_cmd (Cmd_Reply i a) g3) else g3)"
        by (auto intro: reaches_trans)
    qed
    show ?thesis unfolding Let_def
      by (rule keeps_call_from, simp add: reaches_refl [OF Cons.prems], rule keeps_call_from, assumption, rule last, assumption)
  qed
  have "df \<Longrightarrow> read_name ?name \<noteq> Inl Undefined"
    using Cons.prems by (auto simp: read_name_def get_client_name_def good_def few_members_def dest!: find_ix_Some split: option.splits)
  then show ?case using body rest [OF reaches_refl [OF Cons.prems]]
    by (auto simp: read_name_def split: option.splits)
qed

lemma draw_request_reaches:
  "good df g \<Longrightarrow> keepsE df (reaches df g) (draw_request U g)"
  unfolding draw_request_def Let_def
  by (rule keeps_call_from)
    (auto simp: reaches_refl intro: keepsE_mono [OF render_request_reaches] reaches_trans dest: reaches_good)

end

lemma render_backlog_reaches: "good df g \<Longrightarrow> reaches df g (render_backlog U xs g)"
  by (induction U xs g rule: render_backlog.induct) (auto simp: reaches_refl)

lemma draw_backlog_reaches: "good df g \<Longrightarrow> reaches df g (draw_backlog U g)"
proof -
  assume g: "good df g"
  obtain b g1 where 1: "ui_call (ui_begin U (ascii ''##Backlog'')) (ui_do (ui_text U (Some (ascii ''Backlog''))) g) = (b, g1)"
    by force
  then have r: "reaches df g g1" using reaches_refl [OF g] by (simp add: ui_call_reaches)
  show ?thesis
    using reaches_trans [OF r render_backlog_reaches [OF reaches_good [OF r]]] r 1
    by (simp add: draw_backlog_def)
qed

lemma decimal_short: "n < 100 \<Longrightarrow> length (decimal n) \<le> 2"
  using decimal.simps [of n] decimal.simps [of "n div 10"] by auto

lemma show_state_reaches: "reaches df g (show_state U t g1) = reaches df g g1"
  by (simp add: show_state_def Let_def split: option.split)

lemma session_loop_reaches:
  "good df g \<Longrightarrow> (df \<Longrightarrow> count + length ts < 100) \<Longrightarrow> keepsE df (reaches df g) (session_loop U recv ts count g)"
proof (induction ts arbitrary: g count)
  case Nil
  then show ?case by (simp add: reaches_refl)
next
  case (Cons t ts)
  have rest: "keepsE df (reaches df g) (session_loop U recv ts c g1)"
    if "reaches df g g1" "c \<le> count + 1" for g1 c
    using that Cons.prems(2)
    by (intro keepsE_mono [OF Cons.IH [OF reaches_good [OF that(1)]]] reaches_trans [OF that(1)]) auto
  have pressed: "keepsE df (reaches df g) (bindE (if b then cancel_transfer t g2 else Inr g2) (\<lambda>g3.
      session_loop U recv ts (count + 1) (show_state U t g3)))" if "reaches df g g2" for b g2
  proof (rule keepsE_bind [where P = "reaches df g"])
    show "keepsE df (reaches df g) (if b then cancel_transfer t g2 else Inr g2)"
      using that keepsE_mono [OF cancel_transfer_reaches [OF reaches_good [OF that]] reaches_trans [OF that]] by auto
  qed (simp add: rest show_state_reaches)
  have "keepsE df (reaches df g) (bindE (sprintf_to 32 (ascii ''Cancel##'' @ decimal count)) (\<lambda>btn_name.
      case ui_call (ui_button U btn_name) g1 of (pressed, g2) \<Rightarrow>
        bindE (if pressed then cancel_transfer t g2 else Inr g2) (\<lambda>g3.
          session_loop U recv ts (count + 1) (show_state U t g3))))" if "reaches df g g1" for g1
    using Cons.prems(2) decimal_short [of count]
    by (intro keeps_sprintf keeps_call_from pressed that) (auto simp: ascii_def)
  then show ?case
    using rest reaches_refl [OF Cons.prems(1)] by (simp add: Let_def show_state_reaches)
qed

context window_library
begin

lemma draw_session_reaches:
  assumes "good df g"
  shows "keepsE df (reaches df g) (draw_session U g)"
proof -
  have "keepsE df (reaches df g) (render_session U g1)" if "reaches df g g1" for g1
  proof -
    have 1: "df \<Longrightarrow> six_transfers g2" if "reaches df g g2" for g2
      using reaches_good [OF that] by (simp add: good_def)
    have loop: "keepsE df (reaches df g) (session_loop U recv ts 0 g2)"
      if "reaches df g g2" "df \<Longrightarrow> length ts = 6" for recv ts g2
      using that(2) by (intro keepsE_mono [OF session_loop_reaches [OF reaches_good [OF that(1)]]] reaches_trans [OF that(1)]) auto
    show ?thesis unfolding render_session_def
      using that 1 by (intro keepsE_bind [OF loop]) (auto simp: six_transfers_def intro!: loop)
  qed
  then show ?thesis unfolding draw_session_def Let_def
    by (intro keeps_call_from) (auto simp: reaches_refl [OF assms])
qed

lemma render_users_reaches:
  "(df \<Longrightarrow> (\<forall>u \<in> set us. length (u_name u) = PC_NAME_MAX_LEN \<and> 0 \<in> set (u_name u)) \<and> count + length us < 10) \<Longrightarrow>
   good df g \<Longrightarrow>
   keepsE df (\<lambda>(us1, g1). (\<exists>v. g1 = g\<lparr>g_world := v\<rparr>) \<and> map u_name us1 = map u_name us) (render_users U us count g)"
proof (induction us arbitrary: count g)
  case Nil
  show ?case by (cases g) auto
next
  case (Cons c cs)
  have name: "df \<Longrightarrow> 0 \<in> set (u_name c) \<and> length (cstr (u_name c)) < 16"
    using Cons.prems(1) cstr_no_zero(3) [of "u_name c"] by auto
  have dec: "df \<Longrightarrow> length (decimal count) = 1" using Cons.prems(1) by (simp add: decimal.simps)
  have "keepsE df (\<lambda>(us1, g2). (\<exists>v. g2 = g\<lparr>g_world := v\<rparr>) \<and> map u_name us1 = map u_name (c # cs))
      (bindE (render_users U cs (count + 1) (g\<lparr>g_world := v\<rparr>)) (\<lambda>(cs1, g2). Inr (c\<lparr>u_selected := sel\<rparr> # cs1, g2)))"
    for sel v
    using Cons.prems
    by (intro keepsE_bind [OF Cons.IH]) auto
  then have "keepsE df (\<lambda>(us1, g2). (\<exists>v. g2 = g\<lparr>g_world := v\<rparr>) \<and> map u_name us1 = map u_name (c # cs))
      (bindE (sprintf_to (PC_NAME_MAX_LEN + 4) (the (Some (cstr (u_name c))) @ ascii ''##'' @ decimal count)) (\<lambda>name.
        case ui_call (ui_selectable U name (u_selected c)) g of (sel, g1) \<Rightarrow>
          bindE (render_users U cs (count + 1) g1) (\<lambda>(cs1, g2). Inr (c\<lparr>u_selected := sel\<rparr> # cs1, g2))))"
    using name dec by (intro keeps_sprintf) (auto simp: ascii_def dest!: ui_call_eq split: prod.splits)
  then show ?case using name by (auto simp: read_name_def Let_def)
qed

end

text \<open>The ids of the selected users, in order.\<close>

definition selected_ids :: "user list \<Rightarrow> client_id list" where
  "selected_ids us = map u_id (filter u_selected us)"

definition ids_image :: "client_id list \<Rightarrow> bytes \<Rightarrow> bool" where
  "ids_image ids bs \<longleftrightarrow> length bs = 48 \<and> length ids \<le> 6 \<and> (\<forall>k < 6. get_u64 (8 * k) bs = (if k < length ids then ids ! k else 0))"

lemma fill_ids_spec:
  assumes "ids_image ids t_id"
  shows "(6 < length (ids @ selected_ids us) \<longrightarrow> fill_ids us (length ids) t_id = Inl Undefined) \<and>
    (length (ids @ selected_ids us) \<le> 6 \<longrightarrow>
      (\<exists>bs. fill_ids us (length ids) t_id = Inr (length (ids @ selected_ids us), bs) \<and> ids_image (ids @ selected_ids us) bs))"
  using assms
proof (induction us arbitrary: ids t_id)
  case (Cons u us)
  show ?case
  proof (cases "u_selected u")
    case sel: True
    show ?thesis
    proof (cases "length ids < 6")
      case True
      have "get_u64 (8 * k) (put_u64 (8 * length ids) (u_id u) t_id) =
          (if k < length (ids @ [u_id u]) then (ids @ [u_id u]) ! k else 0)" if "k < 6" for k
        using that True Cons.prems by (cases "k = length ids") (auto simp: ids_image_def byte_simps nth_append)
      then have "ids_image (ids @ [u_id u]) (put_u64 (8 * length ids) (u_id u) t_id)"
        using Cons.prems True by (simp add: ids_image_def byte_simps)
      note step = Cons.IH [OF this]
      have eq: "length (ids @ [u_id u]) = length ids + 1" "(ids @ [u_id u]) @ selected_ids us = ids @ selected_ids (u # us)"
        using sel by (simp_all add: selected_ids_def)
      have run: "fill_ids (u # us) (length ids) t_id =
          fill_ids us (length ids + 1) (put_u64 (8 * length ids) (u_id u) t_id)"
        using sel True by simp
      show ?thesis unfolding run by (rule step [unfolded eq])
    qed (use sel in \<open>simp add: selected_ids_def\<close>)
  next
    case False
    with Cons.IH [OF Cons.prems] show ?thesis by (simp add: selected_ids_def)
  qed
qed (auto simp: selected_ids_def ids_image_def)


lemma fill_ids_start:
  "6 < length (selected_ids us) \<Longrightarrow> fill_ids us 0 (replicate 48 0) = Inl Undefined"
  "length (selected_ids us) \<le> 6 \<Longrightarrow>
     \<exists>bs. fill_ids us 0 (replicate 48 0) = Inr (length (selected_ids us), bs) \<and> ids_image (selected_ids us) bs"
proof -
  have "get_u64 (8 * k) (replicate 48 0) = 0" if "k < 6" for k
  proof -
    have "get_bytes (8 * k) 8 (replicate 48 0) = replicate 8 (0 :: u8)" using that by (intro get_bytes_replicate) simp
    then show ?thesis by (simp add: get_u64_def eval_nat_numeral)
  qed
  then have "ids_image [] (replicate 48 0)" by (simp add: ids_image_def)
  from fill_ids_spec [OF this, of us]
  show "6 < length (selected_ids us) \<Longrightarrow> fill_ids us 0 (replicate 48 0) = Inl Undefined"
    "length (selected_ids us) \<le> 6 \<Longrightarrow>
       \<exists>bs. fill_ids us 0 (replicate 48 0) = Inr (length (selected_ids us), bs) \<and> ids_image (selected_ids us) bs"
    by auto
qed

lemma request_path:
  assumes "length raw = 2 * FILE_NAME_LEN" "0 \<notin> set path"
  shows "request_cmd raw path bs = Cmd_Request (put_bytes 0 (take 128 (path @ [0])) raw) bs"
    "cmd_ok (request_cmd raw path bs) = (length bs = 48)"
    "length path < 128 \<Longrightarrow> cstr (put_bytes 0 (take 128 (path @ [0])) raw) = path \<and> cmd_terminated (request_cmd raw path bs)"
    "\<not> length path < 128 \<Longrightarrow> put_bytes 0 (take 128 (path @ [0])) raw = take 128 path \<and> \<not> cmd_terminated (request_cmd raw path bs)"
proof -
  have c: "cstr path = path" using assms(2) by (auto simp: cstr_def takeWhile_eq_all_conv)
  have t: "take (min (length path + 1) 128) (path @ [0]) = take 128 (path @ [0])" by (simp add: min_def)
  show r: "request_cmd raw path bs = Cmd_Request (put_bytes 0 (take 128 (path @ [0])) raw) bs"
    unfolding request_cmd_def c using t by simp
  show "cmd_ok (request_cmd raw path bs) = (length bs = 48)"
    unfolding r using assms(1) by (simp add: length_put_bytes)
  show "cstr (put_bytes 0 (take 128 (path @ [0])) raw) = path \<and> cmd_terminated (request_cmd raw path bs)"
    if "length path < 128"
    unfolding r using that assms by (simp add: put_bytes_def cstr_append)
  show "put_bytes 0 (take 128 (path @ [0])) raw = take 128 path \<and> \<not> cmd_terminated (request_cmd raw path bs)"
    if "\<not> length path < 128"
    unfolding r using that assms by (auto simp: put_bytes_def dest: in_set_takeD)
qed

context window_library
begin

lemma menu_transfer_reaches:
  assumes "good df g"
  shows "keepsE df (reaches df g) (menu_transfer U g)"
proof -
  note fill = fill_ids_start [of "mm_user_list g"]
  have few: "df \<Longrightarrow> \<not> 6 < length (selected_ids (mm_user_list g))"
    using assms order_trans [OF length_filter_le [of u_selected "mm_user_list g"], of 6]
    by (simp add: good_def few_members_def selected_ids_def)
  show ?thesis
  proof (cases "6 < length (selected_ids (mm_user_list g))")
    case True
    with few fill(1) show ?thesis by (auto simp: menu_transfer_def)
  next
    case False
    with fill(2) obtain bs where bs: "fill_ids (mm_user_list g) 0 (replicate 48 0) =
        Inr (length (selected_ids (mm_user_list g)), bs)" "length bs = 48" by (auto simp: ids_image_def)
    have "keepsE df (reaches df g) (bindE (assertE ok) (\<lambda>_.
        Inr (g1\<lparr>mm_user_list := map (\<lambda>c. c\<lparr>u_selected := False\<rparr>) (mm_user_list g1)\<rparr>)))"
      if "mm_file_path g = Some path" "send_cmd (request_cmd (ui_raw U (g_world g)) path bs) g = (ok, g1)" for path ok g1
    proof -
      have path: "0 \<notin> set path" using assms that(1) by (auto simp: good_def gui_ok_def)
      have r: "reaches df g g1"
        using request_path(2) [OF raw_length path] bs(2) by (intro send_cmd_reaches [OF assms _ that(2)]) blast
      moreover have "good df (g1\<lparr>mm_user_list := map (\<lambda>c. c\<lparr>u_selected := False\<rparr>) (mm_user_list g1)\<rparr>)"
        using reaches_good [OF r] by (auto simp: good_defs)
      ultimately show ?thesis by (cases ok) (auto simp: reaches_def leads_def)
    qed
    then show ?thesis
      using bs(1) reaches_refl [OF assms] by (auto simp: menu_transfer_def split: option.split prod.split)
  qed
qed

lemma draw_users_reaches:
  assumes "good df g"
  shows "keepsE df (reaches df g) (draw_users U g)"
proof -
  have pressed: "keepsE df (reaches df g) (if b then menu_transfer U g1 else Inr g1)" if "reaches df g g1" for b g1
    using keepsE_mono [OF menu_transfer_reaches [OF reaches_good [OF that]] reaches_trans [OF that]] that by auto
  have shown: "keepsE df (reaches df g)
      (bindE (render_users U (mm_user_list g1) 0 g1) (\<lambda>(us, g2). Inr (g2\<lparr>mm_user_list := us\<rparr>)))" if r: "reaches df g g1" for g1
  proof (rule keepsE_bind)
    show "keepsE df (\<lambda>(us1, g2). (\<exists>v. g2 = g1\<lparr>g_world := v\<rparr>) \<and> map u_name us1 = map u_name (mm_user_list g1))
        (render_users U (mm_user_list g1) 0 g1)"
      using reaches_good [OF r] by (intro render_users_reaches) (auto simp: good_def few_members_def)
    fix x :: "user list \<times> 'g gui"
    assume "case x of (us1, g2) \<Rightarrow> (\<exists>v. g2 = g1\<lparr>g_world := v\<rparr>) \<and> map u_name us1 = map u_name (mm_user_list g1)"
    then obtain us1 v where x: "x = (us1, g1\<lparr>g_world := v\<rparr>)" "map u_name us1 = map u_name (mm_user_list g1)" by auto
    have "length us1 = length (mm_user_list g1)" "u_name ` set us1 = u_name ` set (mm_user_list g1)"
      using map_eq_imp_length_eq [OF x(2)] arg_cong [OF x(2), of set] by simp_all
    moreover from this(2) have "(\<forall>u \<in> set us1. Q (u_name u)) = (\<forall>u \<in> set (mm_user_list g1). Q (u_name u))" for Q
    proof -
      have "(\<forall>m \<in> u_name ` set us1. Q m) = (\<forall>m \<in> u_name ` set (mm_user_list g1). Q m)"
        using \<open>u_name ` set us1 = u_name ` set (mm_user_list g1)\<close> by simp
      then show ?thesis by simp
    qed
    note same = this [of "\<lambda>m. length m = PC_NAME_MAX_LEN \<and> 0 \<in> set m"]
    ultimately have "few_members (g1\<lparr>g_world := v, mm_user_list := us1\<rparr>)" if "few_members g1"
      using that same by (simp add: few_members_def)
    then have "good df (g1\<lparr>g_world := v, mm_user_list := us1\<rparr>)"
      using reaches_good [OF r] by (simp add: good_def gui_ok_def six_transfers_def)
    then show "keepsE df (reaches df g) (case x of (us, g2) \<Rightarrow> Inr (g2\<lparr>mm_user_list := us\<rparr>))"
      using r x by (simp add: reaches_def leads_def)
  qed
  show ?thesis unfolding draw_users_def Let_def
  proof (rule keeps_call_from)
    fix b g1 assume r: "reaches df g g1"
    show "keepsE df (reaches df g) (bindE (if b
        then bindE (render_users U (mm_user_list g1) 0 g1) (\<lambda>(us, g2). Inr (g2\<lparr>mm_user_list := us\<rparr>)) else Inr g1) (\<lambda>g3.
        case ui_call (ui_button U (ascii ''Send'')) g3 of (pressed, g4) \<Rightarrow> if pressed then menu_transfer U g4 else Inr g4))"
      by (rule keepsE_bind [where P = "reaches df g"])
        (use shown [OF r] r pressed in \<open>auto intro!: keeps_call_from\<close>)
  qed (simp add: reaches_refl [OF assms])
qed

lemma main_draw_reaches:
  assumes "good df g"
  shows "keepsE df (reaches df g) (main_draw U g)"
proof -
  have "keepsE df (reaches df g1)
      (bindE (draw_path U (copy_data U g1)) (\<lambda>g2. bindE (draw_request U g2) (draw_menus U)))" if "good df g1" for g1
  proof -
    have menus: "keepsE df (reaches df g2) (draw_menus U g2)" if "good df g2" for g2
    proof -
      note r = draw_backlog_reaches [OF that, of U]
      show ?thesis unfolding draw_menus_def
        by (rule keepsE_mono [OF reaches_bind [OF draw_session_reaches [OF reaches_good [OF r]] draw_users_reaches]
            reaches_trans [OF r]])
    qed
    note c = copy_data_reaches [OF that, of U]
    show ?thesis
      by (rule keepsE_mono [OF reaches_bind [OF draw_path_reaches [OF reaches_good [OF c]]
            reaches_bind [OF draw_request_reaches menus]] reaches_trans [OF c]])
  qed
  then have "keepsE df (reaches df g)
      (bindE (draw_path U (copy_data U g1)) (\<lambda>g2. bindE (draw_request U g2) (draw_menus U)))" if "reaches df g g1" for g1
    by (rule keepsE_mono [OF _ reaches_trans [OF that]]) (use that in \<open>rule reaches_good\<close>)
  then show ?thesis unfolding main_draw_def Let_def
    by (intro keeps_call_from) (auto simp: reaches_refl [OF assms])
qed

lemma login_button_reaches:
  assumes "good df g"
  shows "keepsE df (reaches df g) (login_button U g)"
proof (cases "session (ui_raw_session U (g_world g)) (pc_name g) (lm_key g) (lm_login_state g) (g_net g)")
  case (Inl e)
  have "Session_new (ui_raw_session U (g_world g)) (pc_name g) (lm_key g) (lm_login_state g) \<noteq> Inl Undefined"
    using assms raw_session_length [of "g_world g"]
    by (simp add: Session_new_def safe_strcpy_def good_def gui_ok_def length_put_bytes)
  with Inl have "e \<noteq> Undefined"
    by (auto simp: session_def start_network_def Let_def assertE_def bindE_def split: prod.splits if_splits sum.splits)
  with Inl reaches_refl [OF assms] show ?thesis by (simp add: login_button_def)
next
  case (Inr s)
  have "leads g (g\<lparr>g_net := s\<rparr>)"
    using new_session [OF raw_session_length Inr] by (intro leads_step) simp
  moreover have "good df (g\<lparr>g_net := s\<rparr>)"
  proof -
    have "nw_users s = nw_users (g_net g) \<and> nw_tm s = nw_tm (g_net g)"
      using Inr by (auto simp: session_def start_network_def Let_def split: prod.splits if_splits elim!: bindE_Inr_elim)
    then show ?thesis using assms by (simp add: good_defs)
  qed
  ultimately show ?thesis using Inr reaches_refl [OF assms] by (auto simp: login_button_def reaches_def)
qed

lemma draw_key_reaches:
  assumes "good df g"
  shows "reaches df g (draw_key U g)"
proof -
  obtain key g1 where 1: "ui_call (ui_input U (lm_key g)) (ui_do (ui_text U (Some (ascii ''Session Key''))) g) = (key, g1)"
    by force
  from ui_call_eq [OF this] obtain v v1 where "ui_input U (lm_key g) v = (key, v1)"
    "g1 = ui_do (ui_text U (Some (ascii ''Session Key''))) g\<lparr>g_world := v1\<rparr>" by blast
  moreover have "length (lm_key g) = 16" using assms by (simp add: good_def gui_ok_def)
  ultimately show ?thesis
    using 1 assms input_string by (auto simp: draw_key_def reaches_def leads_def good_defs)
qed

lemma draw_text_reaches:
  assumes "good df g"
  shows "reaches df g (draw_text U g)"
proof -
  let ?label = "if lm_login_state g then ascii ''Already have a key? Enter it!''
    else ascii (''Don'' @ [CHR 0x27] @ ''t have a key? Create one!'')"
  obtain b g1 where 1: "ui_call (ui_button U ?label) g = (b, g1)" by force
  from ui_call_eq [OF this] obtain v1 where "g1 = g\<lparr>g_world := v1\<rparr>" by blast
  then show ?thesis
    using 1 assms by (simp add: draw_text_def Let_def) (auto simp: reaches_def leads_def good_defs)
qed

lemma net_check_reaches: "good df g \<Longrightarrow> reaches df g (net_check g)"
  by (cases "nw_state (g_net g)") (auto simp: net_check_def set_appstate_def reaches_def leads_def good_defs)

lemma login_draw_reaches:
  assumes "good df g"
  shows "keepsE df (reaches df g) (login_draw U g)"
proof -
  have enter: "keepsE df (reaches df g1) (draw_enter U g1)" if "good df g1" for g1
    unfolding draw_enter_def Let_def
    by (rule keeps_call_from)
      (auto simp: reaches_refl [OF that] intro: keepsE_mono [OF login_button_reaches] reaches_trans dest: reaches_good)
  have shown: "keepsE df (reaches df g1) (Inr (net_check (draw_text U g1)))" if "good df g1" for g1
  proof -
    note t = draw_text_reaches [OF that]
    show ?thesis using reaches_trans [OF t net_check_reaches [OF reaches_good [OF t]]] by simp
  qed
  have inner: "keepsE df (reaches df g1) (login_inner U g1)" if "good df g1" for g1
  proof -
    let ?g = "ui_do (ui_text U (Some (ascii ''Enter a session key''))) (ui_do (ui_text U (Some (ascii ''Welcome to Quickshare''))) g1)"
    have g: "good df ?g" using that by simp
    note k = draw_key_reaches [OF g]
    have "keepsE df (reaches df ?g) (bindE (draw_enter U (draw_key U ?g)) (\<lambda>g1. Inr (net_check (draw_text U g1))))"
      by (rule keepsE_mono [OF reaches_bind [OF enter [OF reaches_good [OF k]] shown] reaches_trans [OF k]])
    then show ?thesis by (simp add: login_inner_def)
  qed
  show ?thesis unfolding login_draw_def Let_def
    by (rule keeps_call_from)
      (auto simp: reaches_refl [OF assms] intro: keepsE_mono [OF inner] reaches_trans dest: reaches_good)
qed

lemma error_window_reaches: "reaches df g (error_window U g1) = reaches df g g1"
proof -
  obtain b g2 where "ui_call (ui_button U (ascii ''Return''))
      (ui_do (ui_text U (Some (ascii (''Error occured... '' @ [CHR 0x27, CHR 0x27])))) g1) = (b, g2)" by force
  from ui_call_reaches [OF this] this show ?thesis by (simp add: error_window_def)
qed

lemma gui_frame_reaches:
  assumes "good df g"
  shows "keepsE df (reaches df g) (gui_frame U g)"
proof -
  let ?g = "ui_do (ui_new_frame U) g"
  have g: "good df ?g" using assms by simp
  have "keepsE df (reaches df g) (case app_state ?g of ERROR_WINDOW \<Rightarrow> Inr (error_window U ?g)
      | LOGIN \<Rightarrow> login_draw U ?g | MAIN_MENU \<Rightarrow> main_draw U ?g | CLOSE \<Rightarrow> Inr ?g)"
    using login_draw_reaches [OF g] main_draw_reaches [OF g] reaches_refl [OF assms]
    by (simp add: error_window_reaches split: app_state.split)
  then show ?thesis unfolding gui_frame_def Let_def by (rule keepsE_bind) simp
qed

end

section \<open>A desk\<close>

text \<open>
  A user who presses the buttons and marks the selectables whose labels are listed, types a key and
  chooses a file; the texts shown are kept.
\<close>

record desk =
  dk_pressed :: "bytes list"
  dk_marked :: "bytes list"
  dk_typed :: bytes
  dk_chosen :: "bytes option"
  dk_shown :: "bytes list"

definition desk_ui :: "desk ui" where
  "desk_ui = \<lparr>ui_new_frame = (\<lambda>v. v\<lparr>dk_shown := []\<rparr>), ui_render = (\<lambda>v. v), ui_begin = (\<lambda>_ v. (True, v)),
     ui_text = (\<lambda>t v. case t of None \<Rightarrow> v | Some s \<Rightarrow> v\<lparr>dk_shown := dk_shown v @ [s]\<rparr>),
     ui_button = (\<lambda>l v. (l \<in> set (dk_pressed v), v)),
     ui_selectable = (\<lambda>l b v. (b \<or> l \<in> set (dk_marked v), v)),
     ui_input = (\<lambda>k v. (take 15 (dk_typed v @ replicate 15 0) @ [0], v)), ui_progress = (\<lambda>_ v. v),
     ui_open_dialog = (\<lambda>v. (dk_chosen v, v)),
     ui_try_lock = (\<lambda>v. (True, v)), ui_raw = (\<lambda>_. replicate (2 * FILE_NAME_LEN) 7), ui_raw_session = (\<lambda>_. no_session)\<rparr>"

interpretation desk: window_library desk_ui
  by unfold_locales (auto simp: desk_ui_def no_session_def split: option.splits if_splits)

text \<open>The first frame of the program, in which the user asks for a new session instead of an old one.\<close>

definition first_desk :: desk where
  "first_desk = \<lparr>dk_pressed = [ascii (''Don'' @ [CHR 0x27] @ ''t have a key? Create one!'')], dk_marked = [],
     dk_typed = ascii ''key'', dk_chosen = None, dk_shown = []\<rparr>"

definition first_gui :: "desk gui" where
  "first_gui = Context_new (replicate 16 0) example_net first_desk"

end
