(* ===== verification/Interface_Requests.thy ===== *)
theory Interface_Requests
  imports Interface_Properties
begin

text \<open>
  From the button to the wire: which command the menu makes of the selected users and the chosen file,
  and the packet the network thread makes of the command.
\<close>

section \<open>The command of the menu\<close>

abbreviation g_cmds :: "'g gui \<Rightarrow> transfer_cmd lf_queue" where
  "g_cmds g \<equiv> cmd_queue (nw_tm (g_net g))"

lemma send_cmd_full:
  assumes "lf_ok 3 (g_cmds g)" "length (lf_items (g_cmds g)) = 8"
  shows "send_cmd c g = (False, g)"
  using lf.push_full [OF assms(1), of c] assms(2) by (simp add: send_cmd_def)

lemma send_cmd_room:
  assumes "lf_ok 3 (g_cmds g)" "length (lf_items (g_cmds g)) \<noteq> 8"
  shows "\<exists>q. send_cmd c g = (True, g\<lparr>g_net := (g_net g)\<lparr>nw_tm := (nw_tm (g_net g))\<lparr>cmd_queue := q\<rparr>\<rparr>\<rparr>) \<and>
    lf_ok 3 q \<and> lf_items q = lf_items (g_cmds g) @ [c]"
proof -
  have "length (lf_items (g_cmds g)) < 2 ^ 3" using lf.bounded [OF assms(1)] assms(2) by simp
  from lf.push_room [OF assms(1) this, of c] show ?thesis by (auto simp: send_cmd_def)
qed

lemma menu_transfer_run:
  assumes "window_library U" "gui_ok g" "lf_ok 3 (g_cmds g)"
    and "mm_file_path g = Some path" "selected_ids (mm_user_list g) \<noteq> []" "length (selected_ids (mm_user_list g)) \<le> 6"
  shows "if length (lf_items (g_cmds g)) = 8 then menu_transfer U g = Inl Assert_Failed
    else \<exists>q raw to. menu_transfer U g = Inr (g\<lparr>g_net := (g_net g)\<lparr>nw_tm := (nw_tm (g_net g))\<lparr>cmd_queue := q\<rparr>\<rparr>,
        mm_user_list := map (\<lambda>c. c\<lparr>u_selected := False\<rparr>) (mm_user_list g)\<rparr>) \<and> lf_ok 3 q \<and>
      lf_items q = lf_items (g_cmds g) @ [Cmd_Request raw to] \<and>
      ids_image (selected_ids (mm_user_list g)) to \<and>
      (if length path < 2 * FILE_NAME_LEN then 0 \<in> set raw \<and> cstr raw = path
       else raw = take (2 * FILE_NAME_LEN) path \<and> 0 \<notin> set raw)"
proof -
  let ?ids = "selected_ids (mm_user_list g)" and ?raw = "ui_raw U (g_world g)"
  from fill_ids_start(2) [OF assms(6)] obtain bs where
    bs: "fill_ids (mm_user_list g) 0 (replicate 48 0) = Inr (length ?ids, bs)" "ids_image ?ids bs" by blast
  have path: "0 \<notin> set path" using assms(2,4) by (auto simp: gui_ok_def)
  note cmd = request_path [OF window_library.raw_length [OF assms(1), of "g_world g"] path, of bs]
  let ?c = "request_cmd ?raw path bs"
  show ?thesis
  proof (cases "length (lf_items (g_cmds g)) = 8")
    case True
    with bs(1) assms(4,5) send_cmd_full [OF assms(3), of ?c] show ?thesis by (simp add: menu_transfer_def)
  next
    case False
    from send_cmd_room [OF assms(3) False, of ?c] obtain q where q:
      "send_cmd ?c g = (True, g\<lparr>g_net := (g_net g)\<lparr>nw_tm := (nw_tm (g_net g))\<lparr>cmd_queue := q\<rparr>\<rparr>\<rparr>)"
      "lf_ok 3 q" "lf_items q = lf_items (g_cmds g) @ [?c]" by blast
    define raw where "raw = put_bytes 0 (take 128 (path @ [0])) ?raw"
    have c: "?c = Cmd_Request raw bs" by (simp only: cmd(1) raw_def)
    have "if length path < 128 then 0 \<in> set raw \<and> cstr raw = path else raw = take 128 path \<and> 0 \<notin> set raw"
      using cmd(3,4) [folded raw_def] c by (cases "length path < 128") auto
    moreover have "menu_transfer U g = Inr (g\<lparr>g_net := (g_net g)\<lparr>nw_tm := (nw_tm (g_net g))\<lparr>cmd_queue := q\<rparr>\<rparr>,
        mm_user_list := map (\<lambda>c. c\<lparr>u_selected := False\<rparr>) (mm_user_list g)\<rparr>)"
      using q(1) bs(1) assms(4,5) by (simp add: menu_transfer_def)
    ultimately show ?thesis using q(2) q(3) [unfolded c] bs(2) False by fastforce
  qed
qed

section \<open>The packet of the command\<close>

lemma get_get: "off + n \<le> m \<Longrightarrow> get_bytes off n (get_bytes o1 m bs) = get_bytes (o1 + off) n bs"
  by (simp add: get_bytes_def drop_take min_def add.commute)

lemma get_put_inside: "off + n \<le> length bs \<Longrightarrow> o1 + length bs \<le> length xs \<Longrightarrow>
    get_bytes (o1 + off) n (put_bytes o1 bs xs) = get_bytes off n bs"
  by (simp add: get_bytes_def put_bytes_def)

text \<open>A manager that has nothing else to do makes the request at once.\<close>

lemma do_work_request:
  assumes "tm_ok tm" "lf_ok 3 q" "lf_items q = [Cmd_Request raw to]" "0 \<in> set raw" "length to = 48"
    and "get_transfer (host_transfers tm) = Some i"
    and "\<forall>t \<in> set (host_transfers tm). at_state t \<notin> {AT_ACTIVE, AT_CANCEL, AT_SEND_REQ}"
    and "read_file E (cstr raw) (f_manager (host_transfers tm ! i)) w = Inr (Some sz, m, w1)"
    and "length p = PACKET_MAX_SIZE"
  shows "\<exists>tm1 p1 w2. do_work E 8 (tm\<lparr>cmd_queue := q\<rparr>) p w = Inr (HAS_WORK, tm1, p1, w2) \<and>
    hdr_type p1 = P_TRANSFER_REQUEST \<and> rq_client_transfer_id p1 = client_transfer_ids tm \<and>
    rq_file_size p1 = sz \<and> cstr (rq_file_name p1) = take 63 (path_filename (cstr raw)) \<and>
    (\<forall>k < 6. th_to k p1 = get_u64 (8 * k) to) \<and> state_of HOST i tm1 = AT_GET_RESPONSE"
proof -
  have len: "length (host_transfers tm) = 6" using tm_ok_length [OF assms(1), of HOST] by simp
  have i: "i < 6" "host_ok (host_transfers tm ! i)" "at_state (host_transfers tm ! i) = AT_EMPTY"
    using get_transfer_Some [of HOST tm i] assms(1,6) find_ix_Some [OF assms(6) [unfolded get_transfer_def]] by simp_all
  obtain now w2 where now: "clock_now E w1 = (now, w2)" by force
  define new where "new = (\<lambda>t :: active_transfer. t\<lparr>f_manager := m, at_file_size := sz, local_id := client_transfer_ids tm,
    at_hdr := set_h_to to (at_hdr t), past_send := now, at_file := cstr raw, at_state := AT_SEND_REQ\<rparr>)"
  let ?tm = "upd_transfer HOST i new (tm\<lparr>client_transfer_ids := client_transfer_ids tm + 1\<rparr>)"
  have cmd: "run_cmds E [Cmd_Request raw to] tm w = Inr (?tm, w2)"
    using assms(4,6,8) now by (simp add: cmd_host_request_def new_def)
  have frame: "run_cmds E [Cmd_Request raw to] (tm\<lparr>cmd_queue := q\<rparr>) w = Inr (?tm\<lparr>cmd_queue := q\<rparr>, w2)"
    using cmd run_cmd_frame [where E = E and c = "Cmd_Request raw to" and tm = tm and q = q and w = w] by (auto simp del: run_cmd.simps simp: bindE_def split: sum.splits)
  from process_cmds_run [of "tm\<lparr>cmd_queue := q\<rparr>" 8 E w] assms(2,3) frame obtain q1 where
    q1: "process_cmds E 8 (tm\<lparr>cmd_queue := q\<rparr>) w = Inr (?tm\<lparr>cmd_queue := q1\<rparr>, w2)" by (auto simp del: run_cmds.simps)
  let ?tm1 = "?tm\<lparr>cmd_queue := q1\<rparr>"
  have host: "host_transfers ?tm1 = (host_transfers tm)[i := new (host_transfers tm ! i)]"
    by (simp add: upd_transfer.simps)
  define t where "t = host_transfers ?tm1 ! i"
  have t: "t = new (host_transfers tm ! i)" using host i(1) len by (simp add: t_def)
  have first: "find_ix (\<lambda>t. at_state t = AT_ACTIVE \<or> at_state t = AT_CANCEL \<or> at_state t = AT_SEND_REQ) (host_transfers ?tm1) = Some i"
    unfolding host
    using i(1) len assms(7) by (intro find_ix_first) (auto simp: new_def dest: nth_mem)
  have "length (at_hdr t) = 64"
    using i(2) assms(5) by (simp add: t new_def host_ok_def transfer_ok_def set_h_to_def length_put_bytes)
  moreover have "0 \<notin> set (at_file t)" by (simp add: t new_def cstr_no_zero(1))
  ultimately obtain p1 where p1:
    "send_request i ?tm1 p = (upd_transfer HOST i (set_state AT_GET_RESPONSE) ?tm1, p1)"
    "hdr_type p1 = P_TRANSFER_REQUEST" "rq_client_transfer_id p1 = local_id t" "rq_file_size p1 = at_file_size t"
    "get_bytes 8 64 p1 = at_hdr t" "cstr (rq_file_name p1) = take 63 (path_filename (at_file t))" "length p1 = PACKET_MAX_SIZE"
    using send_request_packet [OF t_def _ _ assms(9)] by blast
  have to: "th_to k p1 = get_u64 (8 * k) to" if "k < 6" for k
  proof -
    have h: "length (at_hdr (host_transfers tm ! i)) = 64" using i(2) by (simp add: host_ok_def transfer_ok_def)
    have "get_bytes (8 + (16 + 8 * k)) 8 p1 = get_bytes (16 + 8 * k) 8 (at_hdr t)"
      unfolding p1(5) [symmetric] using that by (intro get_get [symmetric]) simp
    also have "\<dots> = get_bytes (8 * k) 8 to"
      using that h assms(5) by (simp add: t new_def set_h_to_def get_put_inside)
    finally show ?thesis by (simp add: th_to_def get_u64_def)
  qed
  have "do_work E 8 (tm\<lparr>cmd_queue := q\<rparr>) p w = Inr (HAS_WORK, upd_transfer HOST i (set_state AT_GET_RESPONSE) ?tm1, p1, w2)"
    using q1 first p1(1) t t_def by (simp add: do_work_def host_transfer_work_def new_def)
  then show ?thesis
    using p1 to t i(1) len by (auto simp: new_def state_of_def upd_transfer.simps)
qed

section \<open>Properties\<close>

text \<open>
  C20: the button that sends: with more than six users selected the menu writes behind its array,
  before it looks whether a file is chosen; with no file or no user it does nothing; with eight waiting
  commands it fails an assertion; otherwise it queues exactly one command with the ids of the selected
  users in the order of the list followed by zeros, deselects all users and changes nothing else. The
  command holds the chosen path when this is shorter than its array of 128 bytes; of a longer path it
  holds the first 128 bytes, without a terminating NUL.
\<close>

theorem menu_transfer_spec:
  assumes "window_library U" "gui_ok g" "lf_ok 3 (g_cmds g)" "ids = selected_ids (mm_user_list g)"
  shows "(6 < length ids \<longrightarrow> menu_transfer U g = Inl Undefined) \<and>
    (length ids \<le> 6 \<and> (mm_file_path g = None \<or> ids = []) \<longrightarrow> menu_transfer U g = Inr g) \<and>
    (\<forall>path. length ids \<le> 6 \<and> ids \<noteq> [] \<and> mm_file_path g = Some path \<longrightarrow>
      (if length (lf_items (g_cmds g)) = 8 then menu_transfer U g = Inl Assert_Failed
       else \<exists>q raw to. menu_transfer U g = Inr (g\<lparr>g_net := (g_net g)\<lparr>nw_tm := (nw_tm (g_net g))\<lparr>cmd_queue := q\<rparr>\<rparr>,
           mm_user_list := map (\<lambda>c. c\<lparr>u_selected := False\<rparr>) (mm_user_list g)\<rparr>) \<and> lf_ok 3 q \<and>
         lf_items q = lf_items (g_cmds g) @ [Cmd_Request raw to] \<and> ids_image ids to \<and>
         (if length path < 2 * FILE_NAME_LEN then 0 \<in> set raw \<and> cstr raw = path
          else raw = take (2 * FILE_NAME_LEN) path \<and> 0 \<notin> set raw)))"
proof (intro conjI impI allI)
  note fill = fill_ids_start [of "mm_user_list g", folded assms(4)]
  show "menu_transfer U g = Inl Undefined" if "6 < length ids"
    using fill(1) that by (simp add: menu_transfer_def)
  show "menu_transfer U g = Inr g" if "length ids \<le> 6 \<and> (mm_file_path g = None \<or> ids = [])"
    using fill(2) that by (auto simp: menu_transfer_def split: option.split)
  fix path assume "length ids \<le> 6 \<and> ids \<noteq> [] \<and> mm_file_path g = Some path"
  then have p: "mm_file_path g = Some path" "selected_ids (mm_user_list g) \<noteq> []" "length (selected_ids (mm_user_list g)) \<le> 6"
    using assms(4) by auto
  show "if length (lf_items (g_cmds g)) = 8 then menu_transfer U g = Inl Assert_Failed
       else \<exists>q raw to. menu_transfer U g = Inr (g\<lparr>g_net := (g_net g)\<lparr>nw_tm := (nw_tm (g_net g))\<lparr>cmd_queue := q\<rparr>\<rparr>,
           mm_user_list := map (\<lambda>c. c\<lparr>u_selected := False\<rparr>) (mm_user_list g)\<rparr>) \<and> lf_ok 3 q \<and>
         lf_items q = lf_items (g_cmds g) @ [Cmd_Request raw to] \<and> ids_image ids to \<and>
         (if length path < 2 * FILE_NAME_LEN then 0 \<in> set raw \<and> cstr raw = path
          else raw = take (2 * FILE_NAME_LEN) path \<and> 0 \<notin> set raw)"
    using menu_transfer_run [OF assms(1-3) p] unfolding assms(4) .
qed

text \<open>A client that has chosen a file, with some members of which some are selected.\<close>

definition member :: "bool \<Rightarrow> client_id \<Rightarrow> user" where
  "member sel i = \<lparr>u_id = i, u_name = replicate 16 0, u_selected = sel\<rparr>"

definition sending_gui :: "user list \<Rightarrow> desk gui" where
  "sending_gui us = first_gui\<lparr>mm_file_path := Some (ascii ''/tmp/a.txt''), mm_user_list := us\<rparr>"

lemma sending_gui: "gui_ok (sending_gui us)" "nw_tm (g_net (sending_gui us)) = example_tm"
    "mm_user_list (sending_gui us) = us" "mm_file_path (sending_gui us) = Some (ascii ''/tmp/a.txt'')"
  by (simp_all add: gui_ok_def sending_gui_def first_gui_def Context_new_def login_clean_def ascii_def example_net_def)

lemma example_cmds: "lf_ok 3 (cmd_queue example_tm)"
  using example_tm(2) by (simp add: tm_ok_def cmds_ok_def)

theorem menu_transfer_spec_witness:
  "menu_transfer desk_ui (sending_gui (map (member True) [1, 2, 3, 4, 5, 6, 7])) = Inl Undefined"
proof -
  let ?us = "map (member True) [1, 2, 3, 4, 5, 6, 7]"
  have "lf_ok 3 (g_cmds (sending_gui ?us))" using example_cmds sending_gui(2) by simp
  from menu_transfer_spec [OF desk.window_library_axioms sending_gui(1) this refl] show ?thesis
    by (simp add: sending_gui(3) selected_ids_def member_def)
qed

text \<open>
  C19: from the button to the wire: with one to six users selected, a chosen path shorter than 128 bytes,
  no command waiting, no offered transfer that has work, a free slot and a file that opens, pressing the
  button makes the next \<^verbatim>\<open>do_work\<close> of the network thread produce the request, addressed to exactly the
  selected users, with the file name of the path cut at 63 bytes and the size of the file; the transfer
  then waits for the server.
\<close>

theorem menu_request_on_wire:
  assumes "window_library U" "gui_ok g" "tm_ok (nw_tm (g_net g))" "lf_items (g_cmds g) = []"
    and "mm_file_path g = Some path" "length path < 2 * FILE_NAME_LEN" "ids = selected_ids (mm_user_list g)"
    and "ids \<noteq> []" "length ids \<le> 6"
    and "get_transfer (host_transfers (nw_tm (g_net g))) = Some i"
    and "\<forall>t \<in> set (host_transfers (nw_tm (g_net g))). at_state t \<notin> {AT_ACTIVE, AT_CANCEL, AT_SEND_REQ}"
    and "read_file E path (f_manager (host_transfers (nw_tm (g_net g)) ! i)) w = Inr (Some sz, m, w1)"
    and "length p = PACKET_MAX_SIZE"
  shows "\<exists>g1 tm1 p1 w2. menu_transfer U g = Inr g1 \<and>
    do_work E 8 (nw_tm (g_net g1)) p w = Inr (HAS_WORK, tm1, p1, w2) \<and> hdr_type p1 = P_TRANSFER_REQUEST \<and>
    (\<forall>k < 6. th_to k p1 = (if k < length ids then ids ! k else 0)) \<and>
    cstr (rq_file_name p1) = take 63 (path_filename path) \<and> rq_file_size p1 = sz \<and>
    rq_client_transfer_id p1 = client_transfer_ids (nw_tm (g_net g)) \<and> state_of HOST i tm1 = AT_GET_RESPONSE"
proof -
  have "lf_ok 3 (g_cmds g)" using assms(3) by (simp add: tm_ok_def cmds_ok_def)
  from menu_transfer_run [OF assms(1,2) this assms(5)] assms(4,6-9) obtain q raw to where
    r: "menu_transfer U g = Inr (g\<lparr>g_net := (g_net g)\<lparr>nw_tm := (nw_tm (g_net g))\<lparr>cmd_queue := q\<rparr>\<rparr>,
      mm_user_list := map (\<lambda>c. c\<lparr>u_selected := False\<rparr>) (mm_user_list g)\<rparr>)" "lf_ok 3 q"
      "lf_items q = [Cmd_Request raw to]" "0 \<in> set raw" "cstr raw = path" "ids_image ids to" by auto
  have "length to = 48" using r(6) by (simp add: ids_image_def)
  from do_work_request [OF assms(3) r(2-4) this assms(10,11) _ assms(13), of E w sz m w1] assms(12) r(5)
  obtain tm1 p1 w2 where "do_work E 8 ((nw_tm (g_net g))\<lparr>cmd_queue := q\<rparr>) p w = Inr (HAS_WORK, tm1, p1, w2)"
    "hdr_type p1 = P_TRANSFER_REQUEST" "rq_client_transfer_id p1 = client_transfer_ids (nw_tm (g_net g))"
    "rq_file_size p1 = sz" "cstr (rq_file_name p1) = take 63 (path_filename path)"
    "\<forall>k < 6. th_to k p1 = get_u64 (8 * k) to" "state_of HOST i tm1 = AT_GET_RESPONSE" by auto
  with r(1,6) show ?thesis
    by (intro exI [of _ "g\<lparr>g_net := (g_net g)\<lparr>nw_tm := (nw_tm (g_net g))\<lparr>cmd_queue := q\<rparr>\<rparr>,
      mm_user_list := map (\<lambda>c. c\<lparr>u_selected := False\<rparr>) (mm_user_list g)\<rparr>"] exI [of _ tm1] exI [of _ p1] exI [of _ w2])
      (simp add: ids_image_def)
qed

lemma example_read:
  "\<exists>m w1. read_file disk_env path (f_manager (host_transfers example_tm ! 0)) example_disk = Inr (Some 3, m, w1)"
proof -
  have "host_ok (host_transfers example_tm ! 0)" using tm_ok_transfer [OF example_tm(2), of 0 HOST] by simp
  then have "fm_type (f_manager (host_transfers example_tm ! 0)) = READ_FILE" by (simp add: host_ok_def)
  then show ?thesis
    by (simp add: read_file_def get_file_size_def disk_env_def example_disk_def Let_def)
qed

theorem menu_request_on_wire_witness:
  "\<exists>g1 tm1 p1 w2. menu_transfer desk_ui (sending_gui [member True 5, member False 6, member True 7]) = Inr g1 \<and>
    do_work disk_env 8 (nw_tm (g_net g1)) zero_packet example_disk = Inr (HAS_WORK, tm1, p1, w2) \<and>
    th_to 0 p1 = 5 \<and> th_to 1 p1 = 7 \<and> th_to 2 p1 = 0 \<and> cstr (rq_file_name p1) = ascii ''a.txt''"
proof -
  let ?g = "sending_gui [member True 5, member False 6, member True 7]"
  have free: "at_state (host_transfers example_tm ! j) = AT_EMPTY" if "j < 6" for j
    using example_tm(3) [OF that, of HOST] by (simp add: state_of_def)
  have slot: "get_transfer (host_transfers (nw_tm (g_net ?g))) = Some 0"
    unfolding sending_gui(2) get_transfer_def using example_length(1) free [of 0] by (intro find_ix_first) simp_all
  have idle: "\<forall>t \<in> set (host_transfers (nw_tm (g_net ?g))). at_state t \<notin> {AT_ACTIVE, AT_CANCEL, AT_SEND_REQ}"
    unfolding sending_gui(2) by (auto simp: in_set_conv_nth example_length(1) free)
  from example_read obtain m w1 where opened:
    "read_file disk_env (ascii ''/tmp/a.txt'') (f_manager (host_transfers (nw_tm (g_net ?g)) ! 0)) example_disk = Inr (Some 3, m, w1)"
    unfolding sending_gui(2) by blast
  have tm: "tm_ok (nw_tm (g_net ?g))" "lf_items (g_cmds ?g) = []" using example_tm(2,4) by (simp_all add: sending_gui(2))
  have ids: "[5, 7] = selected_ids (mm_user_list ?g)" by (simp add: sending_gui(3) selected_ids_def member_def)
  have few: "([5, 7] :: client_id list) \<noteq> []" "length ([5, 7] :: client_id list) \<le> 6" by simp_all
  have "length (ascii ''/tmp/a.txt'') < 2 * FILE_NAME_LEN" by (simp add: ascii_def)
  from menu_request_on_wire [OF desk.window_library_axioms sending_gui(1) tm sending_gui(4) this ids few slot idle opened length_zero_packet]
  obtain g1 tm1 p1 w2 where r: "menu_transfer desk_ui ?g = Inr g1"
    "do_work disk_env 8 (nw_tm (g_net g1)) zero_packet example_disk = Inr (HAS_WORK, tm1, p1, w2)"
    "\<forall>k < 6. th_to k p1 = (if k < length [5, 7 :: client_id] then [5, 7] ! k else 0)"
    "cstr (rq_file_name p1) = take 63 (path_filename (ascii ''/tmp/a.txt''))" by blast
  have "th_to 0 p1 = 5" "th_to 1 p1 = 7" "th_to 2 p1 = 0" using r(3) by simp_all
  moreover have "take 63 (path_filename (ascii ''/tmp/a.txt'')) = ascii ''a.txt''" by (simp add: path_filename_def ascii_def)
  ultimately show ?thesis using r(1,2,4) by auto
qed

end
