(* ===== verification/Client_Runs.thy ===== *)
theory Client_Runs
  imports Client_Start Interface_Requests
begin

text \<open>
  The client as a whole: the constructors find their memory, the network thread makes the turns of its
  loops, and the program is the interleaving of frames with these turns.
\<close>

section \<open>Room in the pool\<close>

text \<open>A pool at an address below \<open>2 ^ 63\<close> with at least \<open>k\<close> bytes left.\<close>

definition room :: "memory_pool \<Rightarrow> nat \<Rightarrow> bool" where
  "room p k \<longleftrightarrow> pool_ok p \<and> unat (blk_mem (root p)) + unat (block_size p) < 2 ^ 63 \<and>
     unat (mem_used p) + k \<le> unat (block_size p)"

lemma room_alloc:
  assumes "room p (round8 (unat sz) + k)"
  shows "\<exists>p1. alloc sz p = (blk_free (root p), p1) \<and> blk_free (root p) \<noteq> 0 \<and> room p1 k"
proof -
  have p: "pool_ok p" "unat (mem_used p) + round8 (unat sz) + k \<le> unat (block_size p)"
    "unat (blk_mem (root p)) + unat (block_size p) < 2 ^ 63" using assms by (simp_all add: room_def)
  have free: "unat (blk_free (root p)) = unat (blk_mem (root p)) + unat (mem_used p)" "blk_mem (root p) \<noteq> 0"
    using p(1) by (simp_all add: pool_ok_def)
  have "unat (blk_free (root p)) + unat sz + 7 < 2 ^ 64" using p(2,3) free(1) round8_props(1) [of "unat sz"] by simp
  from alloc_cases(1) [OF p(1) this refl] p(2) obtain p1 where
    "alloc sz p = (blk_free (root p), p1)" "pool_ok p1" "unat (mem_used p1) = unat (mem_used p) + round8 (unat sz)"
    "blk_mem (root p1) = blk_mem (root p)" "block_size p1 = block_size p" by auto
  moreover have "blk_free (root p) \<noteq> 0" using free by (auto simp: unat_eq_zero)
  ultimately show ?thesis using p(2,3) by (simp add: room_def)
qed

lemma queue_room:
  assumes "room p (round8 (8 * unat ns) + k)" "unat ns \<le> 1024"
  shows "\<exists>q p1. LockFreeQueue ns raw 6 p = Inr (q, p1) \<and> room p1 k"
proof -
  have "unat (ns * 8) = 8 * unat ns" using assms(2) by (simp add: unat_word_ariths)
  with room_alloc [of p "ns * 8" k] assms(1) obtain p1 where
    "alloc (ns * 8) p = (blk_free (root p), p1)" "blk_free (root p) \<noteq> 0" "room p1 k" by auto
  then show ?thesis using assms(2) by (simp add: LockFreeQueue_def capacity_mask_6)
qed

lemma round8_buffer: "round8 3072 = 3072" by (simp add: round8_def)

lemma reads_room: "room p (3072 * length ts + k) \<Longrightarrow> \<exists>ts1 p1. init_reads mem ts p = Inr (ts1, p1) \<and> room p1 k"
proof (induction ts arbitrary: p)
  case (Cons t ts)
  then have "room p (round8 (unat (3072 :: u64)) + (3072 * length ts + k))" by (simp add: round8_buffer add.assoc)
  from room_alloc [OF this] obtain p1 where
    "alloc 3072 p = (blk_free (root p), p1)" "blk_free (root p) \<noteq> 0" "room p1 (3072 * length ts + k)" by blast
  with Cons.IH [of p1] show ?case by (auto simp: init_read_def)
qed simp

lemma manager_room:
  assumes "room p (round8 (8 * unat nc) + (18432 + k))" "unat nc \<le> 1024"
  shows "\<exists>tm p1. Transfer_Manager_new mem nc raw_c raw p = Inr (tm, p1) \<and> room p1 k"
proof -
  from queue_room [OF assms, of raw_c] obtain q p1 where q: "LockFreeQueue nc raw_c 6 p = Inr (q, p1)" "room p1 (18432 + k)"
    by blast
  let ?host = "map (\<lambda>i. Active_Transfer_new (raw (6 + i))) [0..<6]"
  have "room p1 (3072 * length ?host + k)" using q(2) by simp
  from reads_room [OF this, of mem] q(1) show ?thesis
    by (auto simp: Transfer_Manager_new_def Let_def simp del: upt_rec_numeral)
qed

text \<open>With memory for the pool all constructors, and the first \<^verbatim>\<open>init\<close>, find room.\<close>

lemma pool_ready:
  assumes "malloc MEM_POOL_SIZE \<noteq> 0" "unat (malloc MEM_POOL_SIZE) mod 8 = 0" "unat (malloc MEM_POOL_SIZE) < 2 ^ 62"
    and "unat (sm_ns M) \<le> 1024" "unat (sm_nc M) \<le> 1024"
  shows "\<exists>pool g. mem_pool_init malloc MEM_POOL_SIZE pool0 = (True, pool) \<and> instances M name pool v = Inr g \<and>
    th_num (nw_threads (g_net g)) = 0 \<and> room (nw_pool (g_net g)) 2880"
proof -
  from mem_pool_init_ok [of malloc MEM_POOL_SIZE, OF refl assms(1) _ assms(2), of pool0] assms(3) obtain pool where
    pool: "mem_pool_init malloc MEM_POOL_SIZE pool0 = (True, pool)" "pool_ok pool" "mem_used pool = 0"
      "blk_mem (root pool) = malloc MEM_POOL_SIZE" "block_size pool = MEM_POOL_SIZE" by auto
  have r8: "round8 (8 * unat k) \<le> 8192" if "unat k \<le> 1024" for k :: u64
    using that by (simp add: round8_def)
  have "room pool (round8 (8 * unat (sm_ns M)) + (round8 (8 * unat (sm_nc M)) + (18432 + 2880)))"
    using pool assms(3) r8 [OF assms(4)] r8 [OF assms(5)] by (simp add: room_def)
  from queue_room [OF this assms(4), of "sm_s M"] obtain q p1 where
    q: "LockFreeQueue (sm_ns M) (sm_s M) 6 pool = Inr (q, p1)"
      "room p1 (round8 (8 * unat (sm_nc M)) + (18432 + 2880))" by blast
  from manager_room [OF q(2) assms(5), of "sm_mem M" "sm_c M" "sm_t M"] obtain tm p2 where
    tm: "Transfer_Manager_new (sm_mem M) (sm_nc M) (sm_c M) (sm_t M) p1 = Inr (tm, p2)" "room p2 2880" by blast
  show ?thesis
    using pool(1) q(1) tm by (simp add: instances_def Network_new_def zero_network_def Context_new_def login_clean_def)
qed

section \<open>The turns of the network thread\<close>

definition thread_step :: "'w cenv \<Rightarrow> (u64 \<Rightarrow> nat \<Rightarrow> bytes) \<Rightarrow> nat \<Rightarrow> phase \<times> network \<times> 'w \<Rightarrow> phase \<times> network \<times> 'w \<Rightarrow> bool" where
  "thread_step E mem n a b \<longleftrightarrow> (case a of (ph, s, w) \<Rightarrow> thread_turn E mem n ph s w = Inr b)"

lemma thread_first: "thread_turn E mem n ph s w = Inr b \<Longrightarrow> (thread_step E mem n)\<^sup>*\<^sup>* b c \<Longrightarrow> (thread_step E mem n)\<^sup>*\<^sup>* (ph, s, w) c"
  by (rule converse_rtranclp_into_rtranclp) (simp_all add: thread_step_def)

lemma thread_one: "thread_turn E mem n ph s w = Inr b \<Longrightarrow> (thread_step E mem n)\<^sup>*\<^sup>* (ph, s, w) b"
  by (rule r_into_rtranclp) (simp add: thread_step_def)

lemma conn_loop_turn: "conn_loop E n k st s w =
    (if \<not> c_active E w then Inr (True, s, w)
     else case k of 0 \<Rightarrow> Inl Out_Of_Fuel | Suc j \<Rightarrow> bindE (conn_turn E n st s w) (\<lambda>(r, s1, w1).
       case r of Inl b \<Rightarrow> Inr (b, s1, w1) | Inr st1 \<Rightarrow> conn_loop E n j st1 s1 w1))"
  by (cases st; cases "tls_connect E n s w"; subst conn_loop.simps)
    (auto simp: conn_turn_def Let_def split: nat.split prod.split)

lemma conn_loop_turns: "conn_loop E n k st s w = Inr (b, s1, w1) \<Longrightarrow> (thread_step E mem n)\<^sup>*\<^sup>* (Connecting st, s, w)
    (if b then (Handling, s1\<lparr>nw_want_write := False\<rparr>, w1) else (Leaving, s1, w1))"
proof (induction k arbitrary: st s w)
  case 0
  then show ?case by (subst (asm) conn_loop_turn) (auto split: if_splits intro!: thread_one)
next
  case (Suc j)
  show ?case
  proof (cases "c_active E w")
    case False
    with Suc.prems show ?thesis by (subst (asm) conn_loop_turn) (auto intro!: thread_one)
  next
    case True
    with Suc.prems obtain r s2 w2 where t: "conn_turn E n st s w = Inr (r, s2, w2)"
      "(case r of Inl b \<Rightarrow> Inr (b, s2, w2) | Inr st1 \<Rightarrow> conn_loop E n j st1 s2 w2) = Inr (b, s1, w1)"
      by (subst (asm) conn_loop_turn) auto
    show ?thesis
    proof (cases r)
      case (Inl b1)
      with t True show ?thesis by (intro thread_one) auto
    next
      case (Inr st1)
      with t True Suc.IH [of st1 s2 w2] show ?thesis by (intro thread_first [of E mem n "Connecting st" s w "(Connecting st1, s2, w2)"]) auto
    qed
  qed
qed

lemma handle_loop_turns: "handle_loop E n k s w = Inr (s1, w1) \<Longrightarrow> (thread_step E mem n)\<^sup>*\<^sup>* (Handling, s, w) (Leaving, s1, w1)"
proof (induction k arbitrary: s w)
  case 0
  then show ?case by (subst (asm) handle_loop.simps) (auto split: if_splits intro!: thread_one)
next
  case (Suc j)
  show ?case
  proof (cases "c_active E w")
    case False
    with Suc.prems show ?thesis by (subst (asm) handle_loop.simps) (auto intro!: thread_one)
  next
    case True
    with Suc.prems obtain go s2 w2 where t: "handle_turn E n s w = Inr (go, s2, w2)"
      "(if go then handle_loop E n j s2 w2 else Inr (s2, w2)) = Inr (s1, w1)"
      by (subst (asm) handle_loop.simps) auto
    with True Suc.IH [of s2 w2] show ?thesis
      by (cases go) (auto intro: thread_one thread_first [of E mem n Handling s w "(Handling, s2, w2)"])
  qed
qed

lemma server_loop_turns: "Network_server_loop E mem n k s w = Inr (s1, w1) \<Longrightarrow> (thread_step E mem n)\<^sup>*\<^sup>* (Starting, s, w) (Stopped, s1, w1)"
proof (induction k arbitrary: s w)
  case 0
  then show ?case by (subst (asm) Network_server_loop.simps) (auto split: if_splits intro!: thread_one)
next
  case (Suc j)
  obtain ok s2 w2 where i: "init E mem s w = (ok, s2, w2)" by (metis prod_cases3)
  show ?case
  proof (cases "c_active E w \<and> ok")
    case False
    with Suc.prems i show ?thesis
      by (subst (asm) Network_server_loop.simps) (auto split: if_splits intro!: thread_one)
  next
    case True
    with Suc.prems i obtain rdy s3 w3 s4 w4 where c: "init_conn E n n s2 w2 = Inr (rdy, s3, w3)"
      and h: "(if rdy then handle E n n s3 w3 else Inr (s3, w3)) = Inr (s4, w4)"
      and r: "(if nw_state s4 = NET_ERROR then Inr (s4, w4)
        else let (s5, w5) = clean E s4 w4 in Network_server_loop E mem n j s5 w5) = Inr (s1, w1)"
      by (subst (asm) Network_server_loop.simps) auto
    have 1: "(thread_step E mem n)\<^sup>*\<^sup>* (Starting, s, w) (Connecting C_INIT, s2, w2)" using True i by (intro thread_one) simp
    have 2: "(thread_step E mem n)\<^sup>*\<^sup>* (Connecting C_INIT, s2, w2) (Leaving, s4, w4)"
      using conn_loop_turns [OF c [unfolded init_conn_def], of mem] h
      by (auto simp: handle_def dest!: handle_loop_turns [of E n n _ _ s4 w4 mem] split: if_splits)
    have 3: "(thread_step E mem n)\<^sup>*\<^sup>* (Leaving, s4, w4) (Stopped, s1, w1)"
    proof (cases "nw_state s4 = NET_ERROR")
      case True
      with r show ?thesis by (intro thread_one) simp
    next
      case False
      obtain s5 w5 where "clean E s4 w4 = (s5, w5)" by force
      with False r Suc.IH [of s5 w5] show ?thesis by (intro thread_first [of E mem n Leaving s4 w4 "(Starting, s5, w5)"]) auto
    qed
    from 1 2 3 show ?thesis by (meson rtranclp_trans)
  qed
qed

section \<open>The invariant of the thread\<close>

fun in_connection :: "phase \<Rightarrow> bool" where
  "in_connection (Connecting st) = True"
| "in_connection Handling = True"
| "in_connection Leaving = True"
| "in_connection ph = False"

definition thread_ok :: "phase \<Rightarrow> network \<Rightarrow> bool" where
  "thread_ok ph s \<longleftrightarrow> net_idle s \<and> (in_connection ph \<longrightarrow> net_ok s)"

text \<open>The thread is the only one: the state is \<^verbatim>\<open>UNINITIALIZED\<close> just before it is started.\<close>

definition single :: "phase \<Rightarrow> network \<Rightarrow> bool" where
  "single ph s \<longleftrightarrow> one_thread s \<and> (ph \<noteq> No_Thread \<longrightarrow> nw_state s \<noteq> UNINITIALIZED) \<and> (ph = Leaving \<longrightarrow> nw_state s = NET_ERROR)"

lemma net_idle_updates [simp]:
  "net_idle (s\<lparr>nw_want_write := b\<rparr>) = net_idle s" "net_idle (s\<lparr>nw_state := st\<rparr>) = net_idle s"
  "net_idle (s\<lparr>nw_ssl := h\<rparr>) = net_idle s" "net_idle (s\<lparr>nw_ssl_ctx := h\<rparr>) = net_idle s"
  by (simp_all add: net_idle_def)

lemma net_ok_updates [simp]:
  "net_ok (s\<lparr>nw_want_write := b\<rparr>) = net_ok s" "net_ok (s\<lparr>nw_state := st\<rparr>) = net_ok s"
  "net_ok (s\<lparr>nw_ssl := h\<rparr>) = net_ok s" "net_ok (s\<lparr>nw_ssl_ctx := h\<rparr>) = net_ok s"
  by (simp_all add: net_ok_def)

lemma init_keeps: "init E mem s w = (ok, s1, w1) \<Longrightarrow> net_idle s1 = net_idle s \<and> nw_threads s1 = nw_threads s \<and>
    (nw_state s1 = UNINITIALIZED \<longrightarrow> nw_state s = UNINITIALIZED)"
  by (auto simp: init_def create_socket_def Let_def net_idle_def split: prod.splits if_splits)

lemma conn_turn_keeps: "conn_turn E n st s w = Inr (r, s1, w1) \<Longrightarrow>
    net_ok s1 = net_ok s \<and> net_idle s1 = net_idle s \<and> nw_threads s1 = nw_threads s \<and>
    (nw_state s1 = UNINITIALIZED \<longrightarrow> nw_state s = UNINITIALIZED) \<and>
    (r = Inl False \<longrightarrow> fst (c_SSL_new E (nw_ssl_ctx s) w) = 0)"
  by (auto simp: conn_turn_def Let_def bindE_Inr_iff split: conn_state.splits prod.splits if_splits)

lemma clean_keeps: "clean E s w = (s1, w1) \<Longrightarrow> net_ok s1 = net_ok s \<and> net_idle s1 = net_idle s"
  by (auto simp: clean_def Let_def)

lemma handle_turn_keeps:
  assumes "tls_client E arriving taken" "net_ok s" "handle_turn E n s w = Inr (go, s1, w1)"
  shows "net_ok s1" "nw_threads s1 = nw_threads s" "nw_state s1 = UNINITIALIZED \<longrightarrow> nw_state s = UNINITIALIZED"
    "\<not> go \<longrightarrow> nw_state s1 = NET_ERROR"
proof -
  show "net_ok s1" using keepsE_D [OF tls_client.handle_turn_spec [OF assms(1,2)] assms(3)]
    by (simp add: tls_client.turn_result_def [OF assms(1)])
  obtain s2 w2 where c0: "check_write E s w = Inr (s2, w2)"
    using assms(3) by (cases "check_write E s w") (auto simp: handle_turn_def)
  with returnsE_D [OF tls_client.check_write_spec [OF assms(1,2)] c0] have
    c: "check_write E s w = Inr (s2, w2)" "net_ok s2" "writes_only s s2" by simp_all
  obtain r w3 where r: "c_poll E (nw_sock s2) (nw_want_write s2) w2 = (r, w3)" by force
  have "nw_threads s1 = nw_threads s \<and> (nw_state s1 = UNINITIALIZED \<longrightarrow> nw_state s = UNINITIALIZED) \<and>
    (\<not> go \<longrightarrow> nw_state s1 = NET_ERROR)"
  proof (cases "pr_ready r < 0 \<or> pr_error r")
    case True
    with assms(3) c r show ?thesis by (auto simp: handle_turn_def writes_only_def)
  next
    case False
    with assms(3) c(1) r obtain s3 w4 s4 where
      rd: "(if pr_read r then Network_read_data E n s2 w3 else Inr (s2, w3)) = Inr (s3, w4)"
      and wr: "(if pr_write r then Network_write_data E s3 w4 else Inr (s3, w4)) = Inr (s1, w1)" and go
      by (auto simp: handle_turn_def bindE_Inr_iff simp del: split_paired_Ex)
    from tls_client.read_part [OF assms(1) c(2) rd] have "reads_only s2 s3" by blast
    moreover have "nw_threads s1 = nw_threads s3 \<and> nw_state s1 = nw_state s3"
      using wr by (auto simp: Network_write_data_def Let_def split: if_splits prod.splits)
    ultimately show ?thesis using c(3) \<open>go\<close> by (auto simp: reads_only_def writes_only_def)
  qed
  then show "nw_threads s1 = nw_threads s" "nw_state s1 = UNINITIALIZED \<longrightarrow> nw_state s = UNINITIALIZED"
    "\<not> go \<longrightarrow> nw_state s1 = NET_ERROR" by simp_all
qed

lemma thread_turn_ok:
  assumes "tls_client E arriving taken" "\<forall>a n. length (mem a n) = n"
    and "thread_turn E mem n ph s w = Inr (ph1, s1, w1)" "thread_ok ph s"
  shows "thread_ok ph1 s1"
proof (cases ph)
  case Starting
  obtain ok s2 w2 where i: "init E mem s w = (ok, s2, w2)" by (metis prod_cases3)
  have "net_ok s2" if ok
    using init_ok [of E mem s w s2 w2] i that assms(2,4) by (simp add: thread_ok_def net_idle_def)
  with Starting assms(3,4) i init_keeps [OF i] show ?thesis by (auto simp: thread_ok_def split: if_splits)
next
  case (Connecting st)
  show ?thesis
  proof (cases "c_active E w")
    case True
    with Connecting assms(3) obtain r s2 w2 where t: "conn_turn E n st s w = Inr (r, s2, w2)"
      "(case r of Inl rdy \<Rightarrow> if rdy then (Handling, s2\<lparr>nw_want_write := False\<rparr>, w2) else (Leaving, s2, w2)
        | Inr st1 \<Rightarrow> (Connecting st1, s2, w2)) = (ph1, s1, w1)"
      by (auto simp: bindE_Inr_iff simp del: split_paired_Ex)
    with Connecting assms(4) conn_turn_keeps [OF t(1)] show ?thesis
      by (cases r) (auto simp: thread_ok_def split: if_splits)
  next
    case False
    with Connecting assms(3,4) show ?thesis by (auto simp: thread_ok_def)
  qed
next
  case Handling
  with assms(3,4) show ?thesis
    by (auto simp: thread_ok_def bindE_Inr_iff net_ok_idle dest!: handle_turn_keeps(1) [OF assms(1) _, rotated] split: if_splits)
next
  case Leaving
  with assms(3,4) show ?thesis
    by (auto simp: thread_ok_def dest!: clean_keeps split: if_splits prod.splits)
qed (use assms(3,4) in \<open>auto simp: thread_ok_def split: if_splits\<close>)

lemma thread_turn_single:
  assumes "tls_client E arriving taken" "\<forall>c w. fst (c_SSL_new E c w) \<noteq> 0" "\<forall>w. c_active E w"
    and "thread_turn E mem n ph s w = Inr (ph1, s1, w1)" "thread_ok ph s" "single ph s"
  shows "single ph1 s1"
proof (cases ph)
  case Starting
  obtain ok s2 w2 where i: "init E mem s w = (ok, s2, w2)" by (metis prod_cases3)
  with Starting assms(3,4,6) init_keeps [OF i] show ?thesis by (auto simp: single_def one_thread_def split: if_splits)
next
  case (Connecting st)
  with assms(2-4,6) show ?thesis
    by (auto simp: single_def one_thread_def bindE_Inr_iff dest!: conn_turn_keeps split: if_splits sum.splits)
next
  case Handling
  with assms(3,4) obtain go where t: "handle_turn E n s w = Inr (go, s1, w1)" "ph1 = (if go then Handling else Leaving)"
    by (auto simp: bindE_Inr_iff)
  have "net_ok s" using assms(5) Handling by (simp add: thread_ok_def)
  note k = handle_turn_keeps [OF assms(1) this t(1)]
  show ?thesis using k(2-4) t(2) Handling assms(6) by (auto simp: single_def one_thread_def split: if_splits)
next
  case Leaving
  with assms(4,6) show ?thesis by (auto simp: single_def)
qed (use assms(4,6) in \<open>auto simp: single_def one_thread_def split: if_splits\<close>)

text \<open>Only a turn of \<^verbatim>\<open>handle\<close> can leave the defined behaviour.\<close>

lemma tls_loop_defined [simp]: "tls_loop E n s ret w \<noteq> Inl Undefined"
proof (induction n arbitrary: ret w)
  case 0
  show ?case by (simp add: tls_loop.simps [of E 0] Let_def split: prod.split)
next
  case (Suc n)
  then show ?case by (simp add: tls_loop.simps [of E "Suc n"] Let_def split: prod.split)
qed

lemma conn_turn_defined: "conn_turn E n st s w \<noteq> Inl Undefined"
proof (cases st)
  case C_TLS_CONNECT
  obtain ret w1 where "c_SSL_do_handshake E (nw_ssl s) w = (ret, w1)" by force
  with C_TLS_CONNECT tls_loop_defined [of E n s ret w1] show ?thesis
    by (cases "tls_loop E n s ret w1") (auto simp: conn_turn_def tls_connect_def)
qed (auto simp: conn_turn_def Let_def split: prod.split)

lemma thread_turn_undefined:
  "thread_turn E mem n ph s w = Inl Undefined \<Longrightarrow> ph = Handling \<and> handle_turn E n s w = Inl Undefined"
proof (cases ph)
  case (Connecting st)
  with conn_turn_defined [of E n st s w]
  show "thread_turn E mem n ph s w = Inl Undefined \<Longrightarrow> ph = Handling \<and> handle_turn E n s w = Inl Undefined"
    by (cases "conn_turn E n st s w") (auto split: if_splits)
next
  case Handling
  then show "thread_turn E mem n ph s w = Inl Undefined \<Longrightarrow> ph = Handling \<and> handle_turn E n s w = Inl Undefined"
    by (cases "handle_turn E n s w") (auto split: if_splits)
qed (auto split: if_splits prod.splits)

section \<open>The program\<close>

text \<open>
  A frame of the windows, or a turn of the network thread. A second network thread is outside the model;
  \<open>one_network_thread\<close> shows when there is none.
\<close>

inductive program_step :: "'w cenv \<Rightarrow> (u64 \<Rightarrow> nat \<Rightarrow> bytes) \<Rightarrow> nat \<Rightarrow> 'g ui \<Rightarrow> phase \<times> 'g gui \<times> 'w \<Rightarrow> phase \<times> 'g gui \<times> 'w \<Rightarrow> bool"
  for E :: "'w cenv" and mem :: "u64 \<Rightarrow> nat \<Rightarrow> bytes" and n :: nat and U :: "'g ui" where
  window_turn: "gui_frame U g = Inr g1 \<Longrightarrow> th_num (nw_threads (g_net g1)) \<le> 1 \<Longrightarrow>
    program_step E mem n U (ph, g, w) (ph, g1, w)"
| network_turn: "thread_turn E mem n ph (g_net g) w = Inr (ph1, s1, w1) \<Longrightarrow>
    program_step E mem n U (ph, g, w) (ph1, g\<lparr>g_net := s1\<rparr>, w1)"

lemma ui_step_state: "ui_step s s1 \<Longrightarrow> nw_state s1 = nw_state s \<or> nw_state s \<in> {UNINITIALIZED, SESSION_ERROR} \<and> nw_state s1 = CONNECTED"
proof (induction rule: ui_step.induct)
  case (new_session raw name sid opt s s1)
  then show ?case
    by (auto simp: session_def start_network_def Let_def elim!: bindE_Inr_elim split: if_splits prod.splits)
qed simp_all

lemma ui_run_state: "ui_step\<^sup>*\<^sup>* s s1 \<Longrightarrow>
    (nw_state s1 = UNINITIALIZED \<longrightarrow> nw_state s = UNINITIALIZED) \<and> (nw_state s = NET_ERROR \<longrightarrow> nw_state s1 = NET_ERROR)"
  by (induction rule: rtranclp_induct) (auto dest: ui_step_state)

lemma frame_run:
  assumes "window_library U" "gui_ok g" "gui_frame U g = Inr g1"
  shows "ui_step\<^sup>*\<^sup>* (g_net g) (g_net g1)" "gui_ok g1"
proof -
  have "good False g" using assms(2) by (simp add: good_def)
  from keepsE_D [OF window_library.gui_frame_reaches [OF assms(1) this] assms(3)]
  show "ui_step\<^sup>*\<^sup>* (g_net g) (g_net g1)" "gui_ok g1" by (simp_all add: reaches_def leads_def good_def)
qed

lemma thread_ok_frame: "ui_step\<^sup>*\<^sup>* s s1 \<Longrightarrow> thread_ok ph s \<Longrightarrow> thread_ok ph s1"
  using ui_run_ok [of s s1] by (auto simp: thread_ok_def net_ok_idle)

lemma single_frame: "ui_step\<^sup>*\<^sup>* s s1 \<Longrightarrow> thread_ok ph s \<Longrightarrow> single ph s \<Longrightarrow> single ph s1"
  using ui_run_ok [of s s1] ui_run_state [of s s1] by (auto simp: thread_ok_def single_def)

lemma program_step_ok:
  assumes "tls_client E arriving taken" "window_library U" "\<forall>a n. length (mem a n) = n"
    and "program_step E mem n U (ph, g, w) (ph1, g1, w1)" "gui_ok g" "thread_ok ph (g_net g)"
  shows "gui_ok g1 \<and> thread_ok ph1 (g_net g1)"
  using assms(4)
proof (cases rule: program_step.cases)
  case window_turn
  with frame_run [OF assms(2,5)] thread_ok_frame assms(6) show ?thesis by blast
next
  case (network_turn s1)
  with thread_turn_ok [OF assms(1,3) network_turn(2) assms(6)] assms(5) show ?thesis by (simp add: gui_ok_def)
qed

lemma program_step_single:
  assumes "tls_client E arriving taken" "window_library U" "\<forall>c w. fst (c_SSL_new E c w) \<noteq> 0" "\<forall>w. c_active E w"
    and "program_step E mem n U (ph, g, w) (ph1, g1, w1)" "gui_ok g" "thread_ok ph (g_net g)" "single ph (g_net g)"
  shows "single ph1 (g_net g1)"
  using assms(5)
proof (cases rule: program_step.cases)
  case window_turn
  with frame_run [OF assms(2,6)] single_frame assms(7,8) show ?thesis by blast
next
  case (network_turn s1)
  with thread_turn_single [OF assms(1,3,4) network_turn(2) assms(7,8)] show ?thesis by simp
qed

lemma instances_ok:
  assumes "instances M name pool v = Inr g" "\<forall>a n. length (sm_mem M a n) = n" "length name = PC_NAME_MAX_LEN"
  shows "gui_ok g" "net_idle (g_net g)" "single No_Thread (g_net g)" "app_state g = LOGIN"
    "mm_user_list g = []" "user_vec (nw_users (g_net g)) = []" "i < 6 \<Longrightarrow> state_of sd i (nw_tm (g_net g)) = AT_EMPTY"
    "lf_items (cmd_queue (nw_tm (g_net g))) = []" "lf_items (nw_queue (g_net g)) = []"
proof -
  from assms(1) obtain s tm pool1 where s: "Network_new (sm_ns M) (sm_s M) (zero_network pool) = Inr s"
    and tm: "Transfer_Manager_new (sm_mem M) (sm_nc M) (sm_c M) (sm_t M) (nw_pool s) = Inr (tm, pool1)"
    and g: "g = Context_new name (s\<lparr>nw_users := User_List_new, nw_tm := tm, nw_pool := pool1\<rparr>) v"
    by (auto simp: instances_def)
  note ok = Transfer_Manager_new_ok [OF tm assms(2)]
  from s obtain q pool2 where q: "LockFreeQueue (sm_ns M) (sm_s M) 6 pool = Inr (q, pool2)"
    "s = (zero_network pool)\<lparr>nw_sock := 0, nw_queue := q, nw_ssl_ctx := 0, nw_ssl := 0, nw_state := UNINITIALIZED, nw_pool := pool2\<rparr>"
    by (auto simp: Network_new_def zero_network_def)
  from lf_ok_start [OF q(1)] have "sessions_ok q" "lf_items q = []" by (simp_all add: sessions_ok_def)
  then show "gui_ok g" "net_idle (g_net g)" "single No_Thread (g_net g)" "app_state g = LOGIN"
    "mm_user_list g = []" "user_vec (nw_users (g_net g)) = []" "i < 6 \<Longrightarrow> state_of sd i (nw_tm (g_net g)) = AT_EMPTY"
    "lf_items (cmd_queue (nw_tm (g_net g))) = []" "lf_items (nw_queue (g_net g)) = []"
    using ok assms(3) by (simp_all add: g q(2) Context_new_def login_clean_def gui_ok_def net_idle_def single_def one_thread_def
        zero_network_def User_List_new_def)
qed

lemma program_run_ok:
  assumes "tls_client E arriving taken" "window_library U" "\<forall>a n. length (mem a n) = n"
  shows "(program_step E mem n U)\<^sup>*\<^sup>* a b \<Longrightarrow> gui_ok (fst (snd a)) \<Longrightarrow> thread_ok (fst a) (g_net (fst (snd a))) \<Longrightarrow>
    gui_ok (fst (snd b)) \<and> thread_ok (fst b) (g_net (fst (snd b))) \<and>
    ((\<forall>c w. fst (c_SSL_new E c w) \<noteq> 0) \<and> (\<forall>w. c_active E w) \<and> single (fst a) (g_net (fst (snd a))) \<longrightarrow> single (fst b) (g_net (fst (snd b))))"
proof (induction rule: rtranclp_induct)
  case (step b c)
  obtain ph g w ph1 g1 w1 where bc: "b = (ph, g, w)" "c = (ph1, g1, w1)" by (metis prod_cases3)
  with step program_step_ok [OF assms, of n ph g w ph1 g1 w1] program_step_single [OF assms(1,2), of mem n ph g w ph1 g1 w1]
  show ?case by auto
qed simp

lemma program_reached:
  assumes "tls_client E arriving taken" "window_library U" "\<forall>a n. length (sm_mem M a n) = n"
    and "instances M name pool v = Inr g0" "length name = PC_NAME_MAX_LEN"
    and "(program_step E (sm_mem M) n U)\<^sup>*\<^sup>* (No_Thread, g0, w0) (ph, g, w)"
  shows "gui_ok g" "thread_ok ph (g_net g)"
    "(\<forall>c w. fst (c_SSL_new E c w) \<noteq> 0) \<Longrightarrow> (\<forall>w. c_active E w) \<Longrightarrow> single ph (g_net g)"
proof -
  note i = instances_ok [OF assms(4,3,5)]
  then have "thread_ok No_Thread (g_net g0)" by (simp add: thread_ok_def)
  from program_run_ok [OF assms(1-3,6)] i(1,3) this
  show "gui_ok g" "thread_ok ph (g_net g)"
    "(\<forall>c w. fst (c_SSL_new E c w) \<noteq> 0) \<Longrightarrow> (\<forall>w. c_active E w) \<Longrightarrow> single ph (g_net g)" by auto
qed

lemma frame_defined:
  assumes "window_library U" "gui_ok g" "tm_ok (nw_tm (g_net g))" "few_members g"
  shows "gui_frame U g \<noteq> Inl Undefined"
proof -
  have "six_transfers g" using tm_ok_length [OF assms(3), of HOST] tm_ok_length [OF assms(3), of RECV]
    by (simp add: six_transfers_def)
  with assms(2,4) have "good True g" by (simp add: good_def)
  from keepsE_defined [OF window_library.gui_frame_reaches [OF assms(1) this]] show ?thesis .
qed

lemma main_loop_good:
  assumes "window_library U"
  shows "good True g \<Longrightarrow> keepsE True (good True) (main_loop W U k g)"
proof (induction k arbitrary: g)
  case 0
  then show ?case by (subst main_loop.simps) (simp add: cleanup_def good_defs ui_do_def)
next
  case (Suc j)
  have "keepsE True (good True) (bindE (gui_frame U g) (main_loop W U j))"
    using window_library.gui_frame_reaches [OF assms Suc.prems]
    by (rule keepsE_bind) (auto simp: reaches_def intro: Suc.IH)
  with Suc.prems show ?case by (subst main_loop.simps) (simp add: cleanup_def good_defs ui_do_def)
qed

lemma create_window_good:
  assumes "create_window W wd ht name g = (ok, g1)"
  shows "good df g1 = good df g" "g_net g1 = g_net g"
  using assms by (auto simp: create_window_def load_icon_def ui_call_def ui_do_def good_defs Let_def
      split: prod.splits if_splits)

section \<open>Properties\<close>

text \<open>
  C4: the start of the client: without memory for the pool \<^verbatim>\<open>main\<close> returns at once; with it the
  constructors of all singletons find room, and what they make is well formed: the login menu, no
  thread, idle transfers, empty queues, and a pool in which the buffers of the first \<^verbatim>\<open>init\<close> still find
  room. While nothing comes from the network, \<^verbatim>\<open>main\<close> stays within the defined behaviour whatever the
  user does, and no thread is left when it returns.
\<close>

theorem client_start_spec:
  assumes "window_library U" "unat (malloc MEM_POOL_SIZE) mod 8 = 0" "unat (malloc MEM_POOL_SIZE) < 2 ^ 62"
    and "unat (sm_ns M) \<le> 1024" "unat (sm_nc M) \<le> 1024" "\<forall>a n. length (sm_mem M a n) = n" "length name = PC_NAME_MAX_LEN"
  shows "(malloc MEM_POOL_SIZE = 0 \<longrightarrow> quickshare malloc pool0 M name W U k v = Inr None) \<and>
    (malloc MEM_POOL_SIZE \<noteq> 0 \<longrightarrow> (\<exists>pool g. mem_pool_init malloc MEM_POOL_SIZE pool0 = (True, pool) \<and>
       instances M name pool v = Inr g \<and> gui_ok g \<and> app_state g = LOGIN \<and> th_num (nw_threads (g_net g)) = 0 \<and>
       net_idle (g_net g) \<and> (\<forall>sd. \<forall>i < 6. state_of sd i (nw_tm (g_net g)) = AT_EMPTY) \<and>
       lf_items (cmd_queue (nw_tm (g_net g))) = [] \<and> lf_items (nw_queue (g_net g)) = [] \<and> room (nw_pool (g_net g)) 2880 \<and>
       keepsE True (\<lambda>r. \<exists>g1. r = Some g1 \<and> th_num (nw_threads (g_net g1)) = 0) (quickshare malloc pool0 M name W U k v)))"
proof (cases "malloc MEM_POOL_SIZE = 0")
  case True
  with mem_pool_init_fail [of malloc MEM_POOL_SIZE pool0] show ?thesis by (auto simp: quickshare_def split: prod.split)
next
  case False
  from pool_ready [of malloc M, OF False assms(2-5), of pool0 name v] obtain pool g where
    pool: "mem_pool_init malloc MEM_POOL_SIZE pool0 = (True, pool)"
    and g: "instances M name pool v = Inr g" "th_num (nw_threads (g_net g)) = 0" "room (nw_pool (g_net g)) 2880" by blast
  note i = instances_ok [OF g(1) assms(6,7)]
  have "six_transfers g"
    using i(2) tm_ok_length [of "nw_tm (g_net g)" HOST] tm_ok_length [of "nw_tm (g_net g)" RECV]
    by (simp add: net_idle_def six_transfers_def)
  with i(1,5,6) have "good True g" by (simp add: good_def few_members_def)
  moreover obtain ok g1 where w: "create_window W 600 600 ''Quickshare'' g = (ok, g1)" by force
  ultimately have "good True (init_imgui W g1)" "th_num (nw_threads (g_net g1)) = 0"
    using create_window_good [OF w] g(2) by (simp_all add: init_imgui_def)
  then have "keepsE True (\<lambda>g2. th_num (nw_threads (g_net g2)) = 0) (Quickshare_main W U k g)"
    using w by (auto simp: Quickshare_main_def close_all_def intro!: keepsE_bind [OF main_loop_good [OF assms(1)]])
  then have "keepsE True (\<lambda>r. \<exists>g1. r = Some g1 \<and> th_num (nw_threads (g_net g1)) = 0) (quickshare malloc pool0 M name W U k v)"
    using pool g(1) by (simp add: quickshare_def) (rule keepsE_bind, simp_all)
  with False pool g i show ?thesis by auto
qed

definition example_start :: start_memory where
  "example_start = \<lparr>sm_ns = 56, sm_nc = 200, sm_s = (\<lambda>_. no_session), sm_c = (\<lambda>_. Cmd_Cancel 0), sm_t = (\<lambda>_. raw_transfer),
     sm_mem = example_mem\<rparr>"

lemma example_start: "unat (sm_ns example_start) \<le> 1024" "unat (sm_nc example_start) \<le> 1024"
    "\<forall>a n. length (sm_mem example_start a n) = n"
  by (simp_all add: example_start_def)

text \<open>A window that closes at once, and one that cannot be made.\<close>

definition plain_windows :: "bool \<Rightarrow> 'g windows" where
  "plain_windows b = \<lparr>glfwSetErrorCallback = (\<lambda>v. v), glfwInit = (\<lambda>v. (b, v)), glfwWindowHint = (\<lambda>_ _ v. v),
     glfwCreateWindow = (\<lambda>_ _ _ v. (1, v)), stbi_load = (\<lambda>_ v. (2, v)), glfwSetWindowIcon = (\<lambda>_ _ v. v),
     stbi_image_free = (\<lambda>_ v. v), glfwMakeContextCurrent = (\<lambda>_ v. v), glfwSwapInterval = (\<lambda>_ v. v),
     init_gui = (\<lambda>_ _ v. v), glfwWindowShouldClose = (\<lambda>_ _. True), gui_shutdown = (\<lambda>v. v),
     glfwDestroyWindow = (\<lambda>_ v. v), glfwTerminate = (\<lambda>v. v)\<rparr>"

theorem client_start_spec_witness:
  "(\<exists>pool g. mem_pool_init (\<lambda>_. 4096) MEM_POOL_SIZE client_pool = (True, pool) \<and>
     instances example_start (replicate 16 0) pool first_desk = Inr g \<and> room (nw_pool (g_net g)) 2880) \<and>
   quickshare (\<lambda>_. 4096) client_pool example_start (replicate 16 0) (plain_windows True) desk_ui 5 first_desk \<noteq> Inl Undefined"
proof -
  have "unat ((\<lambda>_. 4096) (MEM_POOL_SIZE) :: u64) mod 8 = 0" "unat ((\<lambda>_. 4096) (MEM_POOL_SIZE) :: u64) < 2 ^ 62"
    "length (replicate 16 0 :: bytes) = PC_NAME_MAX_LEN" by simp_all
  from client_start_spec [OF desk.window_library_axioms this(1,2) example_start this(3),
      of client_pool "plain_windows True" 5 first_desk]
  show ?thesis by (auto dest: keepsE_defined)
qed

text \<open>
  C3: the client as a whole: from its constructors on, in every interleaving of frames with the turns
  of one network thread through start, connecting, handling and leaving, interface and transfers stay
  well formed, from \<^verbatim>\<open>init\<close> on the buffers are well formed too, and writing the next packet stays within
  the defined behaviour. While at most six other members with terminated names are listed, so does the
  next frame. When every path that waits in a command is terminated, the next packet can be made. The
  only turn of the network thread that can leave the defined behaviour is one of \<^verbatim>\<open>handle\<close>, when it runs a
  command whose path is not terminated or reads what the server sent. The last two are for file positions
  of - 1 or below \<open>2\<^sup>63 / 100\<close>. The runs end where a frame or a turn fails an assertion or leaves the defined
  behaviour, and where a frame would start a second network thread, which \<open>one_network_thread\<close> excludes
  while \<^verbatim>\<open>SSL_new\<close> succeeds.
\<close>

theorem program_runs:
  assumes "tls_client E arriving taken" "window_library U" "\<forall>a n. length (sm_mem M a n) = n"
    and "instances M name pool v = Inr g0" "length name = PC_NAME_MAX_LEN"
    and "(program_step E (sm_mem M) n U)\<^sup>*\<^sup>* (No_Thread, g0, w0) (ph, g, w)"
  shows "gui_ok g \<and> tm_ok (nw_tm (g_net g)) \<and> (in_connection ph \<longrightarrow> net_ok (g_net g)) \<and>
    (few_members g \<longrightarrow> gui_frame U g \<noteq> Inl Undefined) \<and>
    (ph = Handling \<longrightarrow> (\<forall>s1 w1. check_write E (g_net g) w = Inr (s1, w1) \<and> nw_want_write s1 \<longrightarrow>
       Network_write_data E s1 w1 \<noteq> Inl Undefined)) \<and>
    (small_files E \<longrightarrow>
       (ph = Handling \<and> paths_terminated (nw_tm (g_net g)) \<longrightarrow> (\<exists>s1 w1. check_write E (g_net g) w = Inr (s1, w1))) \<and>
       (thread_turn E (sm_mem M) n ph (g_net g) w = Inl Undefined \<longrightarrow> ph = Handling \<and>
          (\<not> paths_terminated (nw_tm (g_net g)) \<or> (\<exists>s1 w1 w2. check_write E (g_net g) w = Inr (s1, w1) \<and>
             Network_read_data E n s1 w2 = Inl Undefined))))"
proof (intro conjI impI)
  note r = program_reached [OF assms]
  show "gui_ok g" by (rule r(1))
  show tm: "tm_ok (nw_tm (g_net g))" using r(2) by (simp add: thread_ok_def net_idle_def)
  show net: "net_ok (g_net g)" if "in_connection ph" using r(2) that by (simp add: thread_ok_def)
  have ok: "net_ok (g_net g)" if "ph = Handling" using net that by simp
  show "gui_frame U g \<noteq> Inl Undefined" if "few_members g" by (rule frame_defined [OF assms(2) r(1) tm that])
  show "\<forall>s1 w1. check_write E (g_net g) w = Inr (s1, w1) \<and> nw_want_write s1 \<longrightarrow>
      Network_write_data E s1 w1 \<noteq> Inl Undefined" if "ph = Handling"
    using next_write(1) [OF assms(1) ok [OF that]] by blast
  show "\<exists>s1 w1. check_write E (g_net g) w = Inr (s1, w1)"
    if "small_files E" "ph = Handling \<and> paths_terminated (nw_tm (g_net g))"
    using next_write(2) [OF assms(1) ok that(1), of w] that(2) by auto
  assume small: "small_files E" and turn: "thread_turn E (sm_mem M) n ph (g_net g) w = Inl Undefined"
  note h = thread_turn_undefined [OF turn]
  then show "ph = Handling" ..
  from h net have "net_ok (g_net g)" by simp
  from tls_client.handle_turn_undefined [OF assms(1) this small] h
  show "\<not> paths_terminated (nw_tm (g_net g)) \<or> (\<exists>s1 w1 w2. check_write E (g_net g) w = Inr (s1, w1) \<and>
      Network_read_data E n s1 w2 = Inl Undefined)" by blast
qed

text \<open>
  C21: while \<^verbatim>\<open>SSL_new\<close> succeeds and the program runs, there is never more than one network thread: no
  frame starts a second, the thread leaves its connection only with \<^verbatim>\<open>NET_ERROR\<close>, after which it ends,
  and it never goes back to \<^verbatim>\<open>UNINITIALIZED\<close>.
\<close>

theorem one_network_thread:
  assumes "tls_client E arriving taken" "window_library U" "\<forall>a n. length (sm_mem M a n) = n"
    and "instances M name pool v = Inr g0" "length name = PC_NAME_MAX_LEN"
    and "(program_step E (sm_mem M) n U)\<^sup>*\<^sup>* (No_Thread, g0, w0) (ph, g, w)"
    and "\<forall>c w. fst (c_SSL_new E c w) \<noteq> 0" "\<forall>w. c_active E w"
  shows "th_num (nw_threads (g_net g)) \<le> 1 \<and>
    (\<forall>g1. gui_frame U g = Inr g1 \<longrightarrow> th_num (nw_threads (g_net g1)) \<le> 1) \<and>
    (ph \<noteq> No_Thread \<longrightarrow> th_num (nw_threads (g_net g)) = 1 \<and> nw_state (g_net g) \<noteq> UNINITIALIZED) \<and>
    (ph = Leaving \<longrightarrow> nw_state (g_net g) = NET_ERROR)"
proof -
  note r = program_reached [OF assms(1-6)] and s = program_reached(3) [OF assms]
  have "th_num (nw_threads (g_net g1)) \<le> 1" if "gui_frame U g = Inr g1" for g1
    using single_frame [OF frame_run(1) [OF assms(2) r(1) that] r(2) s] by (simp add: single_def one_thread_def)
  with s show ?thesis by (auto simp: single_def one_thread_def)
qed

text \<open>
  When \<^verbatim>\<open>SSL_new\<close> fails the thread cleans up, which sets the state to \<^verbatim>\<open>UNINITIALIZED\<close>, and goes on: the next
  request for a session starts a second thread on the same object.
\<close>

theorem second_network_thread:
  assumes "c_active E w" "fst (c_SSL_new E (nw_ssl_ctx s) w) = 0" "th_num (nw_threads s) = 1"
  shows "\<exists>s1 w1 s2 w2. thread_turn E mem n (Connecting C_INIT) s w = Inr (Leaving, s1, w1) \<and>
    thread_turn E mem n Leaving s1 w1 = Inr (Starting, s2, w2) \<and> nw_state s2 = UNINITIALIZED \<and>
    (\<forall>raw name sid opt s3. session raw name sid opt s2 = Inr s3 \<longrightarrow> th_num (nw_threads s3) = 2)"
proof -
  obtain w1 where h: "c_SSL_new E (nw_ssl_ctx s) w = (0, w1)" using assms(2) by (metis prod.collapse)
  let ?s1 = "s\<lparr>nw_ssl := 0, nw_state := INIT_ERROR\<rparr>"
  obtain s2 w2 where c: "clean E ?s1 w1 = (s2, w2)" by force
  then have s2: "nw_state s2 = UNINITIALIZED" "nw_threads s2 = nw_threads s" by (auto simp: clean_def Let_def)
  have "th_num (nw_threads s3) = 2" if "session raw name sid opt s2 = Inr s3" for raw name sid opt s3
    using that s2 assms(3)
    by (auto simp: session_def start_network_def new_thread_def Let_def elim!: bindE_Inr_elim split: prod.splits if_splits)
  with h c assms(1) s2(1) show ?thesis by (auto simp: conn_turn_def)
qed

text \<open>A user who types a key and presses \<^verbatim>\<open>Enter\<close> in the first frame; the thread starts and makes its buffers.\<close>

definition entering_desk :: desk where
  "entering_desk = first_desk\<lparr>dk_pressed := [ascii ''Enter'']\<rparr>"

lemma room_init:
  assumes "room (nw_pool s) 2880"
  shows "\<exists>s1. init disk_env mem s w = (True, s1, w) \<and> nw_threads s1 = nw_threads s \<and> nw_users s1 = nw_users s"
proof -
  have "room (nw_pool s) (round8 (unat (1440 :: u64)) + 1440)" using assms by (simp add: round8_def)
  from room_alloc [OF this] obtain p1 where
    1: "alloc 1440 (nw_pool s) = (blk_free (root (nw_pool s)), p1)" "blk_free (root (nw_pool s)) \<noteq> 0" "room p1 1440" by blast
  from 1(3) have "room p1 (round8 (unat (1440 :: u64)) + 0)" by (simp add: round8_def)
  from room_alloc [OF this] 1 show ?thesis
    by (auto simp: init_def create_socket_def set_non_blocking_def disk_env_def)
qed

lemma first_enter:
  assumes "instances M (replicate 16 0) pool entering_desk = Inr g" "\<forall>a n. length (sm_mem M a n) = n"
    and "room (nw_pool (g_net g)) 2880" "th_num (nw_threads (g_net g)) = 0"
  shows "\<exists>g1. gui_frame desk_ui g = Inr g1 \<and> room (nw_pool (g_net g1)) 2880 \<and> th_num (nw_threads (g_net g1)) = 1 \<and>
    few_members g1"
proof -
  note i = instances_ok [OF assms(1,2)]
  from assms(1) obtain s where g: "g = Context_new (replicate 16 0) s entering_desk" "nw_state s = UNINITIALIZED"
    by (auto simp: instances_def Network_new_def zero_network_def)
  have q: "lf_ok 3 (nw_queue s)" "lf_items (nw_queue s) = []" "nw_pool s = nw_pool (g_net g)" "th_num (nw_threads s) = 0"
    "user_vec (nw_users s) = []"
    using i assms(4) by (simp_all add: g(1) Context_new_def login_clean_def net_idle_def sessions_ok_def)
  then have "\<forall>x. \<exists>q1. push x (nw_queue s) = (True, q1)" using lf.push_room [OF q(1)] by fastforce
  then obtain f where f: "\<And>x. push x (nw_queue s) = (True, f x)" by metis
  show ?thesis
    using q(3-5) assms(3) g(2)
    by (simp add: g(1) f gui_frame_def Context_new_def login_clean_def login_draw_def login_inner_def login_button_def
        draw_key_def draw_enter_def draw_text_def net_check_def ui_call_def ui_do_def desk_ui_def entering_desk_def first_desk_def
        ascii_def session_def start_network_def new_thread_def Session_new_def safe_strcpy_def no_session_def few_members_def Let_def cstr_def)
qed

lemma example_program:
  "\<exists>pool g0 ph g w. instances example_start (replicate 16 0) pool entering_desk = Inr g0 \<and>
    (program_step disk_env (sm_mem example_start) 0 desk_ui)\<^sup>*\<^sup>* (No_Thread, g0, example_disk) (ph, g, w) \<and>
    ph = Connecting C_INIT \<and> th_num (nw_threads (g_net g)) = 1 \<and> few_members g"
proof -
  have "unat ((\<lambda>_. 4096) (MEM_POOL_SIZE) :: u64) mod 8 = 0" "unat ((\<lambda>_. 4096) (MEM_POOL_SIZE) :: u64) < 2 ^ 62"
    "length (replicate 16 0 :: bytes) = PC_NAME_MAX_LEN" by simp_all
  note ok = example_start this
  have "(\<lambda>_. 4096) (MEM_POOL_SIZE) \<noteq> (0 :: u64)" by simp
  from pool_ready [of "\<lambda>_. 4096" example_start, OF this ok(4,5,1,2), of client_pool "replicate 16 0" entering_desk] obtain pool g0 where
    g0: "instances example_start (replicate 16 0) pool entering_desk = Inr g0" "room (nw_pool (g_net g0)) 2880"
      "th_num (nw_threads (g_net g0)) = 0" by blast
  from first_enter [OF g0(1) ok(3) g0(2,3)] obtain g1 where
    1: "gui_frame desk_ui g0 = Inr g1" "room (nw_pool (g_net g1)) 2880" "th_num (nw_threads (g_net g1)) = 1" "few_members g1" by blast
  let ?step = "program_step disk_env (sm_mem example_start) 0 desk_ui"
  obtain s2 where i: "init disk_env (sm_mem example_start) (g_net g1) example_disk = (True, s2, example_disk)"
    "nw_threads s2 = nw_threads (g_net g1)" "nw_users s2 = nw_users (g_net g1)" using room_init [OF 1(2)] by blast
  have "?step (No_Thread, g0, example_disk) (No_Thread, g1, example_disk)" using 1 by (intro window_turn) simp_all
  moreover have "?step (No_Thread, g1, example_disk) (Starting, g1\<lparr>g_net := g_net g1\<rparr>, example_disk)"
    using 1(3) by (intro network_turn) simp
  moreover have "?step (Starting, g1, example_disk) (Connecting C_INIT, g1\<lparr>g_net := s2\<rparr>, example_disk)"
    using i(1) by (intro network_turn) (simp add: disk_env_def)
  ultimately have "?step\<^sup>*\<^sup>* (No_Thread, g0, example_disk) (Connecting C_INIT, g1\<lparr>g_net := s2\<rparr>, example_disk)" by simp
  moreover have "th_num (nw_threads (g_net (g1\<lparr>g_net := s2\<rparr>))) = 1" "few_members (g1\<lparr>g_net := s2\<rparr>)"
    using 1(3,4) i(2,3) by (simp_all add: few_members_def)
  ultimately show ?thesis using g0(1) by blast
qed

theorem program_runs_witness:
  "\<exists>ph g. in_connection ph \<and> th_num (nw_threads (g_net g)) = 1 \<and> net_ok (g_net g) \<and>
    gui_frame desk_ui g \<noteq> Inl Undefined"
proof -
  from example_program obtain pool g0 ph g w where
    p: "instances example_start (replicate 16 0) pool entering_desk = Inr g0"
      "(program_step disk_env (sm_mem example_start) 0 desk_ui)\<^sup>*\<^sup>* (No_Thread, g0, example_disk) (ph, g, w)"
      "ph = Connecting C_INIT" "th_num (nw_threads (g_net g)) = 1" "few_members g" by blast
  have "length (replicate 16 0 :: bytes) = PC_NAME_MAX_LEN" by simp
  from program_runs [OF disk_tls.tls_client_axioms desk.window_library_axioms example_start(3) p(1) this p(2)] p(3-5)
  show ?thesis by (intro exI [of _ ph] exI [of _ g]) simp
qed

theorem one_network_thread_witness:
  "\<exists>g. th_num (nw_threads (g_net g)) = 1 \<and> nw_state (g_net g) \<noteq> UNINITIALIZED \<and>
    (\<forall>g1. gui_frame desk_ui g = Inr g1 \<longrightarrow> th_num (nw_threads (g_net g1)) \<le> 1)"
proof -
  from example_program obtain pool g0 ph g w where
    p: "instances example_start (replicate 16 0) pool entering_desk = Inr g0"
      "(program_step disk_env (sm_mem example_start) 0 desk_ui)\<^sup>*\<^sup>* (No_Thread, g0, example_disk) (ph, g, w)"
      "ph = Connecting C_INIT" by blast
  have h: "length (replicate 16 0 :: bytes) = PC_NAME_MAX_LEN" "\<forall>c w. fst (c_SSL_new disk_env c w) \<noteq> 0" "\<forall>w. c_active disk_env w"
    by (simp_all add: disk_env_def)
  from one_network_thread [OF disk_tls.tls_client_axioms desk.window_library_axioms example_start(3) p(1) h(1) p(2) h(2,3)] p(3)
  show ?thesis by blast
qed

end
