(* ===== verification/Spec2Isabelle.thy ===== *)
theory Spec2Isabelle
  imports Server_Start Client_Server Client_Runs
begin

text \<open>
  \<^bold>\<open>Quickshare\<close>: clients join a session on a server, see its other members and send files to them
  through the server, over TLS. The repository holds the server (C, \<^verbatim>\<open>qs_server/\<close>), the graphical client
  (C++, \<^verbatim>\<open>src/\<close> and \<^verbatim>\<open>include/\<close>) and code both share (\<^verbatim>\<open>shared/\<close>). This development models the server from the
  memory pool to its \<^verbatim>\<open>main\<close> and the client from its queues and files to its network thread and its windows,
  function by function, and proves what makes them correct, and where they fail.

  \<^bold>\<open>Conventions.\<close> Machine integers are words of their width; sizes and addresses are 64-bit words, NULL is
  0; a \<^verbatim>\<open>struct\<close> is a record, memory that is read and written at offsets is a list of bytes. A C call is
  a function to \<open>fault + value\<close>: \<open>Assert_Failed\<close> is a failed \<^verbatim>\<open>assert\<close>, \<open>Died\<close> a call of \<^verbatim>\<open>die\<close>, \<open>Undefined\<close> a step
  outside the defined behaviour of C, such as a write behind a buffer. \<open>Out_Of_Fuel\<close> is no behaviour: a
  loop whose end a library decides has a bound on its turns, and each statement that such a loop
  returns names a bound that is enough. A relation on runs has a step for each call that returns; which
  calls do not is stated beside it. \<open>keepsE\<close>, \<open>returnsE\<close> and \<open>delivers\<close> are the forms in which preservation
  is stated. Everything outside the repository (system calls, OpenSSL, SQLite, stdio, clocks) is a record
  of functions over an abstract world \<open>'w\<close>: \<open>env\<close> for the server (\<open>boot_env\<close> for its start), \<open>cenv\<close> for the
  client, \<open>ui\<close> and \<open>windows\<close> for its windows. What the manual pages of these calls promise are the assumptions of
  the locales \<open>bounded_io\<close>, \<open>sqlite\<close>, \<open>streams\<close>, \<open>stdio\<close>, \<open>tls_client\<close> and \<open>window_library\<close>; each is
  interpreted on a concrete machine (\<open>machine_env\<close>, \<open>disk_env\<close>, \<open>desk_ui\<close>), on which the witnesses run.

  \<^bold>\<open>Shared code.\<close>
  \<^item> \<open>Qs_Prelude\<close>: machine integers, faults, byte strings with little-endian fields (\<open>byte_simps\<close>).
  \<^item> \<open>Mem_Pool\<close> (\<^verbatim>\<open>shared/mem_pool/mem.c\<close>): the bump allocator; blocks are aligned, in bounds, disjoint.
  \<^item> \<open>Packet\<close> (\<^verbatim>\<open>shared/msg.h\<close>, \<^verbatim>\<open>config.h\<close>, \<^verbatim>\<open>util/util.c\<close>): a packet is its 1440 bytes; the members of the union
    are readers and writers at their offsets. \<open>Framing\<close> is the reference for cutting a stream of bytes
    into packets, which both ends implement.

  \<^bold>\<open>Server.\<close>
  \<^item> \<open>Queue\<close> (\<^verbatim>\<open>queue.c\<close>): the ring of messages to a client; it refines a bounded FIFO (locale \<open>fifo\<close> with the
    abstract \<open>list_run\<close>), and an element that is handed out is free.
  \<^item> \<open>External\<close>, \<open>Database\<close> (\<^verbatim>\<open>database.c\<close>, \<^verbatim>\<open>db_init.sql\<close>): the tables, the statements and each query, against
    the locale \<open>sqlite\<close>, whose view of the world is a set of tables.
  \<^item> \<open>Secure\<close>, \<open>Client\<close>, \<open>Server\<close> (\<^verbatim>\<open>secure.c\<close>, \<^verbatim>\<open>buffer.h\<close>, \<^verbatim>\<open>client.c\<close>, \<^verbatim>\<open>server.h\<close>, parts of \<^verbatim>\<open>network.c\<close>): TLS objects
    with their output buffer, the table of 32 clients, the senders, and \<open>server_ok\<close>, the well-formedness
    every operation keeps. \<open>mail\<close> and \<open>delivers\<close> state which messages an operation posts to whom.
  \<^item> \<open>Net_Packet\<close> (\<^verbatim>\<open>net_packet.c\<close>) holds the handlers; \<open>Net_Intro\<close> and \<open>Net_Transfer\<close> what is proved of them.
    \<open>Net_Close\<close>, \<open>Net_Write\<close>, \<open>Net_Read\<close> (\<^verbatim>\<open>net_close.c\<close>, \<^verbatim>\<open>net_write.c\<close>, \<^verbatim>\<open>net_read.c\<close>): closing, encrypting and
    writing in order, decrypting into frames. \<open>Machine\<close> is the concrete machine.
  \<^item> \<open>Server_Loop\<close> (\<^verbatim>\<open>network.c\<close>): accepting, the handling of events, the loop; the invariant of all runs,
    and the three ways in which a handler reads or writes outside of an object, which end a run.
  \<^item> \<open>Server_Start\<close> (\<^verbatim>\<open>qs_server.c\<close>, \<^verbatim>\<open>ssl_init\<close>, \<^verbatim>\<open>db_init\<close>, \<^verbatim>\<open>create_socket\<close>, \<^verbatim>\<open>setup_poll\<close>): the start of the server up to
    the loop, and \<^verbatim>\<open>main\<close>; the foreign calls a start that returns has made (\<open>start_calls\<close>), where it dies, and
    that it reaches the invariant of the loop.

  \<^bold>\<open>Client.\<close>
  \<^item> \<open>Lock_Free_Queue\<close>, \<open>Lock_Free_Steps\<close> (\<^verbatim>\<open>LockFreeQueueCpp11.h\<close>): the queue between the user interface and the
    network thread, as operations that run alone (locale \<open>channel\<close>) and as steps of any number of
    producers and one consumer that interleave at each access of a shared variable.
  \<^item> \<open>File_Manager\<close> (\<^verbatim>\<open>file_manager.cpp\<close>): a file is read into data packets and written from them.
  \<^item> \<open>Transfer_Manager\<close> (\<^verbatim>\<open>transfer_manager.cpp\<close>): six offered and six received transfers, the commands of the
    user interface, the packets of the server, \<^verbatim>\<open>do_work\<close>. \<open>Transfer_States\<close> has the invariant and the edges
    of the two state machines and shows that each operation follows them; \<open>Transfer_Properties\<close> the
    properties: the settling of requests, termination, the request on the wire.
  \<^item> \<open>Client_Users\<close> (\<^verbatim>\<open>users.cpp\<close>): the list of members; it refines a partial map.
  \<^item> \<open>Client_Network\<close> (\<^verbatim>\<open>network.cpp\<close>, \<^verbatim>\<open>connection.hpp\<close>, \<^verbatim>\<open>thread_manager.hpp\<close>): connecting, reading, writing, the
    loop of the thread. \<open>Client_Reading\<close> shows that packets are the frames of the stream, \<open>Client_Writing\<close>
    what a turn sends, and runs in which turns and calls of the user interface alternate;
    \<open>Client_Properties\<close> states the properties.
  \<^item> \<open>User_Interface\<close> (\<^verbatim>\<open>main_menu.cpp\<close>, \<^verbatim>\<open>login_menu.cpp\<close>, \<^verbatim>\<open>context.cpp\<close>): which elements a frame of the windows
    shows, what it reads, and what the program does in answer to the user. \<open>Interface_Properties\<close> shows
    that a frame is a sequence of the calls the runs of \<open>Client_Writing\<close> allow; \<open>Interface_Requests\<close> follows a
    request from the button to the packet.
  \<^item> \<open>Client_Start\<close> (\<^verbatim>\<open>quickshare.cpp\<close>, the window of \<^verbatim>\<open>context.cpp\<close>): \<^verbatim>\<open>main\<close>, and the network thread as a machine
    whose turns are those of its loops (\<open>thread_turn\<close>). \<open>Client_Runs\<close>: every run of \<^verbatim>\<open>server_loop\<close> is a sequence
    of these turns, the constructors find their memory, and the invariant of the whole program, in
    which frames and turns interleave, with the turns that leave the defined behaviour; when there is only
    one network thread, and when not.
  \<^item> \<open>Client_Server\<close>: both ends; the list of users of the client follows what the server tells.

  \<^bold>\<open>Bounds and fuel.\<close> Loops over rows of a query, over events, over \<^verbatim>\<open>SSL_read\<close> and \<^verbatim>\<open>SSL_write\<close> and the retries of
  a connection take their turns as an argument, since SQLite, the kernel and TLS decide when they end.
  \<^verbatim>\<open>process_cmds\<close> needs 8 turns, the room of its queue (\<open>do_work_returns\<close>); \<^verbatim>\<open>read_work\<close> ends a file after at most
  one packet for each byte (\<open>file_roundtrip\<close>); \<^verbatim>\<open>write_bytes\<close> returns because each turn shortens its buffer;
  the padding loop of \<^verbatim>\<open>alloc\<close> ends within seven turns.

  \<^bold>\<open>Not modelled.\<close> Log output, except where its buffer overflows (\<^verbatim>\<open>debug_transfer\<close>). Sizes, positions, colours
  and fonts of the windows, and the menu that edits the background colour: calls of the library that
  no decision of the program depends on. The terminal
  client, a test program. \<^verbatim>\<open>src/database.cpp\<close>, which the Makefile does not build. The Windows and macOS branches.
  The windows and the network thread of the client alternate, a frame or a turn at a time, except in
  the lock-free queue, where they interleave at each access under sequential consistency; weaker
  memory orders and races between a frame and a turn on the tables of transfers are not modelled. A
  second network thread is not modelled beyond its start.
  TLS is the stream of plain bytes it promises; its cryptography is not modelled.
\<close>

end
